(* ===== verification/Prelude.thy ===== *)
theory Prelude
  imports Main "HOL-Library.Word" "HOL-Library.Product_Lexorder"
begin

text \<open>
  What the components share: the integer types of the source, the exceptions it throws, the
  exception monad its functions run in, and generic facts on lists and machine words.

  An unsigned C++ integer of width w is a \<^verbatim>\<open>w word\<close>, so that its arithmetic
  wraps as it does in C++.  A signed \<^verbatim>\<open>int64_t\<close> is an \<^typ>\<open>int\<close>; where an
  operation of the source could leave the 64-bit range the model says so with
  \<^verbatim>\<open>wrap_i64\<close>.  A function that may throw returns a value of the type
  \<^verbatim>\<open>'a result\<close>: \<^term>\<open>Inl\<close> the exception, or \<^term>\<open>Inr\<close> the value.
\<close>

section \<open>Integers\<close>

type_synonym u8 = "8 word"
type_synonym u16 = "16 word"
type_synonym u32 = "32 word"
type_synonym u64 = "64 word"
type_synonym u128 = "128 word"

text \<open>An \<^verbatim>\<open>account_name\<close>, \<^verbatim>\<open>permission_name\<close>, \<^verbatim>\<open>action_name\<close> or
  \<^verbatim>\<open>scope_name\<close> is the 64-bit value of a \<^verbatim>\<open>name\<close>.\<close>

type_synonym account_name = u64

text \<open>A \<^verbatim>\<open>time_point\<close> and a duration \<^verbatim>\<open>fc::microseconds\<close> are microseconds.\<close>

type_synonym microseconds = int

type_synonym bytes = "u8 list"

definition wrap_i64 :: "int \<Rightarrow> int" where
  "wrap_i64 x = (x + 2 ^ 63) mod 2 ^ 64 - 2 ^ 63"

definition in_i64 :: "int \<Rightarrow> bool" where
  "in_i64 x \<longleftrightarrow> - (2 ^ 63) \<le> x \<and> x < 2 ^ 63"

section \<open>Exceptions\<close>

text \<open>
  An exception of \<^verbatim>\<open>libraries/chain/include/snax/chain/exceptions.hpp\<close> is known by the name of
  its class.  Besides these there are the exceptions of the object database
  (\<^verbatim>\<open>unknown_key\<close>, \<^verbatim>\<open>uniqueness_violation\<close>), the message-carrying exception
  of a contract's \<^verbatim>\<open>snax_assert\<close>, \<^verbatim>\<open>arithmetic_fault\<close> for a division
  by zero, and \<^verbatim>\<open>undefined_behaviour\<close> for a dangling pointer or a loop that does not end.
\<close>

datatype exception =
    chain_exception string
  | snax_assert_message_exception string
  | unknown_key
  | uniqueness_violation
  | arithmetic_fault
  | undefined_behaviour

abbreviation rate_limiting_state_inconsistent :: exception where
  "rate_limiting_state_inconsistent \<equiv> chain_exception ''rate_limiting_state_inconsistent''"

abbreviation resource_limit_exception :: exception where
  "resource_limit_exception \<equiv> chain_exception ''resource_limit_exception''"

abbreviation transaction_exception :: exception where
  "transaction_exception \<equiv> chain_exception ''transaction_exception''"

abbreviation tx_net_usage_exceeded :: exception where
  "tx_net_usage_exceeded \<equiv> chain_exception ''tx_net_usage_exceeded''"

abbreviation tx_cpu_usage_exceeded :: exception where
  "tx_cpu_usage_exceeded \<equiv> chain_exception ''tx_cpu_usage_exceeded''"

abbreviation block_resource_exhausted :: exception where
  "block_resource_exhausted \<equiv> chain_exception ''block_resource_exhausted''"

abbreviation ram_usage_exceeded :: exception where
  "ram_usage_exceeded \<equiv> chain_exception ''ram_usage_exceeded''"

abbreviation authorization_exception :: exception where
  "authorization_exception \<equiv> chain_exception ''authorization_exception''"

abbreviation permission_query_exception :: exception where
  "permission_query_exception \<equiv> chain_exception ''permission_query_exception''"

abbreviation account_query_exception :: exception where
  "account_query_exception \<equiv> chain_exception ''account_query_exception''"

abbreviation invalid_permission :: exception where
  "invalid_permission \<equiv> chain_exception ''invalid_permission''"

abbreviation unlinkable_min_permission_action :: exception where
  "unlinkable_min_permission_action \<equiv> chain_exception ''unlinkable_min_permission_action''"

abbreviation irrelevant_auth_exception :: exception where
  "irrelevant_auth_exception \<equiv> chain_exception ''irrelevant_auth_exception''"

abbreviation unsatisfied_authorization :: exception where
  "unsatisfied_authorization \<equiv> chain_exception ''unsatisfied_authorization''"

abbreviation missing_auth_exception :: exception where
  "missing_auth_exception \<equiv> chain_exception ''missing_auth_exception''"

abbreviation tx_irrelevant_sig :: exception where
  "tx_irrelevant_sig \<equiv> chain_exception ''tx_irrelevant_sig''"

abbreviation tx_not_found :: exception where
  "tx_not_found \<equiv> chain_exception ''tx_not_found''"

abbreviation action_validate_exception :: exception where
  "action_validate_exception \<equiv> chain_exception ''action_validate_exception''"

abbreviation account_name_exists_exception :: exception where
  "account_name_exists_exception \<equiv> chain_exception ''account_name_exists_exception''"

abbreviation invalid_contract_vm_type :: exception where
  "invalid_contract_vm_type \<equiv> chain_exception ''invalid_contract_vm_type''"

abbreviation invalid_contract_vm_version :: exception where
  "invalid_contract_vm_version \<equiv> chain_exception ''invalid_contract_vm_version''"

abbreviation set_exact_code :: exception where
  "set_exact_code \<equiv> chain_exception ''set_exact_code''"

abbreviation overflow_exception :: exception where
  "overflow_exception \<equiv> chain_exception ''overflow_exception''"

abbreviation actor_whitelist_exception :: exception where
  "actor_whitelist_exception \<equiv> chain_exception ''actor_whitelist_exception''"

abbreviation actor_blacklist_exception :: exception where
  "actor_blacklist_exception \<equiv> chain_exception ''actor_blacklist_exception''"

abbreviation contract_whitelist_exception :: exception where
  "contract_whitelist_exception \<equiv> chain_exception ''contract_whitelist_exception''"

abbreviation contract_blacklist_exception :: exception where
  "contract_blacklist_exception \<equiv> chain_exception ''contract_blacklist_exception''"

abbreviation action_blacklist_exception :: exception where
  "action_blacklist_exception \<equiv> chain_exception ''action_blacklist_exception''"

abbreviation key_blacklist_exception :: exception where
  "key_blacklist_exception \<equiv> chain_exception ''key_blacklist_exception''"

abbreviation expired_tx_exception :: exception where
  "expired_tx_exception \<equiv> chain_exception ''expired_tx_exception''"

abbreviation tx_exp_too_far_exception :: exception where
  "tx_exp_too_far_exception \<equiv> chain_exception ''tx_exp_too_far_exception''"

abbreviation invalid_ref_block_exception :: exception where
  "invalid_ref_block_exception \<equiv> chain_exception ''invalid_ref_block_exception''"

abbreviation subjective_block_production_exception :: exception where
  "subjective_block_production_exception \<equiv> chain_exception ''subjective_block_production_exception''"

abbreviation invalid_table_payer :: exception where
  "invalid_table_payer \<equiv> chain_exception ''invalid_table_payer''"

abbreviation table_not_in_cache :: exception where
  "table_not_in_cache \<equiv> chain_exception ''table_not_in_cache''"

abbreviation invalid_table_iterator :: exception where
  "invalid_table_iterator \<equiv> chain_exception ''invalid_table_iterator''"

abbreviation table_operation_not_permitted :: exception where
  "table_operation_not_permitted \<equiv> chain_exception ''table_operation_not_permitted''"

abbreviation table_access_violation :: exception where
  "table_access_violation \<equiv> chain_exception ''table_access_violation''"

abbreviation cfa_inside_generated_tx :: exception where
  "cfa_inside_generated_tx \<equiv> chain_exception ''cfa_inside_generated_tx''"

abbreviation deferred_tx_duplicate :: exception where
  "deferred_tx_duplicate \<equiv> chain_exception ''deferred_tx_duplicate''"

abbreviation block_net_usage_exceeded :: exception where
  "block_net_usage_exceeded \<equiv> chain_exception ''block_net_usage_exceeded''"

abbreviation block_cpu_usage_exceeded :: exception where
  "block_cpu_usage_exceeded \<equiv> chain_exception ''block_cpu_usage_exceeded''"

abbreviation greylist_net_usage_exceeded :: exception where
  "greylist_net_usage_exceeded \<equiv> chain_exception ''greylist_net_usage_exceeded''"

abbreviation greylist_cpu_usage_exceeded :: exception where
  "greylist_cpu_usage_exceeded \<equiv> chain_exception ''greylist_cpu_usage_exceeded''"

abbreviation deadline_exception :: exception where
  "deadline_exception \<equiv> chain_exception ''deadline_exception''"

abbreviation leeway_deadline_exception :: exception where
  "leeway_deadline_exception \<equiv> chain_exception ''leeway_deadline_exception''"

abbreviation tx_duplicate :: exception where
  "tx_duplicate \<equiv> chain_exception ''tx_duplicate''"

abbreviation tx_no_auths :: exception where
  "tx_no_auths \<equiv> chain_exception ''tx_no_auths''"

abbreviation unsupported_feature :: exception where
  "unsupported_feature \<equiv> chain_exception ''unsupported_feature''"

abbreviation fork_database_exception :: exception where
  "fork_database_exception \<equiv> chain_exception ''fork_database_exception''"

abbreviation fork_db_block_not_found :: exception where
  "fork_db_block_not_found \<equiv> chain_exception ''fork_db_block_not_found''"

abbreviation unlinkable_block_exception :: exception where
  "unlinkable_block_exception \<equiv> chain_exception ''unlinkable_block_exception''"

abbreviation block_validate_exception :: exception where
  "block_validate_exception \<equiv> chain_exception ''block_validate_exception''"

abbreviation producer_schedule_exception :: exception where
  "producer_schedule_exception \<equiv> chain_exception ''producer_schedule_exception''"

abbreviation producer_not_in_schedule :: exception where
  "producer_not_in_schedule \<equiv> chain_exception ''producer_not_in_schedule''"

abbreviation fork_detected :: exception where
  "fork_detected \<equiv> chain_exception ''fork_detected''"

abbreviation action_not_found_exception :: exception where
  "action_not_found_exception \<equiv> chain_exception ''action_not_found_exception''"

abbreviation action_type_exception :: exception where
  "action_type_exception \<equiv> chain_exception ''action_type_exception''"

abbreviation name_type_exception :: exception where
  "name_type_exception \<equiv> chain_exception ''name_type_exception''"

abbreviation symbol_type_exception :: exception where
  "symbol_type_exception \<equiv> chain_exception ''symbol_type_exception''"

abbreviation asset_type_exception :: exception where
  "asset_type_exception \<equiv> chain_exception ''asset_type_exception''"

abbreviation wrong_producer :: exception where
  "wrong_producer \<equiv> chain_exception ''wrong_producer''"

abbreviation wrong_signing_key :: exception where
  "wrong_signing_key \<equiv> chain_exception ''wrong_signing_key''"

abbreviation producer_double_confirm :: exception where
  "producer_double_confirm \<equiv> chain_exception ''producer_double_confirm''"

abbreviation block_log_exception :: exception where
  "block_log_exception \<equiv> chain_exception ''block_log_exception''"

abbreviation block_log_unsupported_version :: exception where
  "block_log_unsupported_version \<equiv> chain_exception ''block_log_unsupported_version''"

abbreviation block_log_append_fail :: exception where
  "block_log_append_fail \<equiv> chain_exception ''block_log_append_fail''"

abbreviation block_log_not_found :: exception where
  "block_log_not_found \<equiv> chain_exception ''block_log_not_found''"

abbreviation packed_transaction_type_exception :: exception where
  "packed_transaction_type_exception \<equiv> chain_exception ''packed_transaction_type_exception''"

abbreviation unknown_transaction_compression :: exception where
  "unknown_transaction_compression \<equiv> chain_exception ''unknown_transaction_compression''"

abbreviation tx_decompression_error :: exception where
  "tx_decompression_error \<equiv> chain_exception ''tx_decompression_error''"

abbreviation too_many_tx_at_once :: exception where
  "too_many_tx_at_once \<equiv> chain_exception ''too_many_tx_at_once''"

abbreviation wasm_execution_error :: exception where
  "wasm_execution_error \<equiv> chain_exception ''wasm_execution_error''"

abbreviation wasm_serialization_error :: exception where
  "wasm_serialization_error \<equiv> chain_exception ''wasm_serialization_error''"

abbreviation abi_exception :: exception where
  "abi_exception \<equiv> chain_exception ''abi_exception''"

abbreviation abi_recursion_depth_exception :: exception where
  "abi_recursion_depth_exception \<equiv> chain_exception ''abi_recursion_depth_exception''"

abbreviation abi_circular_def_exception :: exception where
  "abi_circular_def_exception \<equiv> chain_exception ''abi_circular_def_exception''"

abbreviation duplicate_abi_type_def_exception :: exception where
  "duplicate_abi_type_def_exception \<equiv> chain_exception ''duplicate_abi_type_def_exception''"

abbreviation duplicate_abi_struct_def_exception :: exception where
  "duplicate_abi_struct_def_exception \<equiv> chain_exception ''duplicate_abi_struct_def_exception''"

abbreviation duplicate_abi_action_def_exception :: exception where
  "duplicate_abi_action_def_exception \<equiv> chain_exception ''duplicate_abi_action_def_exception''"

abbreviation duplicate_abi_table_def_exception :: exception where
  "duplicate_abi_table_def_exception \<equiv> chain_exception ''duplicate_abi_table_def_exception''"

abbreviation duplicate_abi_err_msg_def_exception :: exception where
  "duplicate_abi_err_msg_def_exception \<equiv> chain_exception ''duplicate_abi_err_msg_def_exception''"

abbreviation duplicate_abi_variant_def_exception :: exception where
  "duplicate_abi_variant_def_exception \<equiv> chain_exception ''duplicate_abi_variant_def_exception''"

abbreviation invalid_type_inside_abi :: exception where
  "invalid_type_inside_abi \<equiv> chain_exception ''invalid_type_inside_abi''"

abbreviation unsupported_abi_version_exception :: exception where
  "unsupported_abi_version_exception \<equiv> chain_exception ''unsupported_abi_version_exception''"

abbreviation unknown_block_exception :: exception where
  "unknown_block_exception \<equiv> chain_exception ''unknown_block_exception''"

abbreviation unaccessible_api :: exception where
  "unaccessible_api \<equiv> chain_exception ''unaccessible_api''"

abbreviation db_api_exception :: exception where
  "db_api_exception \<equiv> chain_exception ''db_api_exception''"

abbreviation arithmetic_exception :: exception where
  "arithmetic_exception \<equiv> chain_exception ''arithmetic_exception''"

abbreviation crypto_api_exception :: exception where
  "crypto_api_exception \<equiv> chain_exception ''crypto_api_exception''"

abbreviation invalid_ricardian_clause_exception :: exception where
  "invalid_ricardian_clause_exception \<equiv> chain_exception ''invalid_ricardian_clause_exception''"

type_synonym 'a result = "exception + 'a"

definition ebind :: "'e + 'a \<Rightarrow> ('a \<Rightarrow> 'e + 'b) \<Rightarrow> 'e + 'b" where
  "ebind m f = (case m of Inl e \<Rightarrow> Inl e | Inr x \<Rightarrow> f x)"

text \<open>The macro \<^verbatim>\<open>SNAX_ASSERT\<close>: throw unless the condition holds, else go on.\<close>

definition SNAX_ASSERT :: "bool \<Rightarrow> 'e \<Rightarrow> 'e + 'a \<Rightarrow> 'e + 'a" where
  "SNAX_ASSERT c e k = (if c then k else Inl e)"

text \<open>A loop that runs a throwing body over a list, left to right.\<close>

fun efold :: "('s \<Rightarrow> 'a \<Rightarrow> 'e + 's) \<Rightarrow> 's \<Rightarrow> 'a list \<Rightarrow> 'e + 's" where
  "efold f s [] = Inr s"
| "efold f s (x # xs) = ebind (f s x) (\<lambda>s'. efold f s' xs)"

lemma ebind_Inl [simp]: "ebind (Inl e) f = Inl e"
  by (simp add: ebind_def)

lemma ebind_Inr [simp]: "ebind (Inr x) f = f x"
  by (simp add: ebind_def)

lemma ebind_eq_Inr_iff [simp]: "ebind m f = Inr y \<longleftrightarrow> (\<exists>x. m = Inr x \<and> f x = Inr y)"
  by (cases m) auto

lemma ebind_eq_Inl_iff: "ebind m f = Inl e \<longleftrightarrow> m = Inl e \<or> (\<exists>x. m = Inr x \<and> f x = Inl e)"
  by (cases m) auto

lemma ebind_cong [fundef_cong]:
  "m = m' \<Longrightarrow> (\<And>x. m' = Inr x \<Longrightarrow> f x = g x) \<Longrightarrow> ebind m f = ebind m' g"
  by (cases m') auto

lemma SNAX_ASSERT_True [simp]: "SNAX_ASSERT True e k = k"
  by (simp add: SNAX_ASSERT_def)

lemma SNAX_ASSERT_False [simp]: "SNAX_ASSERT False e k = Inl e"
  by (simp add: SNAX_ASSERT_def)

lemma SNAX_ASSERT_eq_Inr_iff [simp]: "SNAX_ASSERT c e k = Inr y \<longleftrightarrow> c \<and> k = Inr y"
  by (simp add: SNAX_ASSERT_def)

lemma SNAX_ASSERT_eq_Inl_iff: "SNAX_ASSERT c e k = Inl e' \<longleftrightarrow> (\<not> c \<and> e' = e) \<or> (c \<and> k = Inl e')"
  by (auto simp: SNAX_ASSERT_def)

lemma SNAX_ASSERT_cong [fundef_cong]:
  "c = c' \<Longrightarrow> e = e' \<Longrightarrow> (c' \<Longrightarrow> k = k') \<Longrightarrow> SNAX_ASSERT c e k = SNAX_ASSERT c' e' k'"
  by (simp add: SNAX_ASSERT_def)

lemma efold_invariant:
  assumes "efold f s xs = Inr s'" "P s"
    and "\<And>s x s'. P s \<Longrightarrow> x \<in> set xs \<Longrightarrow> f s x = Inr s' \<Longrightarrow> P s'"
  shows "P s'"
  using assms
proof (induction xs arbitrary: s)
  case (Cons x xs)
  from Cons.prems(1) obtain t where t: "f s x = Inr t" "efold f t xs = Inr s'" by auto
  have "P t" by (rule Cons.prems(3) [OF Cons.prems(2) _ t(1)]) simp
  then show ?case
  proof (rule Cons.IH [OF t(2)])
    fix u y u' assume "P u" "y \<in> set xs" "f u y = Inr u'"
    then show "P u'" by (intro Cons.prems(3) [of u y u']) simp_all
  qed
qed simp

lemma efold_each:
  assumes "efold f s xs = Inr s'" "P s"
    and step: "\<And>s x s'. P s \<Longrightarrow> x \<in> set xs \<Longrightarrow> f s x = Inr s' \<Longrightarrow> P s' \<and> Q x s'"
    and keep: "\<And>s x s' y. P s \<Longrightarrow> Q y s \<Longrightarrow> x \<in> set xs \<Longrightarrow> f s x = Inr s' \<Longrightarrow> Q y s'"
  shows "\<forall>x\<in>set xs. Q x s'"
  using assms
proof (induction xs arbitrary: s)
  case Nil
  show ?case by simp
next
  case (Cons x xs)
  from Cons.prems(1) obtain t where t: "f s x = Inr t" "efold f t xs = Inr s'" by auto
  have first: "P t \<and> Q x t" by (rule Cons.prems(3) [OF Cons.prems(2) _ t(1)]) simp
  have "P s' \<and> Q x s'"
  proof (rule efold_invariant [where P = "\<lambda>u. P u \<and> Q x u", OF t(2) first])
    fix u y u' assume "P u \<and> Q x u" "y \<in> set xs" "f u y = Inr u'"
    then show "P u' \<and> Q x u'" using Cons.prems(3) [of u y u'] Cons.prems(4) [of u x y u'] by simp
  qed
  moreover have "\<forall>y\<in>set xs. Q y s'"
  proof (rule Cons.IH [OF t(2) conjunct1 [OF first]])
    fix u y u' assume "P u" "y \<in> set xs" "f u y = Inr u'"
    then show "P u' \<and> Q y u'" using Cons.prems(3) [of u y u'] by simp
  next
    fix u y u' z assume "P u" "Q z u" "y \<in> set xs" "f u y = Inr u'"
    then show "Q z u'" using Cons.prems(4) [of u z y u'] by simp
  qed
  ultimately show ?case by simp
qed

lemma efold_append:
  "efold f s (xs @ ys) = ebind (efold f s xs) (\<lambda>s'. efold f s' ys)"
  by (induction xs arbitrary: s) (auto simp: ebind_def split: sum.split)

section \<open>Rethrown exceptions\<close>

text \<open>The rethrow macros turn every other exception of the standard library into one of fc.\<close>

abbreviation std_exception_wrapper :: exception where
  "std_exception_wrapper \<equiv> chain_exception ''std_exception_wrapper''"

definition is_fc_exception :: "exception \<Rightarrow> bool" where
  "is_fc_exception e \<longleftrightarrow> e \<noteq> unknown_key \<and> e \<noteq> uniqueness_violation"

definition fc_rethrow :: "'a result \<Rightarrow> 'a result" where
  "fc_rethrow r = (case r of Inl e \<Rightarrow> if is_fc_exception e then Inl e else Inl std_exception_wrapper | Inr x \<Rightarrow> Inr x)"

lemma fc_rethrow_simps [simp]:
  "fc_rethrow (Inr x) = Inr x" "fc_rethrow r = Inr x \<longleftrightarrow> r = Inr x"
  "fc_rethrow (Inl (chain_exception n)) = Inl (chain_exception n)"
  by (auto simp: fc_rethrow_def is_fc_exception_def split: sum.splits)

section \<open>Computations that may not end\<close>

text \<open>A loop that may run forever yields an option, \<^term>\<open>None\<close> when it does not end; what follows it
  goes on with its value.\<close>

definition obind :: "('e + 'a) option \<Rightarrow> ('a \<Rightarrow> ('e + 'b) option) \<Rightarrow> ('e + 'b) option" where
  "obind m f = (case m of None \<Rightarrow> None | Some (Inl e) \<Rightarrow> Some (Inl e) | Some (Inr x) \<Rightarrow> f x)"

fun ofold :: "('s \<Rightarrow> 'a \<Rightarrow> ('e + 's) option) \<Rightarrow> 's \<Rightarrow> 'a list \<Rightarrow> ('e + 's) option" where
  "ofold f s [] = Some (Inr s)"
| "ofold f s (x # xs) = obind (f s x) (\<lambda>s'. ofold f s' xs)"

lemma obind_simps [simp]:
  "obind None f = None" "obind (Some (Inl e)) f = Some (Inl e)" "obind (Some (Inr x)) f = f x"
  by (simp_all add: obind_def)

lemma obind_eq_Inr_iff [simp]: "obind m f = Some (Inr y) \<longleftrightarrow> (\<exists>x. m = Some (Inr x) \<and> f x = Some (Inr y))"
  by (auto simp: obind_def split: option.splits sum.splits)

lemma obind_cong [fundef_cong]:
  "m = m' \<Longrightarrow> (\<And>x. m' = Some (Inr x) \<Longrightarrow> f x = g x) \<Longrightarrow> obind m f = obind m' g"
  by (auto simp: obind_def split: option.splits sum.splits)

lemma ofold_cong [fundef_cong]:
  "xs = ys \<Longrightarrow> s = t \<Longrightarrow> (\<And>u x. x \<in> set ys \<Longrightarrow> f u x = g u x) \<Longrightarrow> ofold f s xs = ofold g t ys"
proof (induction ys arbitrary: xs s t)
  case (Cons y ys)
  have "f t y = g t y" by (rule Cons.prems(3)) simp
  moreover have "ofold f u ys = ofold g u ys" for u by (rule Cons.IH) (simp_all add: Cons.prems(3))
  ultimately show ?case using Cons.prems(1,2) by (auto intro: obind_cong)
qed simp

lemma ofold_invariant:
  assumes "ofold f s xs = Some (Inr s')" "P s"
    and "\<And>s x s'. P s \<Longrightarrow> x \<in> set xs \<Longrightarrow> f s x = Some (Inr s') \<Longrightarrow> P s'"
  shows "P s'"
  using assms
proof (induction xs arbitrary: s)
  case (Cons x xs)
  from Cons.prems(1) obtain t where t: "f s x = Some (Inr t)" "ofold f t xs = Some (Inr s')" by auto
  have "P t" by (rule Cons.prems(3) [OF Cons.prems(2) _ t(1)]) simp
  then show ?case
  proof (rule Cons.IH [OF t(2)])
    fix u y u' assume "P u" "y \<in> set xs" "f u y = Some (Inr u')"
    then show "P u'" by (intro Cons.prems(3) [of u y u']) simp_all
  qed
qed simp

section \<open>Closures\<close>

lemma rtranclp_tranclp_iff: "r\<^sup>*\<^sup>* a b \<longleftrightarrow> a = b \<or> r\<^sup>+\<^sup>+ a b"
  by (metis rtranclpD rtranclp.rtrancl_refl tranclp_into_rtranclp)

lemma tranclp_unfold_left: "r\<^sup>+\<^sup>+ a b \<longleftrightarrow> (\<exists>c. r a c \<and> r\<^sup>*\<^sup>* c b)"
  by (metis tranclpD rtranclp_into_tranclp2)

section \<open>Words\<close>

lemma unat_add_no_wrap:
  fixes a b :: "'a::len word"
  assumes "unat a + unat b < 2 ^ LENGTH('a)"
  shows "unat (a + b) = unat a + unat b"
  using assms by (simp add: unat_word_ariths)

lemma unat_bound: "unat (w :: 'a::len word) < 2 ^ LENGTH('a)"
  by (rule unsigned_less)

lemma unat_ucast: "unat (ucast (w::'a::len word) :: 'b::len word) = unat w mod 2 ^ LENGTH('b)"
  by transfer (simp add: take_bit_eq_mod nat_mod_distrib nat_power_eq)

lemma unat_ucast_up [simp]:
  "LENGTH('a) \<le> LENGTH('b) \<Longrightarrow> unat (ucast (w::'a::len word) :: 'b::len word) = unat w"
  using unsigned_less [of w] order_less_le_trans [of "unat w" "2 ^ LENGTH('a)" "2 ^ LENGTH('b)"]
  by (simp add: unat_ucast power_increasing)

lemma unat_max_word: "unat (- 1 :: 'a::len word) = 2 ^ LENGTH('a) - 1"
  by (simp add: unsigned_minus_1_eq_mask mask_eq_exp_minus_1)

lemma unat_max_word_minus: "unat (- 1 - w :: 'a::len word) = 2 ^ LENGTH('a) - 1 - unat w"
  by (simp add: unat_sub unat_max_word)

lemma le_max_word_minus_iff:
  "w \<le> - 1 - v \<longleftrightarrow> unat v + unat w < 2 ^ LENGTH('a)" for v w :: "'a::len word"
proof -
  have "unat v < 2 ^ LENGTH('a)" by (rule unsigned_less)
  then show ?thesis unfolding word_le_nat_alt unat_max_word_minus by linarith
qed

lemma unat_word_of_int:
  "0 \<le> k \<Longrightarrow> k < 2 ^ LENGTH('a) \<Longrightarrow> unat (word_of_int k :: 'a::len word) = nat k"
  by (simp add: unat_eq_nat_uint uint_word_of_int mod_pos_pos_trivial)

lemma find_Some_mem: "List.find P xs = Some x \<Longrightarrow> x \<in> set xs \<and> P x"
  by (induction xs) (auto split: if_splits)

lemma wrap_i64_id: "in_i64 x \<Longrightarrow> wrap_i64 x = x"
  by (simp add: wrap_i64_def in_i64_def mod_pos_pos_trivial)

lemma wrap_i64_in: "in_i64 (wrap_i64 x)"
  by (simp add: wrap_i64_def in_i64_def)

end
