(* ===== verification/Object_Index.thy ===== *)
theory Object_Index
  imports Prelude
begin

text \<open>
  The tables the components keep their objects in: a unique ordered index, from keys to objects.
  The source reaches its tables through \<^verbatim>\<open>chainbase\<close> containers (host side) and through
  \<^verbatim>\<open>snax::multi_index\<close> (contracts); what the code relies on is only that a unique ordered
  index is a finite map that is walked in key order, that \<^verbatim>\<open>create\<close> throws on a key that
  is there and that \<^verbatim>\<open>get\<close> throws on a key that is not.  The locale
  \<^verbatim>\<open>keyed_store\<close> is that contract; the interpretation \<^verbatim>\<open>index\<close> provides
  it by lists of rows in ascending key order.
\<close>

section \<open>The contract of a unique index\<close>

locale keyed_store =
  fixes ok :: "'t \<Rightarrow> bool"
    and find :: "'t \<Rightarrow> 'k \<Rightarrow> 'v option"
    and put :: "'k \<Rightarrow> 'v \<Rightarrow> 't \<Rightarrow> 't"
    and remove :: "'k \<Rightarrow> 't \<Rightarrow> 't"
    and rows :: "'t \<Rightarrow> ('k \<times> 'v) list"
  assumes ok_put: "ok t \<Longrightarrow> ok (put k v t)"
    and ok_remove: "ok t \<Longrightarrow> ok (remove k t)"
    and find_put: "ok t \<Longrightarrow> find (put k v t) = (find t)(k \<mapsto> v)"
    and find_remove: "ok t \<Longrightarrow> find (remove k t) = (find t)(k := None)"
    and rows_distinct: "ok t \<Longrightarrow> distinct (map fst (rows t))"
    and rows_find: "ok t \<Longrightarrow> map_of (rows t) = find t"
begin

definition total :: "('k \<Rightarrow> 'v \<Rightarrow> int) \<Rightarrow> 't \<Rightarrow> int" where
  "total f t = sum_list (map (\<lambda>(k, v). f k v) (rows t))"

lemma finite_find: "ok t \<Longrightarrow> finite (dom (find t))"
  by (metis finite_dom_map_of rows_find)

lemma total_eq_sum:
  assumes "ok t"
  shows "total f t = (\<Sum>k\<in>dom (find t). f k (the (find t k)))"
proof -
  have "total f t = (\<Sum>(k, v)\<in>set (rows t). f k v)"
    unfolding total_def using rows_distinct [OF assms]
    by (simp add: sum_list_distinct_conv_sum_set distinct_map)
  also have "\<dots> = (\<Sum>k\<in>fst ` set (rows t). f k (the (map_of (rows t) k)))"
    using rows_distinct [OF assms]
    by (subst sum.reindex) (auto simp: distinct_map intro!: sum.cong)
  finally show ?thesis
    using assms by (simp add: rows_find [symmetric] dom_map_of_conv_image_fst)
qed

lemma total_put:
  assumes "ok t"
  shows "total f (put k v t) =
    total f t - (case find t k of None \<Rightarrow> 0 | Some v0 \<Rightarrow> f k v0) + f k v"
proof -
  let ?D = "dom (find t) - {k}"
  have fin: "finite ?D" using finite_find [OF assms] by simp
  have eq: "(\<Sum>x\<in>?D. f x (the (((find t)(k \<mapsto> v)) x))) = (\<Sum>x\<in>?D. f x (the (find t x)))"
    by (rule sum.cong) auto
  have "total f (put k v t) = f k v + (\<Sum>x\<in>?D. f x (the (find t x)))"
    using fin eq
    by (simp add: total_eq_sum ok_put assms find_put sum.insert_remove finite_find)
  moreover have "total f t =
      (case find t k of None \<Rightarrow> 0 | Some v0 \<Rightarrow> f k v0) + (\<Sum>x\<in>?D. f x (the (find t x)))"
  proof (cases "find t k")
    case None
    then have "?D = dom (find t)" by auto
    with None show ?thesis by (simp add: total_eq_sum assms)
  next
    case (Some v0)
    then have "k \<in> dom (find t)" by auto
    with Some show ?thesis
      by (simp add: total_eq_sum assms sum.remove [OF finite_find [OF assms]])
  qed
  ultimately show ?thesis by simp
qed

lemma total_remove:
  assumes "ok t"
  shows "total f (remove k t) = total f t - (case find t k of None \<Rightarrow> 0 | Some v0 \<Rightarrow> f k v0)"
proof -
  have "total f (remove k t) = (\<Sum>x\<in>dom (find t) - {k}. f x (the (find t x)))"
    by (simp add: total_eq_sum ok_remove assms find_remove)
  moreover have "total f t = (\<Sum>x\<in>dom (find t) - {k}. f x (the (find t x)))
      + (case find t k of None \<Rightarrow> 0 | Some v0 \<Rightarrow> f k v0)"
    by (cases "find t k")
      (auto simp: total_eq_sum assms domIff sum.remove [OF finite_find [OF assms], of k])
  ultimately show ?thesis by simp
qed

lemma total_cong:
  assumes "ok t" "ok t'" "find t = find t'"
  shows "total f t = total f t'"
  using assms by (simp add: total_eq_sum)

lemma total_nonneg:
  assumes "ok t" "\<And>k v. find t k = Some v \<Longrightarrow> 0 \<le> f k v"
  shows "0 \<le> total f t"
  using assms by (auto simp: total_eq_sum intro!: sum_nonneg)

lemma total_ge_row:
  assumes "ok t" "find t k = Some v" "\<And>k v. find t k = Some v \<Longrightarrow> 0 \<le> f k v"
  shows "f k v \<le> total f t"
proof -
  have "f k (the (find t k)) \<le> (\<Sum>x\<in>dom (find t). f x (the (find t x)))"
    by (rule member_le_sum) (use assms finite_find in auto)
  then show ?thesis using assms by (simp add: total_eq_sum)
qed

end

section \<open>Rows in key order\<close>

type_synonym ('k, 'v) index = "('k \<times> 'v) list"

definition idx_ok :: "('k::linorder, 'v) index \<Rightarrow> bool" where
  "idx_ok t \<longleftrightarrow> sorted_wrt (<) (map fst t)"

definition idx_find :: "('k, 'v) index \<Rightarrow> 'k \<Rightarrow> 'v option" where
  "idx_find t = map_of t"

fun idx_put :: "'k::linorder \<Rightarrow> 'v \<Rightarrow> ('k, 'v) index \<Rightarrow> ('k, 'v) index" where
  "idx_put k v [] = [(k, v)]"
| "idx_put k v ((k', v') # t) =
    (if k < k' then (k, v) # (k', v') # t
     else if k = k' then (k, v) # t
     else (k', v') # idx_put k v t)"

definition idx_remove :: "'k \<Rightarrow> ('k, 'v) index \<Rightarrow> ('k, 'v) index" where
  "idx_remove k t = filter (\<lambda>r. fst r \<noteq> k) t"

definition idx_rows :: "('k, 'v) index \<Rightarrow> ('k \<times> 'v) list" where
  "idx_rows t = t"

text \<open>The throwing operations of the containers, and the update of a row in place.\<close>

definition idx_create :: "'k::linorder \<Rightarrow> 'v \<Rightarrow> ('k, 'v) index \<Rightarrow> ('k, 'v) index result" where
  "idx_create k v t =
    (case idx_find t k of None \<Rightarrow> Inr (idx_put k v t) | Some _ \<Rightarrow> Inl uniqueness_violation)"

definition idx_get :: "('k, 'v) index \<Rightarrow> 'k \<Rightarrow> 'v result" where
  "idx_get t k = (case idx_find t k of None \<Rightarrow> Inl unknown_key | Some v \<Rightarrow> Inr v)"

definition idx_modify :: "'k::linorder \<Rightarrow> ('v \<Rightarrow> 'v) \<Rightarrow> ('k, 'v) index \<Rightarrow> ('k, 'v) index" where
  "idx_modify k f t = (case idx_find t k of None \<Rightarrow> t | Some v \<Rightarrow> idx_put k (f v) t)"

lemma idx_put_keys: "set (map fst (idx_put k v t)) = insert k (set (map fst t))"
  by (induction k v t rule: idx_put.induct) auto

lemma idx_ok_put: "idx_ok t \<Longrightarrow> idx_ok (idx_put k v t)"
proof (induction k v t rule: idx_put.induct)
  case (2 k v k' v' t)
  have "\<And>x. x \<in> fst ` set (idx_put k v t) \<Longrightarrow> x = k \<or> x \<in> fst ` set t"
    using idx_put_keys [of k v t] by auto
  with 2 show ?case by (fastforce simp: idx_ok_def)
qed (simp add: idx_ok_def)

lemma idx_find_put: "idx_ok t \<Longrightarrow> idx_find (idx_put k v t) = (idx_find t)(k \<mapsto> v)"
  by (induction k v t rule: idx_put.induct) (auto simp: idx_find_def idx_ok_def fun_eq_iff)

lemma idx_find_remove: "idx_find (idx_remove k t) = (idx_find t)(k := None)"
  by (induction t) (auto simp: idx_find_def idx_remove_def fun_eq_iff)

lemma idx_ok_remove: "idx_ok t \<Longrightarrow> idx_ok (idx_remove k t)"
  by (induction t) (auto simp: idx_ok_def idx_remove_def)

interpretation index: keyed_store idx_ok idx_find idx_put idx_remove idx_rows
proof (standard, goal_cases)
  case (5 t)
  then show ?case by (simp add: idx_ok_def idx_rows_def strict_sorted_iff)
next
  case (6 t)
  then show ?case by (simp add: idx_rows_def idx_find_def)
qed (simp_all add: idx_ok_put idx_ok_remove idx_find_put idx_find_remove)

lemmas idx_simps = idx_ok_put idx_ok_remove idx_find_put idx_find_remove

lemma idx_rows_find: "idx_ok t \<Longrightarrow> (k, v) \<in> set (idx_rows t) \<longleftrightarrow> idx_find t k = Some v"
  by (metis index.rows_distinct index.rows_find map_of_eq_Some_iff)

lemma idx_ok_Nil [simp]: "idx_ok []"
  by (simp add: idx_ok_def)

lemma idx_find_Nil [simp]: "idx_find [] k = None"
  by (simp add: idx_find_def)

lemma idx_total_Nil [simp]: "index.total f [] = 0"
  by (simp add: index.total_def idx_rows_def)

lemma idx_create_Inr_iff:
  "idx_create k v t = Inr t' \<longleftrightarrow> idx_find t k = None \<and> t' = idx_put k v t"
  by (auto simp: idx_create_def split: option.split)

lemma idx_get_Inr_iff [simp]: "idx_get t k = Inr v \<longleftrightarrow> idx_find t k = Some v"
  by (simp add: idx_get_def split: option.split)

lemma idx_ok_modify: "idx_ok t \<Longrightarrow> idx_ok (idx_modify k f t)"
  by (simp add: idx_modify_def idx_ok_put split: option.split)

lemma idx_find_modify:
  "idx_ok t \<Longrightarrow> idx_find (idx_modify k f t) = (idx_find t)(k := map_option f (idx_find t k))"
  by (auto simp: idx_modify_def idx_find_put fun_eq_iff split: option.split)

lemma idx_total_modify:
  assumes "idx_ok t" "idx_find t k = Some v"
  shows "index.total g (idx_modify k f t) = index.total g t - g k v + g k (f v)"
  using assms by (simp add: idx_modify_def index.total_put)

end
