(* ===== verification/Resource_Limits.thy ===== *)
theory Resource_Limits
  imports Object_Index
begin

text \<open>
  Rate limiting of CPU, network and RAM: \<^verbatim>\<open>libraries/chain/resource_limits.cpp\<close> with
  \<^verbatim>\<open>resource_limits.hpp\<close> and \<^verbatim>\<open>resource_limits_private.hpp\<close>.  The usage
  accumulators and the elastic block limits are the arithmetic core; the manager's operations act on
  the record \<^verbatim>\<open>rl_db\<close>, which holds the four object tables of the component.

  The cube root that sets an account's minimum allowance is computed in \<^verbatim>\<open>double\<close> by the C
  mathematics library, whose last digit is not fixed by any standard.  It is the parameter
  \<^verbatim>\<open>cbrt_mul\<close>: \<open>cbrt_mul w k\<close> stands for
  \<^verbatim>\<open>static_cast<uint128_t>(cbrt(static_cast<double>(w)) * k)\<close>.
\<close>

section \<open>Arithmetic\<close>

record ratio =
  numerator :: u64
  denominator :: u64

definition make_ratio :: "u64 \<Rightarrow> u64 \<Rightarrow> ratio" where
  "make_ratio n d = \<lparr>numerator = n, denominator = d\<rparr>"

definition ratio_times :: "u64 \<Rightarrow> ratio \<Rightarrow> u64 result" where
  "ratio_times value r =
    SNAX_ASSERT (numerator r = 0 \<or> - 1 div numerator r \<ge> value) rate_limiting_state_inconsistent
      (if denominator r = 0 then Inl arithmetic_fault
       else Inr ((value * numerator r) div denominator r))"

definition integer_divide_ceil :: "'a::len word \<Rightarrow> 'a word \<Rightarrow> 'a word" where
  "integer_divide_ceil num den = num div den + (if num mod den > 0 then 1 else 0)"

text \<open>\<^verbatim>\<open>downgrade_cast\<close> at the types it is used at.\<close>

definition downgrade_u64 :: "u128 \<Rightarrow> u64 result" where
  "downgrade_u64 val =
    SNAX_ASSERT (val \<le> 0xFFFFFFFFFFFFFFFF) rate_limiting_state_inconsistent (Inr (ucast val))"

definition downgrade_i64 :: "u128 \<Rightarrow> int result" where
  "downgrade_i64 val =
    SNAX_ASSERT (val \<le> 0x7FFFFFFFFFFFFFFF) rate_limiting_state_inconsistent (Inr (uint val))"

definition downgrade_i64_signed :: "int \<Rightarrow> int result" where
  "downgrade_i64_signed val =
    SNAX_ASSERT (val \<ge> - (2 ^ 63) \<and> val \<le> 2 ^ 63 - 1) rate_limiting_state_inconsistent (Inr val)"

section \<open>Usage accumulators\<close>

definition rate_limiting_precision :: u64 where
  "rate_limiting_precision = 1000 * 1000"

definition max_raw_value :: u64 where
  "max_raw_value = - 1 div rate_limiting_precision"

record usage_accumulator =
  last_ordinal :: u32
  value_ex :: u64
  consumed :: u64

definition new_accumulator :: usage_accumulator where
  "new_accumulator = \<lparr>last_ordinal = 0, value_ex = 0, consumed = 0\<rparr>"

definition average :: "usage_accumulator \<Rightarrow> u64" where
  "average a = integer_divide_ceil (value_ex a) rate_limiting_precision"

text \<open>The step of \<^verbatim>\<open>add\<close> that moves the accumulator to a later ordinal.\<close>

definition advance :: "usage_accumulator \<Rightarrow> u32 \<Rightarrow> u32 \<Rightarrow> usage_accumulator result" where
  "advance a ordinal window_size =
    (if last_ordinal a \<noteq> ordinal then
       SNAX_ASSERT (ordinal > last_ordinal a) resource_limit_exception
         (ebind
           (if (ucast (last_ordinal a) :: u64) + ucast window_size > ucast ordinal then
              (let delta = ordinal - last_ordinal a;
                   decay = make_ratio (ucast window_size - ucast delta) (ucast window_size)
               in ratio_times (value_ex a) decay)
            else Inr 0)
           (\<lambda>v. let a' = a\<lparr>value_ex := v, last_ordinal := ordinal\<rparr>
                in Inr (a'\<lparr>consumed := average a'\<rparr>)))
     else Inr a)"

definition add :: "usage_accumulator \<Rightarrow> u64 \<Rightarrow> u32 \<Rightarrow> u32 \<Rightarrow> usage_accumulator result" where
  "add a units ordinal window_size =
    SNAX_ASSERT (units \<le> max_raw_value) rate_limiting_state_inconsistent (
    SNAX_ASSERT (- 1 - consumed a \<ge> units) rate_limiting_state_inconsistent (
    if window_size = 0 then Inl arithmetic_fault else
    ebind (downgrade_u64 (integer_divide_ceil
             ((ucast units :: u128) * ucast rate_limiting_precision) (ucast window_size)))
      (\<lambda>value_ex_contrib.
    SNAX_ASSERT (- 1 - value_ex a \<ge> value_ex_contrib) rate_limiting_state_inconsistent (
    ebind (advance a ordinal window_size) (\<lambda>a'.
    Inr (a'\<lparr>consumed := consumed a' + units, value_ex := value_ex a' + value_ex_contrib\<rparr>))))))"

section \<open>Elastic limits\<close>

record elastic_limit_parameters =
  target :: u64
  elp_max :: u64
  periods :: u32
  max_multiplier :: u32
  contract_rate :: ratio
  expand_rate :: ratio

definition update_elastic_limit ::
  "u64 \<Rightarrow> u64 \<Rightarrow> elastic_limit_parameters \<Rightarrow> u64 result" where
  "update_elastic_limit current_limit average_usage params =
    ebind (if average_usage > target params then ratio_times current_limit (contract_rate params)
           else ratio_times current_limit (expand_rate params))
      (\<lambda>result. Inr (min (max result (elp_max params))
                        (elp_max params * ucast (max_multiplier params))))"

definition elastic_validate :: "elastic_limit_parameters \<Rightarrow> unit result" where
  "elastic_validate p =
    SNAX_ASSERT (periods p > 0) resource_limit_exception (
    SNAX_ASSERT (denominator (contract_rate p) > 0) resource_limit_exception (
    SNAX_ASSERT (denominator (expand_rate p) > 0) resource_limit_exception (Inr ())))"

section \<open>Objects\<close>

record resource_limits_object =
  net_weight :: int
  cpu_weight :: int
  ram_bytes :: int

record resource_usage_object =
  net_usage :: usage_accumulator
  cpu_usage :: usage_accumulator
  ram_usage :: u64

record resource_limits_config_object =
  cpu_limit_parameters :: elastic_limit_parameters
  net_limit_parameters :: elastic_limit_parameters
  account_cpu_usage_average_window :: u32
  account_net_usage_average_window :: u32

record resource_limits_state_object =
  average_block_net_usage :: usage_accumulator
  average_block_cpu_usage :: usage_accumulator
  pending_net_usage :: u64
  pending_cpu_usage :: u64
  total_net_weight :: u64
  total_cpu_weight :: u64
  total_ram_bytes :: u64
  virtual_net_limit :: u64
  virtual_cpu_limit :: u64

text \<open>
  The tables: limits by (pending, owner), usage by owner, and the two singletons.  The owner and
  the pending flag of a limits object are its key.
\<close>

record rl_db =
  rl_limits :: "(bool \<times> account_name, resource_limits_object) index"
  rl_usage :: "(account_name, resource_usage_object) index"
  rl_config :: resource_limits_config_object
  rl_state :: resource_limits_state_object

record account_resource_limit =
  arl_used :: int
  arl_available :: int
  arl_max :: int

definition new_resource_limits :: resource_limits_object where
  "new_resource_limits = \<lparr>net_weight = - 1, cpu_weight = - 1, ram_bytes = - 1\<rparr>"

definition new_resource_usage :: resource_usage_object where
  "new_resource_usage =
    \<lparr>net_usage = new_accumulator, cpu_usage = new_accumulator, ram_usage = 0\<rparr>"

definition SNAX_PERCENT :: "u64 \<Rightarrow> u32 \<Rightarrow> u64" where
  "SNAX_PERCENT value percentage = (value * ucast percentage) div 1000000"

definition default_config :: resource_limits_config_object where
  "default_config = \<lparr>
    cpu_limit_parameters = \<lparr>target = SNAX_PERCENT 200000 100000, elp_max = 200000,
      periods = 60 * 1000 div 500, max_multiplier = 1000,
      contract_rate = make_ratio 99 100, expand_rate = make_ratio 1000 999\<rparr>,
    net_limit_parameters = \<lparr>target = SNAX_PERCENT (1024 * 1024) 100000, elp_max = 1024 * 1024,
      periods = 60 * 1000 div 500, max_multiplier = 1000,
      contract_rate = make_ratio 99 100, expand_rate = make_ratio 1000 999\<rparr>,
    account_cpu_usage_average_window = 24 * 60 * 60 * 1000 div 500,
    account_net_usage_average_window = 24 * 60 * 60 * 1000 div 500\<rparr>"

definition new_state :: resource_limits_state_object where
  "new_state = \<lparr>average_block_net_usage = new_accumulator,
    average_block_cpu_usage = new_accumulator,
    pending_net_usage = 0, pending_cpu_usage = 0,
    total_net_weight = 0, total_cpu_weight = 0, total_ram_bytes = 0,
    virtual_net_limit = 0, virtual_cpu_limit = 0\<rparr>"

definition update_virtual_cpu_limit ::
  "resource_limits_state_object \<Rightarrow> resource_limits_config_object \<Rightarrow>
   resource_limits_state_object result" where
  "update_virtual_cpu_limit st cfg =
    ebind (update_elastic_limit (virtual_cpu_limit st) (average (average_block_cpu_usage st))
             (cpu_limit_parameters cfg))
      (\<lambda>v. Inr (st\<lparr>virtual_cpu_limit := v\<rparr>))"

definition update_virtual_net_limit ::
  "resource_limits_state_object \<Rightarrow> resource_limits_config_object \<Rightarrow>
   resource_limits_state_object result" where
  "update_virtual_net_limit st cfg =
    ebind (update_elastic_limit (virtual_net_limit st) (average (average_block_net_usage st))
             (net_limit_parameters cfg))
      (\<lambda>v. Inr (st\<lparr>virtual_net_limit := v\<rparr>))"

section \<open>Operations of the manager\<close>

definition initialize_database :: rl_db where
  "initialize_database = \<lparr>rl_limits = [], rl_usage = [], rl_config = default_config,
    rl_state = new_state\<lparr>
      virtual_cpu_limit := elp_max (cpu_limit_parameters default_config),
      virtual_net_limit := elp_max (net_limit_parameters default_config)\<rparr>\<rparr>"

definition initialize_account :: "rl_db \<Rightarrow> account_name \<Rightarrow> rl_db result" where
  "initialize_account db account =
    ebind (idx_create (False, account) new_resource_limits (rl_limits db)) (\<lambda>limits.
    ebind (idx_create account new_resource_usage (rl_usage db)) (\<lambda>usage.
    Inr (db\<lparr>rl_limits := limits, rl_usage := usage\<rparr>)))"

definition set_block_parameters ::
  "rl_db \<Rightarrow> elastic_limit_parameters \<Rightarrow> elastic_limit_parameters \<Rightarrow> rl_db result" where
  "set_block_parameters db cpu net =
    ebind (elastic_validate cpu) (\<lambda>_.
    ebind (elastic_validate net) (\<lambda>_.
    Inr (db\<lparr>rl_config := (rl_config db)\<lparr>cpu_limit_parameters := cpu,
                                       net_limit_parameters := net\<rparr>\<rparr>)))"

text \<open>The closure that adds CPU and network units to the usage of one account.\<close>

definition add_usage ::
  "resource_usage_object \<Rightarrow> resource_limits_config_object \<Rightarrow> u64 \<Rightarrow> u64 \<Rightarrow> u32 \<Rightarrow>
   resource_usage_object result" where
  "add_usage bu cfg cpu net time_slot =
    ebind (add (net_usage bu) net time_slot (account_net_usage_average_window cfg)) (\<lambda>nu.
    ebind (add (cpu_usage bu) cpu time_slot (account_cpu_usage_average_window cfg)) (\<lambda>cu.
    Inr (bu\<lparr>net_usage := nu, cpu_usage := cu\<rparr>)))"

definition update_account_usage :: "rl_db \<Rightarrow> account_name list \<Rightarrow> u32 \<Rightarrow> rl_db result" where
  "update_account_usage db accounts time_slot =
    efold (\<lambda>db a.
      ebind (idx_get (rl_usage db) a) (\<lambda>usage.
      ebind (add_usage usage (rl_config db) 0 0 time_slot) (\<lambda>usage'.
      Inr (db\<lparr>rl_usage := idx_put a usage' (rl_usage db)\<rparr>)))) db accounts"

definition get_account_limits :: "rl_db \<Rightarrow> account_name \<Rightarrow> resource_limits_object result" where
  "get_account_limits db account =
    (case idx_find (rl_limits db) (True, account) of
       Some pending_buo \<Rightarrow> Inr pending_buo
     | None \<Rightarrow> idx_get (rl_limits db) (False, account))"

text \<open>The cap on the cube-root allowance, and the two checks of a billed account.\<close>

definition minimum_threshold :: "u128 \<Rightarrow> int \<Rightarrow> u128 result" where
  "minimum_threshold threshold cap =
    ebind (downgrade_i64 threshold) (\<lambda>t. Inr (if t > cap then word_of_int cap else threshold))"

definition max_use_in_window ::
  "u64 \<Rightarrow> u32 \<Rightarrow> int \<Rightarrow> u64 \<Rightarrow> u128 \<Rightarrow> u128" where
  "max_use_in_window limit window weight all_user_weight threshold =
    (let virtual_capacity_in_window = (ucast limit :: u128) * ucast window div 10;
         max_user_use_in_window =
           (virtual_capacity_in_window * word_of_int weight) div ucast all_user_weight
     in if max_user_use_in_window < threshold then threshold else max_user_use_in_window)"

definition check_cpu_window ::
  "(int \<Rightarrow> int \<Rightarrow> u128) \<Rightarrow> rl_db \<Rightarrow> int \<Rightarrow> resource_usage_object \<Rightarrow> unit result" where
  "check_cpu_window cbrt_mul db weight usage =
    (let st = rl_state db; window = account_cpu_usage_average_window (rl_config db) in
     if weight \<ge> 0 \<and> total_cpu_weight st > 0 then
       ebind (minimum_threshold (cbrt_mul weight 1440) 31000) (\<lambda>threshold.
       let cpu_used_in_window =
             (ucast (value_ex (cpu_usage usage)) :: u128) * ucast window
               div ucast rate_limiting_precision;
           max_user_use_in_window =
             max_use_in_window (virtual_cpu_limit st) window weight (total_cpu_weight st) threshold
       in if cpu_used_in_window \<le> max_user_use_in_window then Inr ()
          else ebind (downgrade_i64 cpu_used_in_window) (\<lambda>_.
               ebind (downgrade_i64 max_user_use_in_window) (\<lambda>_. Inl tx_cpu_usage_exceeded)))
     else Inr ())"

definition check_net_window ::
  "(int \<Rightarrow> int \<Rightarrow> u128) \<Rightarrow> rl_db \<Rightarrow> int \<Rightarrow> resource_usage_object \<Rightarrow> unit result" where
  "check_net_window cbrt_mul db weight usage =
    (let st = rl_state db; window = account_net_usage_average_window (rl_config db) in
     if weight \<ge> 0 \<and> total_net_weight st > 0 then
       ebind (minimum_threshold (cbrt_mul weight 75) 2500) (\<lambda>threshold.
       let net_used_in_window =
             (ucast (value_ex (net_usage usage)) :: u128) * ucast window
               div ucast rate_limiting_precision;
           max_user_use_in_window =
             max_use_in_window (virtual_net_limit st) window weight (total_net_weight st) threshold
       in SNAX_ASSERT (net_used_in_window \<le> max_user_use_in_window) tx_net_usage_exceeded (Inr ()))
     else Inr ())"

definition bill_account ::
  "(int \<Rightarrow> int \<Rightarrow> u128) \<Rightarrow> u64 \<Rightarrow> u64 \<Rightarrow> u32 \<Rightarrow> rl_db \<Rightarrow> account_name \<Rightarrow> rl_db result" where
  "bill_account cbrt_mul cpu net time_slot db a =
    ebind (idx_get (rl_usage db) a) (\<lambda>usage.
    ebind (get_account_limits db a) (\<lambda>limits.
    ebind (add_usage usage (rl_config db) cpu net time_slot) (\<lambda>usage'.
    ebind (check_cpu_window cbrt_mul db (cpu_weight limits) usage') (\<lambda>_.
    ebind (check_net_window cbrt_mul db (net_weight limits) usage') (\<lambda>_.
    Inr (db\<lparr>rl_usage := idx_put a usage' (rl_usage db)\<rparr>))))))"

definition add_transaction_usage ::
  "(int \<Rightarrow> int \<Rightarrow> u128) \<Rightarrow> rl_db \<Rightarrow> account_name list \<Rightarrow> u64 \<Rightarrow> u64 \<Rightarrow> u32 \<Rightarrow> rl_db result" where
  "add_transaction_usage cbrt_mul db accounts cpu net time_slot =
    ebind (efold (bill_account cbrt_mul cpu net time_slot) db accounts) (\<lambda>db.
    let st = (rl_state db)\<lparr>pending_cpu_usage := pending_cpu_usage (rl_state db) + cpu,
                           pending_net_usage := pending_net_usage (rl_state db) + net\<rparr>
    in SNAX_ASSERT (pending_cpu_usage st \<le> elp_max (cpu_limit_parameters (rl_config db)))
         block_resource_exhausted (
       SNAX_ASSERT (pending_net_usage st \<le> elp_max (net_limit_parameters (rl_config db)))
         block_resource_exhausted (Inr (db\<lparr>rl_state := st\<rparr>))))"

definition add_pending_ram_usage :: "rl_db \<Rightarrow> account_name \<Rightarrow> int \<Rightarrow> rl_db result" where
  "add_pending_ram_usage db account ram_delta =
    (if ram_delta = 0 then Inr db else
     ebind (idx_get (rl_usage db) account) (\<lambda>usage.
     SNAX_ASSERT (ram_delta \<le> 0 \<or> - 1 - ram_usage usage \<ge> word_of_int ram_delta)
       transaction_exception (
     SNAX_ASSERT (ram_delta \<ge> 0 \<or> ram_usage usage \<ge> word_of_int (- ram_delta))
       transaction_exception (
     Inr (db\<lparr>rl_usage := idx_modify account
            (\<lambda>u. u\<lparr>ram_usage := ram_usage u + word_of_int ram_delta\<rparr>) (rl_usage db)\<rparr>)))))"

definition verify_account_ram_usage :: "rl_db \<Rightarrow> account_name \<Rightarrow> unit result" where
  "verify_account_ram_usage db account =
    ebind (get_account_limits db account) (\<lambda>limits.
    ebind (idx_get (rl_usage db) account) (\<lambda>usage.
    if ram_bytes limits \<ge> 0 then
      SNAX_ASSERT (ram_usage usage \<le> word_of_int (ram_bytes limits)) ram_usage_exceeded (Inr ())
    else Inr ()))"

definition get_account_ram_usage :: "rl_db \<Rightarrow> account_name \<Rightarrow> int result" where
  "get_account_ram_usage db account =
    ebind (idx_get (rl_usage db) account) (\<lambda>usage. Inr (sint (ram_usage usage)))"

definition find_or_create_pending_limits ::
  "rl_db \<Rightarrow> account_name \<Rightarrow> (rl_db \<times> resource_limits_object) result" where
  "find_or_create_pending_limits db account =
    (case idx_find (rl_limits db) (True, account) of
       None \<Rightarrow>
         ebind (idx_get (rl_limits db) (False, account)) (\<lambda>limits.
         ebind (idx_create (True, account) limits (rl_limits db)) (\<lambda>t.
         Inr (db\<lparr>rl_limits := t\<rparr>, limits)))
     | Some pending_limits \<Rightarrow> Inr (db, pending_limits))"

definition set_account_limits ::
  "rl_db \<Rightarrow> account_name \<Rightarrow> int \<Rightarrow> int \<Rightarrow> int \<Rightarrow> (rl_db \<times> bool) result" where
  "set_account_limits db account ram net cpu =
    ebind (find_or_create_pending_limits db account) (\<lambda>(db, limits).
    let decreased_limit = (ram \<ge> 0 \<and> (ram_bytes limits < 0 \<or> ram < ram_bytes limits))
    in Inr (db\<lparr>rl_limits := idx_modify (True, account)
              (\<lambda>l. l\<lparr>ram_bytes := ram, net_weight := net, cpu_weight := cpu\<rparr>) (rl_limits db)\<rparr>,
            decreased_limit))"

text \<open>
  The boundary at which pending limits take effect.  The loop takes the first pending row until
  none is left; each round removes that row, which is the termination measure.
\<close>

definition update_state_and_value :: "u64 \<Rightarrow> int \<Rightarrow> int \<Rightarrow> u64 result" where
  "update_state_and_value tot value pending_value =
    ebind (if value > 0 then
             SNAX_ASSERT (tot \<ge> word_of_int value) rate_limiting_state_inconsistent
               (Inr (tot - word_of_int value))
           else Inr tot) (\<lambda>tot.
    if pending_value > 0 then
      SNAX_ASSERT (- 1 - tot \<ge> word_of_int pending_value) rate_limiting_state_inconsistent
        (Inr (tot + word_of_int pending_value))
    else Inr tot)"

definition apply_pending ::
  "resource_limits_state_object \<Rightarrow> resource_limits_object \<Rightarrow> resource_limits_object \<Rightarrow>
   resource_limits_state_object result" where
  "apply_pending rso rlo pending =
    ebind (update_state_and_value (total_ram_bytes rso) (ram_bytes rlo) (ram_bytes pending)) (\<lambda>ram.
    ebind (update_state_and_value (total_cpu_weight rso) (cpu_weight rlo) (cpu_weight pending)) (\<lambda>cpu.
    ebind (update_state_and_value (total_net_weight rso) (net_weight rlo) (net_weight pending)) (\<lambda>net.
    Inr (rso\<lparr>total_ram_bytes := ram, total_cpu_weight := cpu, total_net_weight := net\<rparr>))))"

definition first_pending ::
  "(bool \<times> account_name, resource_limits_object) index \<Rightarrow>
   (account_name \<times> resource_limits_object) option" where
  "first_pending t = map_option (\<lambda>r. (snd (fst r), snd r)) (List.find (\<lambda>r. fst (fst r)) (idx_rows t))"

definition pending_count :: "(bool \<times> account_name, resource_limits_object) index \<Rightarrow> nat" where
  "pending_count t = length (filter (\<lambda>r. fst (fst r)) (idx_rows t))"

lemma pending_count_put_actual: "pending_count (idx_put (False, a) v t) = pending_count t"
  by (induction "(False, a)" v t rule: idx_put.induct) (auto simp: pending_count_def idx_rows_def)

lemma first_pending_mem:
  "first_pending t = Some (a, l) \<Longrightarrow> ((True, a), l) \<in> set t"
  by (auto simp: first_pending_def idx_rows_def dest!: find_Some_mem)

lemma pending_count_remove:
  assumes "((True, a), l) \<in> set t"
  shows "pending_count (idx_remove (True, a) t) < pending_count t"
proof -
  have "filter (\<lambda>r. fst (fst r)) (idx_remove (True, a) t)
      = filter (\<lambda>r. fst r \<noteq> (True, a)) (filter (\<lambda>r. fst (fst r)) t)"
    by (simp add: idx_remove_def conj_commute)
  moreover have "length (filter (\<lambda>r. fst r \<noteq> (True, a)) (filter (\<lambda>r. fst (fst r)) t))
      < length (filter (\<lambda>r. fst (fst r)) t)"
    by (rule length_filter_less [of "((True, a), l)"]) (use assms in auto)
  ultimately show ?thesis by (simp add: pending_count_def idx_rows_def)
qed

lemma first_pending_put_actual:
  "((True, a), l) \<in> set t \<Longrightarrow> ((True, a), l) \<in> set (idx_put (False, b) v t)"
  by (induction "(False, b)" v t rule: idx_put.induct) auto

function process_pending ::
  "resource_limits_state_object \<Rightarrow> (bool \<times> account_name, resource_limits_object) index \<Rightarrow>
   (resource_limits_state_object \<times> (bool \<times> account_name, resource_limits_object) index) result" where
  "process_pending rso t =
    (case first_pending t of
       None \<Rightarrow> Inr (rso, t)
     | Some (owner, pending) \<Rightarrow>
         ebind (idx_get t (False, owner)) (\<lambda>actual_entry.
         ebind (apply_pending rso actual_entry pending) (\<lambda>rso'.
         process_pending rso' (idx_remove (True, owner) (idx_put (False, owner) pending t)))))"
  by pat_completeness auto

termination process_pending
  by (relation "measure (\<lambda>(rso, t). pending_count t)")
    (auto dest!: first_pending_mem
      intro!: pending_count_remove [OF first_pending_put_actual, THEN less_le_trans]
      simp: pending_count_put_actual)

declare process_pending.simps [simp del]

definition process_account_limit_updates :: "rl_db \<Rightarrow> rl_db result" where
  "process_account_limit_updates db =
    ebind (process_pending (rl_state db) (rl_limits db)) (\<lambda>(rso, t).
    Inr (db\<lparr>rl_state := rso, rl_limits := t\<rparr>))"

definition process_block_usage :: "rl_db \<Rightarrow> u32 \<Rightarrow> rl_db result" where
  "process_block_usage db block_num =
    (let cfg = rl_config db; st = rl_state db in
     ebind (add (average_block_cpu_usage st) (pending_cpu_usage st) block_num
              (periods (cpu_limit_parameters cfg))) (\<lambda>acc.
     ebind (update_virtual_cpu_limit (st\<lparr>average_block_cpu_usage := acc\<rparr>) cfg) (\<lambda>st.
     let st = st\<lparr>pending_cpu_usage := 0\<rparr> in
     ebind (add (average_block_net_usage st) (pending_net_usage st) block_num
              (periods (net_limit_parameters cfg))) (\<lambda>acc.
     ebind (update_virtual_net_limit (st\<lparr>average_block_net_usage := acc\<rparr>) cfg) (\<lambda>st.
     Inr (db\<lparr>rl_state := st\<lparr>pending_net_usage := 0\<rparr>\<rparr>))))))"

definition get_virtual_block_cpu_limit :: "rl_db \<Rightarrow> u64" where
  "get_virtual_block_cpu_limit db = virtual_cpu_limit (rl_state db)"

definition get_virtual_block_net_limit :: "rl_db \<Rightarrow> u64" where
  "get_virtual_block_net_limit db = virtual_net_limit (rl_state db)"

definition get_block_cpu_limit :: "rl_db \<Rightarrow> u64" where
  "get_block_cpu_limit db =
    elp_max (cpu_limit_parameters (rl_config db)) - pending_cpu_usage (rl_state db)"

definition get_block_net_limit :: "rl_db \<Rightarrow> u64" where
  "get_block_net_limit db =
    elp_max (net_limit_parameters (rl_config db)) - pending_net_usage (rl_state db)"

text \<open>The part the two queries of an account's allowance share once the maximum is known.\<close>

definition window_limit :: "u128 \<Rightarrow> u128 \<Rightarrow> account_resource_limit result" where
  "window_limit max_user_use_in_window used_in_window =
    ebind (if max_user_use_in_window \<le> used_in_window then Inr 0
           else downgrade_i64 (max_user_use_in_window - used_in_window)) (\<lambda>available.
    ebind (downgrade_i64 max_user_use_in_window) (\<lambda>m.
    Inr \<lparr>arl_used = uint used_in_window, arl_available = available, arl_max = m\<rparr>))"

definition get_account_cpu_limit_ex ::
  "(int \<Rightarrow> int \<Rightarrow> u128) \<Rightarrow> rl_db \<Rightarrow> account_name \<Rightarrow> bool \<Rightarrow> account_resource_limit result" where
  "get_account_cpu_limit_ex cbrt_mul db name elastic =
    (let st = rl_state db; cfg = rl_config db; window = account_cpu_usage_average_window cfg in
     ebind (idx_get (rl_usage db) name) (\<lambda>usage.
     ebind (get_account_limits db name) (\<lambda>limits.
     if cpu_weight limits < 0 \<or> total_cpu_weight st = 0 then
       Inr \<lparr>arl_used = - 1, arl_available = - 1, arl_max = - 1\<rparr>
     else
       (let cpu_used_in_window = integer_divide_ceil
              ((ucast (value_ex (cpu_usage usage)) :: u128) * ucast window)
              (ucast rate_limiting_precision);
            threshold = sint (cbrt_mul (cpu_weight limits) 1440)
        in ebind (downgrade_i64 cpu_used_in_window) (\<lambda>used.
           ebind (downgrade_i64_signed threshold) (\<lambda>t.
           window_limit
             (max_use_in_window (if elastic then virtual_cpu_limit st
                                 else elp_max (cpu_limit_parameters cfg))
                window (cpu_weight limits) (total_cpu_weight st)
                (word_of_int (if t > 31000 then 31000 else threshold)))
             cpu_used_in_window))))))"

definition get_account_net_limit_ex ::
  "(int \<Rightarrow> int \<Rightarrow> u128) \<Rightarrow> rl_db \<Rightarrow> account_name \<Rightarrow> bool \<Rightarrow> account_resource_limit result" where
  "get_account_net_limit_ex cbrt_mul db name elastic =
    (let st = rl_state db; cfg = rl_config db; window = account_net_usage_average_window cfg in
     ebind (idx_get (rl_usage db) name) (\<lambda>usage.
     ebind (get_account_limits db name) (\<lambda>limits.
     if net_weight limits < 0 \<or> total_net_weight st = 0 then
       Inr \<lparr>arl_used = - 1, arl_available = - 1, arl_max = - 1\<rparr>
     else
       (let net_used_in_window = integer_divide_ceil
              ((ucast (value_ex (net_usage usage)) :: u128) * ucast window)
              (ucast rate_limiting_precision)
        in ebind (minimum_threshold (cbrt_mul (net_weight limits) 75) 2500) (\<lambda>threshold.
           ebind (downgrade_i64 net_used_in_window) (\<lambda>used.
           window_limit
             (max_use_in_window (if elastic then virtual_net_limit st
                                 else elp_max (net_limit_parameters cfg))
                window (net_weight limits) (total_net_weight st) threshold)
             net_used_in_window))))))"

definition get_account_cpu_limit ::
  "(int \<Rightarrow> int \<Rightarrow> u128) \<Rightarrow> rl_db \<Rightarrow> account_name \<Rightarrow> bool \<Rightarrow> int result" where
  "get_account_cpu_limit cbrt_mul db name elastic =
    ebind (get_account_cpu_limit_ex cbrt_mul db name elastic) (\<lambda>arl. Inr (arl_available arl))"

definition get_account_net_limit ::
  "(int \<Rightarrow> int \<Rightarrow> u128) \<Rightarrow> rl_db \<Rightarrow> account_name \<Rightarrow> bool \<Rightarrow> int result" where
  "get_account_net_limit cbrt_mul db name elastic =
    ebind (get_account_net_limit_ex cbrt_mul db name elastic) (\<lambda>arl. Inr (arl_available arl))"

section \<open>Exactness of the accumulators\<close>

definition ceil_div :: "nat \<Rightarrow> nat \<Rightarrow> nat" where
  "ceil_div n d = n div d + (if n mod d > 0 then 1 else 0)"

lemma ceil_div_le: "ceil_div n d \<le> n div d + 1"
  by (simp add: ceil_div_def)

lemma ratio_times_exact:
  assumes "ratio_times v r = Inr x"
  shows "denominator r \<noteq> 0" "unat v * unat (numerator r) < 2 ^ 64"
    "unat x = unat v * unat (numerator r) div unat (denominator r)"
proof -
  from assms have d: "denominator r \<noteq> 0"
    and x: "x = (v * numerator r) div denominator r"
    and g: "numerator r = 0 \<or> v \<le> - 1 div numerator r"
    by (auto simp: ratio_times_def split: if_splits)
  show "denominator r \<noteq> 0" by (rule d)
  show lt: "unat v * unat (numerator r) < 2 ^ 64"
  proof (cases "numerator r = 0")
    case False
    with g have "unat v \<le> (2 ^ 64 - 1) div unat (numerator r)"
      by (simp add: word_le_nat_alt unat_div unat_max_word)
    then have "unat v * unat (numerator r) \<le> (2 ^ 64 - 1) div unat (numerator r) * unat (numerator r)"
      by (rule mult_le_mono1)
    also have "\<dots> \<le> 2 ^ 64 - 1" by (rule div_times_less_eq_dividend)
    finally show ?thesis by (simp add: order.strict_iff_not)
  qed simp
  show "unat x = unat v * unat (numerator r) div unat (denominator r)"
    using lt by (simp add: x unat_div unat_word_ariths)
qed

lemma unat_integer_divide_ceil:
  fixes n d :: "'a::len word"
  assumes "d \<noteq> 0"
  shows "unat (integer_divide_ceil n d) = ceil_div (unat n) (unat d)"
proof -
  have "unat n div unat d + (if unat n mod unat d > 0 then 1 else 0) \<le> unat n"
  proof (cases "unat d = 1")
    case False
    moreover have "unat d \<noteq> 0" using assms by (simp add: unat_eq_0)
    ultimately have "unat d > 1" by linarith
    then show ?thesis
      by (cases "unat n = 0") (auto simp: Suc_le_eq)
  qed simp
  also have "unat n < 2 ^ LENGTH('a)" by (rule unsigned_less)
  finally have "unat n div unat d + (if unat n mod unat d > 0 then 1 else 0) < 2 ^ LENGTH('a)" .
  then show ?thesis
    by (auto simp: integer_divide_ceil_def ceil_div_def word_less_nat_alt unat_div unat_mod
        unat_word_ariths)
qed

definition decayed :: "nat \<Rightarrow> nat \<Rightarrow> nat \<Rightarrow> nat \<Rightarrow> nat" where
  "decayed v last_ord ord w =
    (if ord = last_ord then v
     else if ord < last_ord + w then v * (w - (ord - last_ord)) div w
     else 0)"

lemma decayed_le: "decayed v l ord w \<le> v"
proof -
  have "v * (w - (ord - l)) div w \<le> v * w div w" by (intro div_le_mono mult_le_mono2) simp
  also have "\<dots> \<le> v" by (cases "w = 0") simp_all
  finally show ?thesis by (simp add: decayed_def)
qed

lemma unat_average: "unat (average a) = ceil_div (unat (value_ex a)) 1000000"
  by (simp add: average_def unat_integer_divide_ceil rate_limiting_precision_def)

lemma advance_exact:
  assumes "advance a ordinal w = Inr a'" "w \<noteq> 0"
  shows "last_ordinal a' = ordinal" "last_ordinal a \<le> ordinal"
    "unat (value_ex a') = decayed (unat (value_ex a)) (unat (last_ordinal a)) (unat ordinal) (unat w)"
    "unat (consumed a') = (if ordinal = last_ordinal a then unat (consumed a)
                           else ceil_div (unat (value_ex a')) 1000000)"
proof -
  show "last_ordinal a' = ordinal" "last_ordinal a \<le> ordinal"
    using assms by (auto simp: advance_def Let_def split: if_splits)
  show "unat (consumed a') = (if ordinal = last_ordinal a then unat (consumed a)
                           else ceil_div (unat (value_ex a')) 1000000)"
    using assms by (auto simp: advance_def Let_def unat_average split: if_splits)
  show "unat (value_ex a') = decayed (unat (value_ex a)) (unat (last_ordinal a)) (unat ordinal) (unat w)"
  proof (cases "last_ordinal a = ordinal")
    case True
    with assms show ?thesis by (simp add: advance_def decayed_def)
  next
    case False
    define l o' n where "l = unat (last_ordinal a)" and "o' = unat ordinal" and "n = unat w"
    have bnd: "l < 2 ^ 32" "o' < 2 ^ 32" "n < 2 ^ 32"
      unfolding l_def o'_def n_def by (rule order_less_le_trans [OF unsigned_less], simp)+
    from False assms have lt: "last_ordinal a < ordinal" by (simp add: advance_def)
    then have lt': "l < o'" by (simp add: l_def o'_def word_less_nat_alt)
    have cond: "(ucast ordinal < (ucast (last_ordinal a) :: u64) + ucast w) \<longleftrightarrow> o' < l + n"
      using bnd by (simp add: word_less_nat_alt unat_word_ariths  l_def o'_def n_def)
    have delta: "unat (ordinal - last_ordinal a) = o' - l"
      using lt by (simp add: unat_sub l_def o'_def less_imp_le)
    show ?thesis
    proof (cases "o' < l + n")
      case True
      then have "ratio_times (value_ex a)
          (make_ratio (ucast w - ucast (ordinal - last_ordinal a)) (ucast w)) = Inr (value_ex a')"
        using False assms cond lt by (auto simp: advance_def Let_def)
      from ratio_times_exact(3) [OF this] have "unat (value_ex a') =
          unat (value_ex a) * unat ((ucast w :: u64) - ucast (ordinal - last_ordinal a)) div n"
        using bnd by (simp add: make_ratio_def  n_def)
      moreover have "unat ((ucast w :: u64) - ucast (ordinal - last_ordinal a)) = n - (o' - l)"
        using True delta bnd
        by (subst unat_sub) (auto simp: word_le_nat_alt  n_def)
      ultimately show ?thesis
        using True lt' by (simp add: decayed_def l_def o'_def n_def)
    next
      case False
      then show ?thesis
        using assms cond lt lt' \<open>last_ordinal a \<noteq> ordinal\<close>
        by (auto simp: advance_def Let_def decayed_def l_def o'_def n_def)
    qed
  qed
qed

lemma downgrade_u64_exact: "downgrade_u64 v = Inr x \<Longrightarrow> unat x = unat v"
  by (auto simp: downgrade_u64_def word_le_nat_alt unat_ucast)

lemma contribution_exact:
  assumes "downgrade_u64 (integer_divide_ceil
      ((ucast (units :: u64) :: u128) * ucast rate_limiting_precision) (ucast (w :: u32))) = Inr c"
    and "w \<noteq> 0"
  shows "unat c = ceil_div (unat units * 1000000) (unat w)"
proof -
  have "unat units < 2 ^ 64" using unsigned_less [of units] by simp
  then have "unat units * 1000000 < 2 ^ 128" by simp
  then have "unat ((ucast units :: u128) * ucast rate_limiting_precision) = unat units * 1000000"
    by (simp add: unat_word_ariths rate_limiting_precision_def)
  moreover have "(ucast w :: u128) \<noteq> 0"
    using assms(2) by (simp add: unat_eq_0 [symmetric])
  ultimately show ?thesis
    using downgrade_u64_exact [OF assms(1)] by (simp add: unat_integer_divide_ceil)
qed

lemma add_cases:
  assumes "add a units ordinal w = Inr a'"
  obtains c a1 where "w \<noteq> 0" "unat units * 1000000 < 2 ^ 64"
    "unat c = ceil_div (unat units * 1000000) (unat w)"
    "unat (consumed a) + unat units < 2 ^ 64" "unat (value_ex a) + unat c < 2 ^ 64"
    "advance a ordinal w = Inr a1"
    "a' = a1\<lparr>consumed := consumed a1 + units, value_ex := value_ex a1 + c\<rparr>"
proof -
  from assms have u: "units \<le> max_raw_value" and co: "units \<le> - 1 - consumed a" and w: "w \<noteq> 0"
    by (auto simp: add_def split: if_splits)
  from assms co w obtain c a1 where c: "downgrade_u64 (integer_divide_ceil
      ((ucast units :: u128) * ucast rate_limiting_precision) (ucast w)) = Inr c"
    and rest: "c \<le> - 1 - value_ex a" "advance a ordinal w = Inr a1"
    "a' = a1\<lparr>consumed := consumed a1 + units, value_ex := value_ex a1 + c\<rparr>"
    by (auto simp: add_def)
  have "unat units \<le> (2 ^ 64 - 1) div 1000000"
    using u by (simp add: word_le_nat_alt max_raw_value_def unat_div rate_limiting_precision_def
        unat_max_word)
  then have "unat units * 1000000 < 2 ^ 64" by simp
  with w co rest contribution_exact [OF c w] show ?thesis
    by (intro that) (simp_all add: le_max_word_minus_iff)
qed

text \<open>C24. A successful \<^verbatim>\<open>add\<close> to a usage accumulator computes, with no wrap-around at any
  step, the decayed value plus the new contribution: the old value is scaled by the part of the
  window that has not yet passed (to 0 when a whole window has passed), the units are spread over the
  window rounding up, and \<^verbatim>\<open>consumed\<close> restarts from the rounded-up average on a new
  ordinal.\<close>

theorem add_exact:
  assumes "add a units ordinal w = Inr a'"
  defines "v \<equiv> decayed (unat (value_ex a)) (unat (last_ordinal a)) (unat ordinal) (unat w)"
  shows "last_ordinal a \<le> ordinal \<and> last_ordinal a' = ordinal
    \<and> unat (value_ex a') = v + ceil_div (unat units * 1000000) (unat w)
    \<and> unat (consumed a') = (if ordinal = last_ordinal a then unat (consumed a)
                             else ceil_div v 1000000) + unat units"
proof -
  from assms(1) obtain c a1 where *: "w \<noteq> 0" "unat units * 1000000 < 2 ^ 64"
    "unat c = ceil_div (unat units * 1000000) (unat w)"
    "unat (consumed a) + unat units < 2 ^ 64" "unat (value_ex a) + unat c < 2 ^ 64"
    "advance a ordinal w = Inr a1"
    "a' = a1\<lparr>consumed := consumed a1 + units, value_ex := value_ex a1 + c\<rparr>"
    by (rule add_cases)
  note adv = advance_exact [OF *(6) *(1)]
  have v: "unat (value_ex a1) = v" using adv(3) by (simp add: v_def)
  moreover have "v \<le> unat (value_ex a)" unfolding v_def by (rule decayed_le)
  moreover have "v < 2 ^ 64" using v unat_bound [of "value_ex a1"] by simp
  then have "ceil_div v 1000000 \<le> 2 ^ 64 div 1000000 + 1"
    using ceil_div_le [of v 1000000] div_le_mono [of v "2 ^ 64" 1000000] by linarith
  ultimately show ?thesis
    using * adv by (auto simp: unat_word_ariths)
qed

lemma ratio_times_Inr:
  assumes "denominator r \<noteq> 0" "unat v * unat (numerator r) < 2 ^ 64"
  shows "\<exists>x. ratio_times v r = Inr x"
proof (cases "numerator r = 0")
  case False
  then have "unat v \<le> (2 ^ 64 - 1) div unat (numerator r)"
    using assms(2) by (subst less_eq_div_iff_mult_less_eq) (auto simp: unat_gt_0)
  then have "- 1 div numerator r \<ge> v"
    by (simp add: word_le_nat_alt unat_div unat_max_word)
  with assms(1) show ?thesis by (simp add: ratio_times_def)
qed (use assms in \<open>simp add: ratio_times_def\<close>)

lemma advance_Inr:
  assumes "w \<noteq> 0" "last_ordinal a \<le> ordinal" "unat (value_ex a) * unat w < 2 ^ 64"
  shows "\<exists>a'. advance a ordinal w = Inr a'"
proof (cases "last_ordinal a = ordinal \<or>
    \<not> (ucast (last_ordinal a) :: u64) + ucast w > ucast ordinal")
  case True
  with assms show ?thesis by (auto simp: advance_def Let_def)
next
  case False
  let ?d = "ordinal - last_ordinal a"
  let ?r = "make_ratio (ucast w - ucast ?d) (ucast w)"
  have "unat ((ucast w :: u64) - ucast ?d) \<le> unat w"
  proof -
    have "unat (last_ordinal a) \<le> unat ordinal" using assms(2) by (simp add: word_le_nat_alt)
    moreover have "unat ordinal < unat (last_ordinal a) + unat w"
      using False unat_bound [of "last_ordinal a"] unat_bound [of w]
      by (simp add: word_less_nat_alt unat_word_ariths)
    moreover have "unat ?d = unat ordinal - unat (last_ordinal a)"
      using assms(2) by (rule unat_sub)
    ultimately have "unat ?d \<le> unat w" by linarith
    then show ?thesis by (subst unat_sub) (simp_all add: word_le_nat_alt)
  qed
  then have "unat (value_ex a) * unat (numerator ?r) < 2 ^ 64"
    using assms(3) by (simp add: make_ratio_def order_le_less_trans [OF mult_le_mono2])
  moreover have "denominator ?r \<noteq> 0"
    using assms(1) by (simp add: make_ratio_def unat_eq_0 [symmetric])
  ultimately obtain x where "ratio_times (value_ex a) ?r = Inr x"
    using ratio_times_Inr by blast
  with False assms(2) show ?thesis by (auto simp: advance_def Let_def)
qed

text \<open>\<^verbatim>\<open>add\<close> does not throw when the window is positive, the ordinal does not go back
  and the numbers fit: the units extended for precision, the two sums, and the value times the
  window.\<close>

theorem add_succeeds:
  assumes "w \<noteq> 0" "last_ordinal a \<le> ordinal"
    and "unat units * 1000000 < 2 ^ 64" "unat (consumed a) + unat units < 2 ^ 64"
    and "unat (value_ex a) + ceil_div (unat units * 1000000) (unat w) < 2 ^ 64"
    and "unat (value_ex a) * unat w < 2 ^ 64"
  shows "\<exists>a'. add a units ordinal w = Inr a'"
proof -
  let ?q = "integer_divide_ceil ((ucast units :: u128) * ucast rate_limiting_precision) (ucast w)"
  have q: "unat ?q = ceil_div (unat units * 1000000) (unat w)"
  proof (subst unat_integer_divide_ceil)
    show "(ucast w :: u128) \<noteq> 0" using assms(1) by (simp add: unat_eq_0 [symmetric])
    show "ceil_div (unat ((ucast units :: u128) * ucast rate_limiting_precision)) (unat (ucast w :: u128))
        = ceil_div (unat units * 1000000) (unat w)"
      using assms(3) by (simp add: unat_word_ariths rate_limiting_precision_def)
  qed
  have "units \<le> max_raw_value"
    using assms(3) by (simp add: word_le_nat_alt max_raw_value_def unat_div
        rate_limiting_precision_def unat_max_word)
  moreover have "downgrade_u64 ?q = Inr (ucast ?q)"
    using q assms(5) by (simp add: downgrade_u64_def word_le_nat_alt)
  moreover have "unat (ucast ?q :: u64) = unat ?q"
    using q assms(5) by (simp add: unat_ucast)
  moreover obtain a1 where "advance a ordinal w = Inr a1"
    using advance_Inr [OF assms(1,2,6)] by blast
  ultimately show ?thesis
    using assms q by (simp add: add_def le_max_word_minus_iff)
qed

section \<open>Elastic limits stay within their bounds\<close>

definition params_ok :: "elastic_limit_parameters \<Rightarrow> bool" where
  "params_ok p \<longleftrightarrow> unat (elp_max p) * unat (max_multiplier p) < 2 ^ 64 \<and> max_multiplier p \<noteq> 0"

lemma unat_limit_cap:
  "params_ok p \<Longrightarrow> unat (elp_max p * ucast (max_multiplier p)) = unat (elp_max p) * unat (max_multiplier p)"
  by (simp add: params_ok_def unat_word_ariths)

lemma update_elastic_limit_bounds:
  assumes "update_elastic_limit cur avg p = Inr v" "params_ok p"
  shows "elp_max p \<le> v" "unat v \<le> unat (elp_max p) * unat (max_multiplier p)"
proof -
  from assms(1) obtain r where
    v: "v = min (max r (elp_max p)) (elp_max p * ucast (max_multiplier p))"
    by (auto simp: update_elastic_limit_def split: if_splits)
  have "unat (max_multiplier p) \<ge> 1"
    using assms(2) by (simp add: params_ok_def unat_eq_0 [symmetric])
  then have "elp_max p \<le> elp_max p * ucast (max_multiplier p)"
    unfolding word_le_nat_alt unat_limit_cap [OF assms(2)] by simp
  then show "elp_max p \<le> v" by (simp add: v)
  have "v \<le> elp_max p * ucast (max_multiplier p)" by (simp add: v)
  then show "unat v \<le> unat (elp_max p) * unat (max_multiplier p)"
    by (simp only: word_le_nat_alt unat_limit_cap [OF assms(2)])
qed

lemma update_elastic_limit_congested:
  assumes "update_elastic_limit cur avg p = Inr v" "avg > target p"
    and "numerator (contract_rate p) \<le> denominator (contract_rate p)" "elp_max p \<le> cur"
  shows "v \<le> cur"
proof -
  from assms(1,2) obtain r where r: "ratio_times cur (contract_rate p) = Inr r"
    and v: "v = min (max r (elp_max p)) (elp_max p * ucast (max_multiplier p))"
    by (auto simp: update_elastic_limit_def)
  note ex = ratio_times_exact [OF r]
  have "unat r \<le> unat cur * unat (denominator (contract_rate p)) div unat (denominator (contract_rate p))"
    unfolding ex(3) using assms(3) by (intro div_le_mono mult_le_mono2) (simp add: word_le_nat_alt)
  also have "\<dots> = unat cur" using ex(1) by (simp add: unat_eq_0 [symmetric])
  finally have "r \<le> cur" by (simp add: word_le_nat_alt)
  then have "max r (elp_max p) \<le> cur" using assms(4) by simp
  then show ?thesis unfolding v by (rule min.coboundedI1)
qed

lemma update_elastic_limit_uncongested:
  assumes "update_elastic_limit cur avg p = Inr v" "\<not> avg > target p"
    and "denominator (expand_rate p) \<le> numerator (expand_rate p)"
  shows "min cur (elp_max p * ucast (max_multiplier p)) \<le> v"
proof -
  from assms(1,2) obtain r where r: "ratio_times cur (expand_rate p) = Inr r"
    and v: "v = min (max r (elp_max p)) (elp_max p * ucast (max_multiplier p))"
    by (auto simp: update_elastic_limit_def)
  note ex = ratio_times_exact [OF r]
  have "unat cur = unat cur * unat (denominator (expand_rate p)) div unat (denominator (expand_rate p))"
    using ex(1) by (simp add: unat_eq_0 [symmetric])
  also have "\<dots> \<le> unat r"
    unfolding ex(3) using assms(3) by (intro div_le_mono mult_le_mono2) (simp add: word_le_nat_alt)
  finally have "cur \<le> r" by (simp add: word_le_nat_alt)
  then show ?thesis unfolding v by (intro min.mono max.coboundedI1) simp_all
qed

definition limits_within :: "resource_limits_config_object \<Rightarrow> resource_limits_state_object \<Rightarrow> bool" where
  "limits_within cfg st \<longleftrightarrow>
    elp_max (cpu_limit_parameters cfg) \<le> virtual_cpu_limit st \<and>
    unat (virtual_cpu_limit st) \<le>
      unat (elp_max (cpu_limit_parameters cfg)) * unat (max_multiplier (cpu_limit_parameters cfg)) \<and>
    elp_max (net_limit_parameters cfg) \<le> virtual_net_limit st \<and>
    unat (virtual_net_limit st) \<le>
      unat (elp_max (net_limit_parameters cfg)) * unat (max_multiplier (net_limit_parameters cfg))"

text \<open>C25. After every block the virtual CPU and network limits lie between the block maximum and the
  block maximum times the multiplier, whatever they were before, and the pending usage of the block is
  reset; the parameters are such that this product does not overflow.\<close>

theorem process_block_usage_bounds:
  assumes "process_block_usage db n = Inr db'"
    and "params_ok (cpu_limit_parameters (rl_config db))"
    and "params_ok (net_limit_parameters (rl_config db))"
  shows "limits_within (rl_config db') (rl_state db') \<and> rl_config db' = rl_config db
    \<and> pending_cpu_usage (rl_state db') = 0 \<and> pending_net_usage (rl_state db') = 0"
proof -
  from assms(1) obtain vc vn ac an where
    "update_elastic_limit (virtual_cpu_limit (rl_state db)) ac (cpu_limit_parameters (rl_config db)) = Inr vc"
    "update_elastic_limit (virtual_net_limit (rl_state db)) an (net_limit_parameters (rl_config db)) = Inr vn"
    "rl_config db' = rl_config db" "virtual_cpu_limit (rl_state db') = vc"
    "virtual_net_limit (rl_state db') = vn"
    "pending_cpu_usage (rl_state db') = 0" "pending_net_usage (rl_state db') = 0"
    by (auto simp: process_block_usage_def Let_def update_virtual_cpu_limit_def
        update_virtual_net_limit_def)
  then show ?thesis
    using assms(2,3) by (auto simp: limits_within_def update_elastic_limit_bounds)
qed

section \<open>RAM usage\<close>

lemma ram_no_overflow_iff:
  fixes r :: u64
  assumes "in_i64 d" "d > 0"
  shows "- 1 - r \<ge> word_of_int d \<longleftrightarrow> uint r + d < 2 ^ 64"
proof -
  have "unat (word_of_int d :: u64) = nat d"
    using assms by (intro unat_word_of_int) (auto simp: in_i64_def)
  then have "- 1 - r \<ge> word_of_int d \<longleftrightarrow> unat r + nat d < 2 ^ 64"
    by (simp add: le_max_word_minus_iff)
  also have "\<dots> \<longleftrightarrow> int (unat r + nat d) < 2 ^ 64"
    using of_nat_less_iff [of "unat r + nat d" "2 ^ 64", where 'a = int] by simp
  also have "int (unat r + nat d) = uint r + d" using assms(2) by simp
  finally show ?thesis .
qed

lemma ram_no_underflow_iff:
  fixes r :: u64
  assumes "in_i64 d" "d < 0"
  shows "r \<ge> word_of_int (- d) \<longleftrightarrow> 0 \<le> uint r + d"
proof -
  have "unat (word_of_int (- d) :: u64) = nat (- d)"
    using assms by (intro unat_word_of_int) (auto simp: in_i64_def)
  then have "r \<ge> word_of_int (- d) \<longleftrightarrow> nat (- d) \<le> unat r"
    by (simp add: word_le_nat_alt)
  also have "\<dots> \<longleftrightarrow> - d \<le> int (unat r)" by linarith
  also have "int (unat r) = uint r" by simp
  finally show ?thesis by linarith
qed

text \<open>\<^verbatim>\<open>add_pending_ram_usage\<close> is exact integer addition on every branch: it adds the signed
  delta to the unsigned RAM usage of that one account, throws \<^verbatim>\<open>transaction_exception\<close> exactly
  when the sum is negative or does not fit in 64 bits, and throws for an unknown account.\<close>

theorem add_pending_ram_usage_spec:
  assumes "in_i64 d"
  shows "add_pending_ram_usage db a d =
    (if d = 0 then Inr db else
     case idx_find (rl_usage db) a of
       None \<Rightarrow> Inl unknown_key
     | Some u \<Rightarrow>
         if 0 \<le> uint (ram_usage u) + d \<and> uint (ram_usage u) + d < 2 ^ 64
         then Inr (db\<lparr>rl_usage :=
           idx_put a (u\<lparr>ram_usage := word_of_int (uint (ram_usage u) + d)\<rparr>) (rl_usage db)\<rparr>)
         else Inl transaction_exception)"
proof (cases "idx_find (rl_usage db) a")
  case (Some u)
  let ?r = "ram_usage u"
  have eq: "add_pending_ram_usage db a d = (if d = 0 then Inr db else
      if (d \<le> 0 \<or> - 1 - ?r \<ge> word_of_int d) \<and> (d \<ge> 0 \<or> ?r \<ge> word_of_int (- d))
      then Inr (db\<lparr>rl_usage := idx_put a (u\<lparr>ram_usage := ?r + word_of_int d\<rparr>) (rl_usage db)\<rparr>)
      else Inl transaction_exception)"
    using Some by (simp add: add_pending_ram_usage_def idx_get_def idx_modify_def SNAX_ASSERT_def)
  have sum: "?r + word_of_int d = word_of_int (uint ?r + d)" by simp
  have bnd: "0 \<le> uint ?r" "uint ?r < 2 ^ 64"
    using uint_bounded [of ?r] by simp_all
  have "(d \<le> 0 \<or> - 1 - ?r \<ge> word_of_int d) \<and> (d \<ge> 0 \<or> ?r \<ge> word_of_int (- d)) \<longleftrightarrow>
      0 \<le> uint ?r + d \<and> uint ?r + d < 2 ^ 64" if "d \<noteq> 0"
  proof (cases "d > 0")
    case True
    with bnd show ?thesis by (simp only: ram_no_overflow_iff [OF assms True]) linarith
  next
    case False
    with that have neg: "d < 0" by simp
    with bnd show ?thesis by (simp only: ram_no_underflow_iff [OF assms neg]) linarith
  qed
  with Some show ?thesis unfolding eq sum by simp
qed (simp add: add_pending_ram_usage_def idx_get_def)

section \<open>Pending limits and the totals\<close>

text \<open>
  A limit contributes its positive part to the total of its kind; a negative limit means
  "unlimited" and contributes nothing.  The invariant of the limits table: every account with a
  pending row has an actual row, and each of the three totals is the sum over the actual rows.
\<close>

definition weight_total ::
  "(resource_limits_object \<Rightarrow> int) \<Rightarrow> (bool \<times> account_name, resource_limits_object) index \<Rightarrow> int" where
  "weight_total g t = index.total (\<lambda>k l. if fst k then 0 else max 0 (g l)) t"

definition rlo_in_range :: "resource_limits_object \<Rightarrow> bool" where
  "rlo_in_range l \<longleftrightarrow> in_i64 (ram_bytes l) \<and> in_i64 (cpu_weight l) \<and> in_i64 (net_weight l)"

definition limits_inv ::
  "resource_limits_state_object \<Rightarrow> (bool \<times> account_name, resource_limits_object) index \<Rightarrow> bool" where
  "limits_inv st t \<longleftrightarrow> idx_ok t
    \<and> (\<forall>a. idx_find t (True, a) \<noteq> None \<longrightarrow> idx_find t (False, a) \<noteq> None)
    \<and> (\<forall>k l. idx_find t k = Some l \<longrightarrow> rlo_in_range l)
    \<and> uint (total_ram_bytes st) = weight_total ram_bytes t
    \<and> uint (total_cpu_weight st) = weight_total cpu_weight t
    \<and> uint (total_net_weight st) = weight_total net_weight t"

lemma weight_total_put:
  assumes "idx_ok t"
  shows "weight_total g (idx_put (b, a) l t) = (if b then weight_total g t
    else weight_total g t - (case idx_find t (b, a) of None \<Rightarrow> 0 | Some l0 \<Rightarrow> max 0 (g l0)) + max 0 (g l))"
  using assms by (auto simp: weight_total_def index.total_put split: option.split)

lemma weight_total_remove_pending:
  "idx_ok t \<Longrightarrow> weight_total g (idx_remove (True, a) t) = weight_total g t"
  by (simp add: weight_total_def index.total_remove split: option.split)

lemma uint_sub_word_of_int:
  assumes "old > 0" "in_i64 old" "old \<le> uint (tot :: u64)"
  shows "word_of_int old \<le> tot" "uint (tot - word_of_int old) = uint tot - old"
proof -
  have u: "uint (word_of_int old :: u64) = old"
    using assms by (simp add: uint_word_of_int in_i64_def)
  then show "word_of_int old \<le> tot" using assms by (simp add: word_le_def)
  have "uint (tot - word_of_int old) = uint tot - uint (word_of_int old :: u64)"
    by (rule uint_sub_lem [THEN iffD1]) (use assms u in simp)
  with u show "uint (tot - word_of_int old) = uint tot - old" by simp
qed

lemma update_state_and_value_exact:
  assumes "update_state_and_value tot old new = Inr tot'" "in_i64 old" "in_i64 new"
  shows "uint tot' = uint tot - max 0 old + max 0 new"
proof -
  from assms(1) obtain t1 where
    t1: "if old > 0 then word_of_int old \<le> tot \<and> t1 = tot - word_of_int old else t1 = tot"
    and t2: "if new > 0 then word_of_int new \<le> - 1 - t1 \<and> tot' = t1 + word_of_int new else tot' = t1"
    by (auto simp: update_state_and_value_def split: if_splits)
  have "uint t1 = uint tot - max 0 old"
  proof (cases "old > 0")
    case True
    then have u: "uint (word_of_int old :: u64) = old"
      using assms(2) by (simp add: uint_word_of_int in_i64_def)
    then have "old \<le> uint tot" using t1 True by (simp add: word_le_def)
    from uint_sub_word_of_int(2) [OF True assms(2) this] t1 True show ?thesis by simp
  qed (use t1 in simp)
  moreover have "uint tot' = uint t1 + max 0 new"
  proof (cases "new > 0")
    case True
    then have le: "uint t1 + new < 2 ^ 64"
      using t2 ram_no_overflow_iff [OF assms(3) True] by simp
    then have "uint (t1 + word_of_int new) = uint t1 + new"
      using True by (simp add: uint_word_ariths uint_word_of_int mod_add_right_eq)
    with t2 True show ?thesis by simp
  qed (use t2 in simp)
  ultimately show ?thesis by simp
qed

lemma apply_pending_exact:
  assumes "apply_pending st old new = Inr st'" "rlo_in_range old" "rlo_in_range new"
  shows "uint (total_ram_bytes st') = uint (total_ram_bytes st) - max 0 (ram_bytes old) + max 0 (ram_bytes new)"
    "uint (total_cpu_weight st') = uint (total_cpu_weight st) - max 0 (cpu_weight old) + max 0 (cpu_weight new)"
    "uint (total_net_weight st') = uint (total_net_weight st) - max 0 (net_weight old) + max 0 (net_weight new)"
  using assms
  by (auto simp: apply_pending_def rlo_in_range_def update_state_and_value_exact)

lemma first_pending_find:
  assumes "idx_ok t" "first_pending t = Some (a, l)"
  shows "idx_find t (True, a) = Some l"
  using first_pending_mem [OF assms(2)] assms(1)
  by (simp add: idx_find_def idx_ok_def strict_sorted_iff map_of_is_SomeI)

lemma first_pending_None:
  assumes "first_pending t = None"
  shows "idx_find t (True, a) = None"
  using assms
  by (cases "idx_find t (True, a)")
    (force simp: first_pending_def idx_rows_def find_None_iff idx_find_def dest: map_of_SomeD)+

text \<open>One round of the loop: the step every property of the loop is proved over.\<close>

definition pending_step ::
  "account_name \<Rightarrow> resource_limits_object \<Rightarrow> (bool \<times> account_name, resource_limits_object) index \<Rightarrow>
   (bool \<times> account_name, resource_limits_object) index" where
  "pending_step a l t = idx_remove (True, a) (idx_put (False, a) l t)"

lemma pending_step_find:
  "idx_ok t \<Longrightarrow> idx_find (pending_step a l t) = (idx_find t)((False, a) \<mapsto> l, (True, a) := None)"
  by (simp add: pending_step_def idx_simps)

lemma pending_step_ok: "idx_ok t \<Longrightarrow> idx_ok (pending_step a l t)"
  by (simp add: pending_step_def idx_simps)

lemma pending_step_inv:
  assumes "limits_inv st t" "first_pending t = Some (a, l)"
    and "idx_find t (False, a) = Some e" "apply_pending st e l = Inr st'"
  shows "limits_inv st' (pending_step a l t)"
proof -
  from assms(1) have ok: "idx_ok t" by (simp add: limits_inv_def)
  note fp = first_pending_find [OF ok assms(2)]
  have rng: "rlo_in_range e" "rlo_in_range l"
    using assms(1,3) fp by (auto simp: limits_inv_def)
  have wt: "weight_total g (pending_step a l t) = weight_total g t - max 0 (g e) + max 0 (g l)" for g
    using ok assms(3)
    by (simp add: pending_step_def weight_total_remove_pending weight_total_put idx_ok_put)
  show ?thesis
    using assms(1) rng
    by (auto simp: limits_inv_def wt apply_pending_exact [OF assms(4)] pending_step_find
        pending_step_ok)
qed

lemma process_pending_induct [consumes 1, case_names stop step]:
  assumes "process_pending st t = Inr (st', t')"
    and "\<And>st t. first_pending t = None \<Longrightarrow> P st t st t"
    and "\<And>st t a l e st1 st' t'. first_pending t = Some (a, l) \<Longrightarrow> idx_find t (False, a) = Some e \<Longrightarrow>
      apply_pending st e l = Inr st1 \<Longrightarrow> P st1 (pending_step a l t) st' t' \<Longrightarrow> P st t st' t'"
  shows "P st t st' t'"
  using assms(1)
proof (induction st t rule: process_pending.induct)
  case (1 st t)
  show ?case
  proof (cases "first_pending t")
    case None
    with 1 assms(2) show ?thesis by (simp add: process_pending.simps)
  next
    case (Some p)
    obtain a l where [simp]: "p = (a, l)" by (cases p)
    from 1(2) Some obtain e st1 where e: "idx_find t (False, a) = Some e"
      "apply_pending st e l = Inr st1"
      "process_pending st1 (pending_step a l t) = Inr (st', t')"
      by (subst (asm) process_pending.simps) (auto simp: pending_step_def)
    have "P st1 (pending_step a l t) st' t'"
      unfolding pending_step_def
      by (rule 1(1) [OF Some _ _ e(2)]) (use e in \<open>simp_all add: pending_step_def\<close>)
    moreover have "first_pending t = Some (a, l)" using Some by simp
    ultimately show ?thesis using assms(3) [OF _ e(1,2)] by blast
  qed
qed

lemma process_pending_inv:
  assumes "process_pending st t = Inr (st', t')" "limits_inv st t"
  shows "limits_inv st' t'"
  using assms
proof (induction rule: process_pending_induct)
  case (step st t a l e st1 st' t')
  then show ?case by (blast intro: pending_step_inv)
qed

definition effective_limits ::
  "(bool \<times> account_name, resource_limits_object) index \<Rightarrow> account_name \<Rightarrow> resource_limits_object option" where
  "effective_limits t a = (case idx_find t (True, a) of Some l \<Rightarrow> Some l | None \<Rightarrow> idx_find t (False, a))"

lemma get_account_limits_effective:
  "get_account_limits db a = Inr l \<longleftrightarrow> effective_limits (rl_limits db) a = Some l"
  by (simp add: get_account_limits_def effective_limits_def split: option.split)

lemma process_pending_effective:
  assumes "process_pending st t = Inr (st', t')" "idx_ok t"
  shows "idx_ok t' \<and> effective_limits t' = effective_limits t \<and> (\<forall>a. idx_find t' (True, a) = None)"
  using assms
proof (induction rule: process_pending_induct)
  case (stop st t)
  then show ?case by (simp add: first_pending_None)
next
  case (step st t a l e st1 st' t')
  have "effective_limits (pending_step a l t) = effective_limits t"
    using first_pending_find [OF step.prems step.hyps(1)] step.prems
    by (auto simp: effective_limits_def pending_step_find fun_eq_iff split: option.split)
  with step show ?case by (simp add: pending_step_ok)
qed

lemma pending_rows_total:
  assumes "limits_inv st t" "idx_find t (False, a) = Some e"
  shows "max 0 (ram_bytes e) \<le> uint (total_ram_bytes st)"
    "max 0 (cpu_weight e) \<le> uint (total_cpu_weight st)"
    "max 0 (net_weight e) \<le> uint (total_net_weight st)"
proof -
  have "max 0 (g e) \<le> weight_total g t" for g
    using index.total_ge_row [of t "(False, a)" e "\<lambda>k l. if fst k then 0 else max 0 (g l)"] assms
    by (simp add: weight_total_def limits_inv_def)
  then show "max 0 (ram_bytes e) \<le> uint (total_ram_bytes st)"
    "max 0 (cpu_weight e) \<le> uint (total_cpu_weight st)"
    "max 0 (net_weight e) \<le> uint (total_net_weight st)"
    using assms by (auto simp: limits_inv_def)
qed


section \<open>Every state the manager reaches\<close>

definition rl_inv :: "rl_db \<Rightarrow> bool" where
  "rl_inv db \<longleftrightarrow> limits_inv (rl_state db) (rl_limits db) \<and> idx_ok (rl_usage db)
    \<and> (\<forall>a. idx_find (rl_usage db) a = None \<longleftrightarrow> idx_find (rl_limits db) (False, a) = None)"

text \<open>The operations of the manager as steps; a call that throws leaves the state as it was.\<close>

inductive rl_step :: "(int \<Rightarrow> int \<Rightarrow> u128) \<Rightarrow> rl_db \<Rightarrow> rl_db \<Rightarrow> bool" for cbrt_mul where
  initialize_account: "initialize_account db a = Inr db' \<Longrightarrow> rl_step cbrt_mul db db'"
| set_block_parameters: "set_block_parameters db cpu net = Inr db' \<Longrightarrow> rl_step cbrt_mul db db'"
| update_account_usage: "update_account_usage db as slot = Inr db' \<Longrightarrow> rl_step cbrt_mul db db'"
| add_transaction_usage:
    "add_transaction_usage cbrt_mul db as cpu net slot = Inr db' \<Longrightarrow> rl_step cbrt_mul db db'"
| add_pending_ram_usage: "add_pending_ram_usage db a d = Inr db' \<Longrightarrow> rl_step cbrt_mul db db'"
| set_account_limits:
    "in_i64 ram \<Longrightarrow> in_i64 net \<Longrightarrow> in_i64 cpu \<Longrightarrow>
     set_account_limits db a ram net cpu = Inr (db', decreased) \<Longrightarrow> rl_step cbrt_mul db db'"
| process_account_limit_updates:
    "process_account_limit_updates db = Inr db' \<Longrightarrow> rl_step cbrt_mul db db'"
| process_block_usage: "process_block_usage db n = Inr db' \<Longrightarrow> rl_step cbrt_mul db db'"

definition same_totals :: "resource_limits_state_object \<Rightarrow> resource_limits_state_object \<Rightarrow> bool" where
  "same_totals st st' \<longleftrightarrow> total_ram_bytes st' = total_ram_bytes st
    \<and> total_cpu_weight st' = total_cpu_weight st \<and> total_net_weight st' = total_net_weight st"

lemma same_totals_refl [simp]: "same_totals st st"
  by (simp add: same_totals_def)

lemma limits_inv_same_totals: "limits_inv st t \<Longrightarrow> same_totals st st' \<Longrightarrow> limits_inv st' t"
  by (simp add: limits_inv_def same_totals_def)

text \<open>An operation that leaves the limits table and the totals alone keeps the invariant.\<close>

definition usage_only :: "rl_db \<Rightarrow> rl_db \<Rightarrow> bool" where
  "usage_only db db' \<longleftrightarrow> rl_limits db' = rl_limits db \<and> same_totals (rl_state db) (rl_state db')
    \<and> (idx_ok (rl_usage db) \<longrightarrow> idx_ok (rl_usage db')
        \<and> (\<forall>a. idx_find (rl_usage db') a = None \<longleftrightarrow> idx_find (rl_usage db) a = None))"

lemma usage_only_inv: "usage_only db db' \<Longrightarrow> rl_inv db \<Longrightarrow> rl_inv db'"
  by (auto simp: usage_only_def rl_inv_def intro: limits_inv_same_totals)

lemma usage_only_refl: "usage_only db db"
  by (simp add: usage_only_def)

lemma usage_only_trans: "usage_only db db1 \<Longrightarrow> usage_only db1 db2 \<Longrightarrow> usage_only db db2"
  by (simp add: usage_only_def same_totals_def)

lemma usage_only_put:
  "idx_find (rl_usage db) a = Some u \<Longrightarrow> usage_only db (db\<lparr>rl_usage := idx_put a u' (rl_usage db)\<rparr>)"
  by (auto simp: usage_only_def idx_simps)

lemma usage_only_update_account_usage:
  assumes "update_account_usage db as slot = Inr db'"
  shows "usage_only db db'"
proof -
  have "usage_only db db1 \<Longrightarrow> efold (\<lambda>db a.
      ebind (idx_get (rl_usage db) a) (\<lambda>usage.
      ebind (add_usage usage (rl_config db) 0 0 slot) (\<lambda>usage'.
      Inr (db\<lparr>rl_usage := idx_put a usage' (rl_usage db)\<rparr>)))) db1 as = Inr db' \<Longrightarrow> usage_only db db'" for db1
    by (erule efold_invariant) (auto intro: usage_only_trans usage_only_put)
  from this [OF usage_only_refl] assms show ?thesis by (simp add: update_account_usage_def)
qed

lemma usage_only_add_transaction_usage:
  assumes "add_transaction_usage cb db as cpu net slot = Inr db'"
  shows "usage_only db db'"
proof -
  from assms obtain db1 where 1: "efold (bill_account cb cpu net slot) db as = Inr db1"
    and st: "db' = db1\<lparr>rl_state := (rl_state db1)\<lparr>
      pending_cpu_usage := pending_cpu_usage (rl_state db1) + cpu,
      pending_net_usage := pending_net_usage (rl_state db1) + net\<rparr>\<rparr>"
    by (auto simp: add_transaction_usage_def Let_def)
  from 1 have "usage_only db db1"
    by (rule efold_invariant)
      (auto simp: bill_account_def usage_only_refl intro: usage_only_trans usage_only_put)
  with st show ?thesis by (auto simp: usage_only_def same_totals_def)
qed

lemma usage_only_add_pending_ram_usage:
  "add_pending_ram_usage db a d = Inr db' \<Longrightarrow> usage_only db db'"
  by (auto simp: add_pending_ram_usage_def usage_only_refl idx_modify_def intro!: usage_only_put
      split: if_splits)

lemma usage_only_process_block_usage:
  "process_block_usage db n = Inr db' \<Longrightarrow> usage_only db db'"
  by (auto simp: process_block_usage_def Let_def update_virtual_cpu_limit_def
      update_virtual_net_limit_def usage_only_def same_totals_def)

lemma usage_only_set_block_parameters:
  "set_block_parameters db cpu net = Inr db' \<Longrightarrow> usage_only db db'"
  by (auto simp: set_block_parameters_def usage_only_def)


lemma initialize_account_inv:
  assumes "rl_inv db" "initialize_account db a = Inr db'"
  shows "rl_inv db'"
proof -
  let ?t = "idx_put (False, a) new_resource_limits (rl_limits db)"
  from assms(2) have new: "idx_find (rl_limits db) (False, a) = None" "idx_find (rl_usage db) a = None"
    and db': "db' = db\<lparr>rl_limits := ?t, rl_usage := idx_put a new_resource_usage (rl_usage db)\<rparr>"
    by (auto simp: initialize_account_def idx_create_Inr_iff)
  from assms(1) have ok: "idx_ok (rl_limits db)" "idx_ok (rl_usage db)"
    by (simp_all add: rl_inv_def limits_inv_def)
  have "weight_total g ?t = weight_total g (rl_limits db)" if "g new_resource_limits = - 1" for g
    using new ok that by (simp add: weight_total_put)
  moreover have "rlo_in_range new_resource_limits"
    by (simp add: rlo_in_range_def new_resource_limits_def in_i64_def)
  ultimately show ?thesis
    using assms(1) ok
    by (auto simp: rl_inv_def limits_inv_def db' idx_simps new_resource_limits_def)
qed

lemma set_account_limits_cases:
  assumes "set_account_limits db a ram net cpu = Inr (db', dec)"
  obtains l0 where "effective_limits (rl_limits db) a = Some l0"
    "idx_ok (rl_limits db) \<Longrightarrow> idx_ok (rl_limits db')"
    "idx_ok (rl_limits db) \<Longrightarrow> idx_find (rl_limits db') = (idx_find (rl_limits db))
       ((True, a) \<mapsto> l0\<lparr>ram_bytes := ram, net_weight := net, cpu_weight := cpu\<rparr>)"
    "idx_ok (rl_limits db) \<Longrightarrow> weight_total g (rl_limits db') = weight_total g (rl_limits db)"
    "db' = db\<lparr>rl_limits := rl_limits db'\<rparr>"
    "dec \<longleftrightarrow> ram \<ge> 0 \<and> (ram_bytes l0 < 0 \<or> ram < ram_bytes l0)"
proof (cases "idx_find (rl_limits db) (True, a)")
  case None
  with assms obtain l0 where "idx_find (rl_limits db) (False, a) = Some l0"
    "db' = db\<lparr>rl_limits := idx_modify (True, a)
       (\<lambda>l. l\<lparr>ram_bytes := ram, net_weight := net, cpu_weight := cpu\<rparr>)
       (idx_put (True, a) l0 (rl_limits db))\<rparr>"
    "dec \<longleftrightarrow> ram \<ge> 0 \<and> (ram_bytes l0 < 0 \<or> ram < ram_bytes l0)"
    by (auto simp: set_account_limits_def find_or_create_pending_limits_def idx_create_Inr_iff Let_def)
  with None show ?thesis
    by (intro that [of l0])
      (auto simp: effective_limits_def idx_modify_def idx_simps weight_total_put)
next
  case (Some l0)
  with assms have "db' = db\<lparr>rl_limits := idx_modify (True, a)
       (\<lambda>l. l\<lparr>ram_bytes := ram, net_weight := net, cpu_weight := cpu\<rparr>) (rl_limits db)\<rparr>"
    "dec \<longleftrightarrow> ram \<ge> 0 \<and> (ram_bytes l0 < 0 \<or> ram < ram_bytes l0)"
    by (auto simp: set_account_limits_def find_or_create_pending_limits_def Let_def)
  with Some show ?thesis
    by (intro that [of l0])
      (auto simp: effective_limits_def idx_modify_def idx_simps weight_total_put)
qed

lemma set_account_limits_inv:
  assumes "rl_inv db" "set_account_limits db a ram net cpu = Inr (db', dec)"
    and "in_i64 ram" "in_i64 net" "in_i64 cpu"
  shows "rl_inv db'"
proof -
  from assms(1) have ok: "idx_ok (rl_limits db)" by (simp add: rl_inv_def limits_inv_def)
  let ?l = "\<lambda>l0::resource_limits_object. l0\<lparr>ram_bytes := ram, net_weight := net, cpu_weight := cpu\<rparr>"
  obtain l0 where l0: "effective_limits (rl_limits db) a = Some l0"
    "idx_ok (rl_limits db')" "idx_find (rl_limits db') = (idx_find (rl_limits db))((True, a) \<mapsto> ?l l0)"
    "db' = db\<lparr>rl_limits := rl_limits db'\<rparr>"
    by (rule set_account_limits_cases [OF assms(2)]) (use ok in auto)
  have wt: "weight_total g (rl_limits db') = weight_total g (rl_limits db)" for g
    by (rule set_account_limits_cases [OF assms(2), where g = g]) (use ok in auto)
  have same: "rl_state db' = rl_state db" "rl_usage db' = rl_usage db"
    by (subst l0(4), simp)+
  have "rlo_in_range (?l l0)" using assms(3-5) by (simp add: rlo_in_range_def)
  moreover have "idx_find (rl_limits db) (False, a) \<noteq> None"
    using l0(1) assms(1)
    by (auto simp: effective_limits_def rl_inv_def limits_inv_def split: option.splits)
  ultimately show ?thesis
    using assms(1) l0(2,3) by (auto simp: rl_inv_def limits_inv_def wt same)
qed

lemma process_account_limit_updates_inv:
  assumes "rl_inv db" "process_account_limit_updates db = Inr db'"
  shows "rl_inv db'"
proof -
  from assms(2) obtain st t where p: "process_pending (rl_state db) (rl_limits db) = Inr (st, t)"
    and db': "db' = db\<lparr>rl_state := st, rl_limits := t\<rparr>"
    by (auto simp: process_account_limit_updates_def)
  have "limits_inv st t" using process_pending_inv [OF p] assms(1) by (simp add: rl_inv_def)
  moreover have "idx_find t (False, a) = None \<longleftrightarrow> idx_find (rl_limits db) (False, a) = None" for a
  proof -
    have "effective_limits t a = effective_limits (rl_limits db) a" "idx_find t (True, a) = None"
      using process_pending_effective [OF p] assms(1) by (auto simp: rl_inv_def limits_inv_def)
    then show ?thesis
      using assms(1) by (auto simp: effective_limits_def rl_inv_def limits_inv_def split: option.splits)
  qed
  ultimately show ?thesis using assms(1) by (simp add: rl_inv_def db')
qed

lemma rl_step_inv: "rl_step cb db db' \<Longrightarrow> rl_inv db \<Longrightarrow> rl_inv db'"
  by (induction rule: rl_step.induct)
    (blast intro: initialize_account_inv set_account_limits_inv process_account_limit_updates_inv
      usage_only_inv usage_only_update_account_usage usage_only_add_transaction_usage
      usage_only_add_pending_ram_usage usage_only_process_block_usage usage_only_set_block_parameters)+

lemma rl_inv_init: "rl_inv initialize_database"
  by (simp add: rl_inv_def limits_inv_def initialize_database_def weight_total_def new_state_def)


text \<open>C22. In every state the resource limits manager can reach from the initial database by its
  operations, the recorded totals of RAM bytes, CPU weight and network weight are exactly the sums
  of the positive limits of all accounts, every account with a pending limit has an actual one, and
  the accounts with usage are the accounts with limits.\<close>

theorem totals_invariant:
  assumes "(rl_step cb)\<^sup>*\<^sup>* initialize_database db"
  shows "rl_inv db"
  using assms by (induction rule: rtranclp_induct) (auto intro: rl_inv_init rl_step_inv)


lemma update_state_and_value_Inr:
  assumes "in_i64 old" "in_i64 new" "max 0 old \<le> uint tot"
    and "uint tot - max 0 old + max 0 new < 2 ^ 64"
  shows "\<exists>tot'. update_state_and_value tot old new = Inr tot'"
proof -
  have new: "\<exists>x. (if new > 0 then SNAX_ASSERT (- 1 - t \<ge> word_of_int new)
      rate_limiting_state_inconsistent (Inr (t + word_of_int new)) else Inr t) = Inr x"
    if "uint t = uint tot - max 0 old" for t :: u64
  proof (cases "new > 0")
    case True
    have "- 1 - t \<ge> word_of_int new"
      using that assms(4) True by (simp only: ram_no_overflow_iff [OF assms(2) True])
    with True show ?thesis by simp
  qed simp
  show ?thesis
  proof (cases "old > 0")
    case True
    have "old \<le> uint tot" using assms(3) by simp
    note sub = uint_sub_word_of_int [OF True assms(1) this]
    have "uint (tot - word_of_int old) = uint tot - max 0 old" using sub(2) True by simp
    from new [OF this] True sub(1) show ?thesis
      unfolding update_state_and_value_def by simp
  next
    case False
    then have "uint tot = uint tot - max 0 old" by simp
    from new [OF this] False show ?thesis unfolding update_state_and_value_def by simp
  qed
qed

definition rows_total ::
  "(resource_limits_object \<Rightarrow> int) \<Rightarrow> (bool \<times> account_name, resource_limits_object) index \<Rightarrow> int" where
  "rows_total g t = index.total (\<lambda>k l. max 0 (g l)) t"

definition rows_fit :: "(bool \<times> account_name, resource_limits_object) index \<Rightarrow> bool" where
  "rows_fit t \<longleftrightarrow> rows_total ram_bytes t < 2 ^ 64 \<and> rows_total cpu_weight t < 2 ^ 64
    \<and> rows_total net_weight t < 2 ^ 64"

lemma rows_total_pending_step:
  assumes "idx_ok t" "idx_find t (True, a) = Some l" "idx_find t (False, a) = Some e"
  shows "rows_total g (pending_step a l t) = rows_total g t - max 0 (g e)"
  using assms by (simp add: rows_total_def pending_step_def index.total_put index.total_remove idx_simps)

lemma weight_total_le_rows_total:
  assumes "idx_ok t" "idx_find t (True, a) = Some l"
  shows "weight_total g t + max 0 (g l) \<le> rows_total g t"
proof -
  let ?f = "\<lambda>k r. if fst k then max 0 (g r) else 0"
  have "weight_total g t + index.total ?f t = rows_total g t"
    using assms(1)
    by (simp add: weight_total_def rows_total_def index.total_eq_sum sum.distrib [symmetric])
      (rule sum.cong, auto)
  moreover have "max 0 (g l) \<le> index.total ?f t"
    using index.total_ge_row [of t "(True, a)" l ?f] assms by simp
  ultimately show ?thesis by linarith
qed

lemma apply_pending_Inr:
  assumes "limits_inv st t" "first_pending t = Some (a, l)" "idx_find t (False, a) = Some e" "rows_fit t"
  shows "\<exists>st'. apply_pending st e l = Inr st'"
proof -
  from assms(1) have ok: "idx_ok t" by (simp add: limits_inv_def)
  note fp = first_pending_find [OF ok assms(2)]
  have rng: "rlo_in_range e" "rlo_in_range l" using assms(1,3) fp by (auto simp: limits_inv_def)
  have fit: "weight_total g t - max 0 (g e) + max 0 (g l) < 2 ^ 64" if "rows_total g t < 2 ^ 64" for g
    using weight_total_le_rows_total [OF ok fp, of g] that by linarith
  have ex: "\<exists>x. update_state_and_value tot (g e) (g l) = Inr x"
    if "uint tot = weight_total g t" "in_i64 (g e)" "in_i64 (g l)" "rows_total g t < 2 ^ 64"
      "max 0 (g e) \<le> uint tot" for g tot
    by (rule update_state_and_value_Inr [OF that(2,3,5)]) (simp only: that(1) fit [OF that(4)])
  have "\<exists>x. update_state_and_value (total_ram_bytes st) (ram_bytes e) (ram_bytes l) = Inr x"
    by (rule ex) (use assms(1,4) rng pending_rows_total(1) [OF assms(1,3)] in
      \<open>simp_all only: limits_inv_def rows_fit_def rlo_in_range_def\<close>)
  moreover have "\<exists>x. update_state_and_value (total_cpu_weight st) (cpu_weight e) (cpu_weight l) = Inr x"
    by (rule ex) (use assms(1,4) rng pending_rows_total(2) [OF assms(1,3)] in
      \<open>simp_all only: limits_inv_def rows_fit_def rlo_in_range_def\<close>)
  moreover have "\<exists>x. update_state_and_value (total_net_weight st) (net_weight e) (net_weight l) = Inr x"
    by (rule ex) (use assms(1,4) rng pending_rows_total(3) [OF assms(1,3)] in
      \<open>simp_all only: limits_inv_def rows_fit_def rlo_in_range_def\<close>)
  ultimately show ?thesis by (auto simp: apply_pending_def)
qed

lemma process_pending_Inr:
  assumes "limits_inv st t" "rows_fit t"
  shows "\<exists>st' t'. process_pending st t = Inr (st', t')"
  using assms
proof (induction st t rule: process_pending.induct)
  case (1 st t)
  show ?case
  proof (cases "first_pending t")
    case None
    then show ?thesis by (simp add: process_pending.simps)
  next
    case (Some p)
    obtain a l where p: "p = (a, l)" by (cases p)
    with Some have fp: "first_pending t = Some (a, l)" by simp
    from 1(2) have ok: "idx_ok t" by (simp add: limits_inv_def)
    note fi = first_pending_find [OF ok fp]
    with 1(2) obtain e where e: "idx_find t (False, a) = Some e" by (auto simp: limits_inv_def)
    obtain st1 where st1: "apply_pending st e l = Inr st1"
      using apply_pending_Inr [OF 1(2) fp e 1(3)] by blast
    have "rows_total g (pending_step a l t) \<le> rows_total g t" for g
      by (simp add: rows_total_pending_step [OF ok fi e])
    then have "rows_fit (pending_step a l t)"
      using 1(3) unfolding rows_fit_def by (meson order_le_less_trans)
    moreover have "limits_inv st1 (pending_step a l t)" by (rule pending_step_inv [OF 1(2) fp e st1])
    ultimately have "\<exists>st' t'. process_pending st1 (pending_step a l t) = Inr (st', t')"
      unfolding pending_step_def by (intro 1(1) [OF Some p [symmetric] _ st1]) (simp_all add: e)
    then show ?thesis
      using fp e st1 by (subst process_pending.simps) (auto simp: pending_step_def)
  qed
qed

lemma get_account_limits_eq:
  "get_account_limits db a =
    (case effective_limits (rl_limits db) a of None \<Rightarrow> Inl unknown_key | Some l \<Rightarrow> Inr l)"
  by (simp add: get_account_limits_def effective_limits_def idx_get_def split: option.split)

lemma apply_pending_Inl: "apply_pending st e l = Inl x \<Longrightarrow> x = rate_limiting_state_inconsistent"
  by (auto simp: apply_pending_def update_state_and_value_def ebind_eq_Inl_iff SNAX_ASSERT_eq_Inl_iff split: if_split_asm)

lemma process_pending_Inl:
  assumes "limits_inv st t" "process_pending st t = Inl x"
  shows "x = rate_limiting_state_inconsistent"
  using assms
proof (induction st t rule: process_pending.induct)
  case (1 st t)
  then obtain a l where fp: "first_pending t = Some (a, l)" by (cases "first_pending t") (auto simp: process_pending.simps)
  have "idx_ok t" using 1(2) by (simp add: limits_inv_def)
  from first_pending_find [OF this fp] obtain e where e: "idx_find t (False, a) = Some e"
    using 1(2) by (auto simp: limits_inv_def)
  show ?case
  proof (cases "apply_pending st e l")
    case (Inl y)
    then show ?thesis using apply_pending_Inl 1(3) fp e by (subst (asm) process_pending.simps) (auto simp: idx_get_def)
  next
    case (Inr st1)
    have "process_pending st1 (pending_step a l t) = Inl x"
      using 1(3) fp e Inr by (subst (asm) process_pending.simps) (simp add: idx_get_def pending_step_def)
    then show ?thesis
      using pending_step_inv [OF 1(2) fp e Inr] unfolding pending_step_def by (intro 1(1) [OF fp refl _ Inr]) (simp_all add: e idx_get_def)
  qed
qed

text \<open>C23. \<^verbatim>\<open>process_account_limit_updates\<close> either returns or fails with
  \<^verbatim>\<open>rate_limiting_state_inconsistent\<close>, and it fails only when the limits of all rows, pending ones included, do not
  fit in 64 bits: the overflow check may then fail, the underflow check never does. When it returns, no row is pending any more, and what
  \<^verbatim>\<open>get_account_limits\<close> reports is the same for every account before and after: a pending
  limit is visible from the moment it is set.\<close>

theorem process_account_limit_updates_correct:
  assumes "rl_inv db"
  shows "process_account_limit_updates db = Inl rate_limiting_state_inconsistent \<and> \<not> rows_fit (rl_limits db)
    \<or> (\<exists>db'. process_account_limit_updates db = Inr db'
        \<and> (\<forall>a. get_account_limits db' a = get_account_limits db a)
        \<and> (\<forall>a. idx_find (rl_limits db') (True, a) = None) \<and> rl_usage db' = rl_usage db)"
proof (cases "process_pending (rl_state db) (rl_limits db)")
  case (Inl x)
  have i: "limits_inv (rl_state db) (rl_limits db)" using assms by (simp add: rl_inv_def)
  have "\<not> rows_fit (rl_limits db)" using process_pending_Inr [OF i] Inl by auto
  then show ?thesis using process_pending_Inl [OF i Inl] Inl by (simp add: process_account_limit_updates_def)
next
  case (Inr p)
  obtain st t where p: "process_pending (rl_state db) (rl_limits db) = Inr (st, t)" using Inr by (cases p) simp
  have ok: "idx_ok (rl_limits db)" using assms by (simp add: rl_inv_def limits_inv_def)
  have "get_account_limits (db\<lparr>rl_state := st, rl_limits := t\<rparr>) a = get_account_limits db a" for a
  proof -
    have "effective_limits t a = effective_limits (rl_limits db) a"
      using process_pending_effective [OF p ok] by simp
    then show ?thesis by (simp add: get_account_limits_eq)
  qed
  with p process_pending_effective [OF p ok] show ?thesis
    by (simp add: process_account_limit_updates_def)
qed

text \<open>Billing a transaction to at least one account adds its CPU and network usage to the usage of
  the block exactly, with no wrap-around, and leaves the block within its maximum.\<close>

theorem add_transaction_usage_block:
  assumes "add_transaction_usage cb db as cpu net slot = Inr db'" "as \<noteq> []"
    and "unat (pending_cpu_usage (rl_state db)) < 2 ^ 63" "unat (pending_net_usage (rl_state db)) < 2 ^ 63"
  shows "unat (pending_cpu_usage (rl_state db')) = unat (pending_cpu_usage (rl_state db)) + unat cpu
    \<and> unat (pending_net_usage (rl_state db')) = unat (pending_net_usage (rl_state db)) + unat net
    \<and> pending_cpu_usage (rl_state db') \<le> elp_max (cpu_limit_parameters (rl_config db))
    \<and> pending_net_usage (rl_state db') \<le> elp_max (net_limit_parameters (rl_config db))"
proof -
  from assms(1) obtain db1 where 1: "efold (bill_account cb cpu net slot) db as = Inr db1"
    and le: "pending_cpu_usage (rl_state db1) + cpu \<le> elp_max (cpu_limit_parameters (rl_config db1))"
      "pending_net_usage (rl_state db1) + net \<le> elp_max (net_limit_parameters (rl_config db1))"
    and st: "db' = db1\<lparr>rl_state := (rl_state db1)\<lparr>
      pending_cpu_usage := pending_cpu_usage (rl_state db1) + cpu,
      pending_net_usage := pending_net_usage (rl_state db1) + net\<rparr>\<rparr>"
    by (auto simp: add_transaction_usage_def Let_def)
  have same: "rl_state db1 = rl_state db \<and> rl_config db1 = rl_config db"
    by (rule efold_invariant [OF 1]) (auto simp: bill_account_def)
  obtain a as' where "as = a # as'" using assms(2) by (cases as) auto
  with 1 obtain u u' where "add_usage u (rl_config db) cpu net slot = Inr u'"
    by (auto simp: bill_account_def)
  then obtain x y x' y' w w' where "add x cpu slot w = Inr x'" "add y net slot w' = Inr y'"
    by (auto simp: add_usage_def)
  then have "unat cpu * 1000000 < 2 ^ 64" "unat net * 1000000 < 2 ^ 64"
    by (auto elim: add_cases)
  with assms(3,4) same le st show ?thesis by (simp add: unat_word_ariths)
qed

text \<open>\<^verbatim>\<open>set_account_limits\<close> is read back by \<^verbatim>\<open>get_account_limits\<close>, leaves every
  other account's limits as they were, and reports whether the RAM limit got tighter.\<close>

theorem set_account_limits_roundtrip:
  assumes "idx_ok (rl_limits db)" "set_account_limits db a ram net cpu = Inr (db', decreased)"
  shows "get_account_limits db' a = Inr \<lparr>net_weight = net, cpu_weight = cpu, ram_bytes = ram\<rparr>
    \<and> (\<forall>b. b \<noteq> a \<longrightarrow> get_account_limits db' b = get_account_limits db b)
    \<and> (\<exists>l0. get_account_limits db a = Inr l0 \<and>
         (decreased \<longleftrightarrow> ram \<ge> 0 \<and> (ram_bytes l0 < 0 \<or> ram < ram_bytes l0)))"
proof -
  obtain l0 where l0: "effective_limits (rl_limits db) a = Some l0"
    "idx_find (rl_limits db') = (idx_find (rl_limits db))
       ((True, a) \<mapsto> l0\<lparr>ram_bytes := ram, net_weight := net, cpu_weight := cpu\<rparr>)"
    "decreased \<longleftrightarrow> ram \<ge> 0 \<and> (ram_bytes l0 < 0 \<or> ram < ram_bytes l0)"
    by (rule set_account_limits_cases [OF assms(2)]) (use assms(1) in auto)
  then show ?thesis
    by (simp add: get_account_limits_eq effective_limits_def cong: option.case_cong)
qed

section \<open>The properties at work\<close>

text \<open>A database with one account whose limits have just been set, and an accumulator in use.\<close>

definition sample_acc :: usage_accumulator where
  "sample_acc = \<lparr>last_ordinal = 10, value_ex = 5000000, consumed = 7\<rparr>"

definition sample_db :: rl_db where
  "sample_db = initialize_database\<lparr>rl_limits := [((False, 1), new_resource_limits),
       ((True, 1), \<lparr>net_weight = 5, cpu_weight = 6, ram_bytes = 7\<rparr>)],
     rl_usage := [(1, new_resource_usage)]\<rparr>"

definition sample_new :: rl_db where
  "sample_new = projr (initialize_account initialize_database 1)"

lemma sample_new_eq: "initialize_account initialize_database 1 = Inr sample_new"
  by code_simp

lemma sample_db_eq: "set_account_limits sample_new 1 7 5 6 = Inr (sample_db, True)"
  by code_simp

lemma sample_reachable: "(rl_step cb)\<^sup>*\<^sup>* initialize_database sample_db"
proof -
  have "rl_step cb initialize_database sample_new"
    by (rule rl_step.initialize_account [OF sample_new_eq])
  moreover have "rl_step cb sample_new sample_db"
    by (rule rl_step.set_account_limits [OF _ _ _ sample_db_eq]) (simp_all add: in_i64_def)
  ultimately show ?thesis by simp
qed

lemma sample_inv: "rl_inv sample_db"
  using sample_reachable [of "\<lambda>_ _. 0"]
  by (induction rule: rtranclp_induct) (auto intro: rl_inv_init rl_step_inv)

theorem add_exact_witness:
  "\<exists>a'. add sample_acc 3 12 4 = Inr a' \<and> last_ordinal a' = 12
    \<and> unat (value_ex a') = 2500000 + 750000 \<and> unat (consumed a') = 3 + 3"
proof -
  let ?a' = "\<lparr>last_ordinal = 12, value_ex = 3250000, consumed = 6\<rparr>"
  have e: "add sample_acc 3 12 4 = Inr ?a'" by code_simp
  show ?thesis
    using add_exact [OF e] e by (intro exI [of _ ?a']) (simp add: decayed_def ceil_div_def sample_acc_def)
qed

theorem add_succeeds_witness: "\<exists>a'. add sample_acc 3 12 4 = Inr a'"
  by (rule add_succeeds) (simp_all add: sample_acc_def ceil_div_def)

theorem process_block_usage_bounds_witness:
  "\<exists>db'. process_block_usage sample_db 1 = Inr db' \<and> limits_within (rl_config db') (rl_state db')"
proof -
  have "\<not> isl (process_block_usage sample_db 1)" by code_simp
  then obtain db' where e: "process_block_usage sample_db 1 = Inr db'"
    by (cases "process_block_usage sample_db 1") auto
  have "params_ok (cpu_limit_parameters (rl_config sample_db))"
    "params_ok (net_limit_parameters (rl_config sample_db))"
    by (simp_all add: params_ok_def sample_db_def initialize_database_def default_config_def)
  from process_block_usage_bounds [OF e this] e show ?thesis by blast
qed

theorem add_pending_ram_usage_spec_witness:
  "add_pending_ram_usage sample_db 1 (- 5) = Inl transaction_exception"
proof -
  have "idx_find (rl_usage sample_db) 1 = Some new_resource_usage" by code_simp
  then show ?thesis
    using add_pending_ram_usage_spec [of "- 5" sample_db 1]
    by (simp add: in_i64_def new_resource_usage_def)
qed

theorem totals_invariant_witness: "rl_inv sample_db"
  by (rule totals_invariant [OF sample_reachable [of "\<lambda>_ _. 0"]])

lemma sample_rows_fit: "rows_fit (rl_limits sample_db)"
  unfolding rows_fit_def rows_total_def index.total_def by code_simp

theorem process_account_limit_updates_correct_witness:
  "\<exists>db'. process_account_limit_updates sample_db = Inr db'
    \<and> get_account_limits db' 1 = get_account_limits sample_db 1"
  using process_account_limit_updates_correct [OF sample_inv] sample_rows_fit by blast

theorem add_transaction_usage_block_witness:
  "\<exists>db'. add_transaction_usage (\<lambda>w k. 100) sample_db [1] 1000 200 1 = Inr db'
    \<and> unat (pending_cpu_usage (rl_state db')) = 1000"
proof -
  let ?r = "add_transaction_usage (\<lambda>w k. 100) sample_db [1] 1000 200 1"
  have "\<not> isl ?r" by code_simp
  then obtain db' where e: "?r = Inr db'" by (cases ?r) auto
  have "unat (pending_cpu_usage (rl_state sample_db)) = 0"
    "unat (pending_net_usage (rl_state sample_db)) = 0" by code_simp+
  with add_transaction_usage_block [OF e] e show ?thesis by simp
qed

theorem set_account_limits_roundtrip_witness:
  "get_account_limits sample_db 1 = Inr \<lparr>net_weight = 5, cpu_weight = 6, ram_bytes = 7\<rparr>"
proof -
  have "idx_ok (rl_limits sample_new)" by code_simp
  from set_account_limits_roundtrip [OF this sample_db_eq] show ?thesis by blast
qed

end
