(* ===== verification/Merkle.thy ===== *)
theory Merkle
  imports Prelude
begin

unbundle bit_operations_syntax

text \<open>
  Merkle roots: \<^verbatim>\<open>libraries/chain/merkle.cpp\<close> computes the root of a whole list of digests,
  \<^verbatim>\<open>libraries/chain/include/snax/chain/incremental_merkle.hpp\<close> keeps just enough nodes to
  append one digest at a time.  The hash of a pair (\<^verbatim>\<open>digest_type::hash\<close>, from the
  \<^verbatim>\<open>fc\<close> library) is the parameter \<open>H\<close>, on which nothing is assumed.  The main result is
  that the two agree: after appending the digests of a list one by one, the incremental tree holds
  the root the batch computation returns, and no append ever reads past its stored nodes.
\<close>

section \<open>Digests\<close>

datatype digest_type = Digest u64 u64 u64 u64

text \<open>Digests are keys of tables; any linear order will do, here that of the four words.\<close>

fun digest_words :: "digest_type \<Rightarrow> u64 \<times> u64 \<times> u64 \<times> u64" where
  "digest_words (Digest a b c d) = (a, b, c, d)"

instantiation digest_type :: linorder
begin

definition less_eq_digest_type :: "digest_type \<Rightarrow> digest_type \<Rightarrow> bool" where
  "less_eq_digest_type x y \<longleftrightarrow> digest_words x \<le> digest_words y"

definition less_digest_type :: "digest_type \<Rightarrow> digest_type \<Rightarrow> bool" where
  "less_digest_type x y \<longleftrightarrow> digest_words x < digest_words y"

instance
proof
  fix x y z :: digest_type
  show "x < y \<longleftrightarrow> x \<le> y \<and> \<not> y \<le> x"
    unfolding less_eq_digest_type_def less_digest_type_def by (rule less_le_not_le)
  show "x \<le> x" unfolding less_eq_digest_type_def by (rule order_refl)
  show "x \<le> y \<Longrightarrow> y \<le> z \<Longrightarrow> x \<le> z" unfolding less_eq_digest_type_def by (rule order_trans)
  have "digest_words x = digest_words y \<Longrightarrow> x = y" by (cases x; cases y) simp
  then show "x \<le> y \<Longrightarrow> y \<le> x \<Longrightarrow> x = y"
    unfolding less_eq_digest_type_def using order_antisym by blast
  show "x \<le> y \<or> y \<le> x" unfolding less_eq_digest_type_def by (rule linear)
qed

end

definition null_digest :: digest_type where
  "null_digest = Digest 0 0 0 0"

fun make_canonical_left :: "digest_type \<Rightarrow> digest_type" where
  "make_canonical_left (Digest a b c d) = Digest (a AND 0xFFFFFFFFFFFFFF7F) b c d"

fun make_canonical_right :: "digest_type \<Rightarrow> digest_type" where
  "make_canonical_right (Digest a b c d) = Digest (a OR 0x0000000000000080) b c d"

fun is_canonical_left :: "digest_type \<Rightarrow> bool" where
  "is_canonical_left (Digest a b c d) \<longleftrightarrow> a AND 0x0000000000000080 = 0"

fun is_canonical_right :: "digest_type \<Rightarrow> bool" where
  "is_canonical_right (Digest a b c d) \<longleftrightarrow> a AND 0x0000000000000080 \<noteq> 0"

definition make_canonical_pair :: "digest_type \<Rightarrow> digest_type \<Rightarrow> digest_type \<times> digest_type" where
  "make_canonical_pair l r = (make_canonical_left l, make_canonical_right r)"

section \<open>The root of a list\<close>

type_synonym pair_hash = "digest_type \<times> digest_type \<Rightarrow> digest_type"

text \<open>One round of the loop of \<^verbatim>\<open>merkle\<close>: the row is overwritten in place, then cut in
  half.\<close>

definition merkle_level :: "pair_hash \<Rightarrow> digest_type list \<Rightarrow> digest_type list" where
  "merkle_level H ids =
    (let ids = (if length ids mod 2 \<noteq> 0 then ids @ [last ids] else ids);
         n = length ids div 2
     in take n (fold (\<lambda>i ids. ids[i := H (make_canonical_pair (ids ! (2 * i)) (ids ! (2 * i + 1)))])
          [0..<n] ids))"

lemma length_fold_update: "length (fold (\<lambda>i ids. ids[i := f i ids]) is ids) = length ids"
  by (induction "is" arbitrary: ids) auto

lemma length_merkle_level: "length (merkle_level H ids) = (length ids + 1) div 2"
  by (simp add: merkle_level_def Let_def length_fold_update)
    (presburger)

function merkle_loop :: "pair_hash \<Rightarrow> digest_type list \<Rightarrow> digest_type list" where
  "merkle_loop H ids = (if length ids > 1 then merkle_loop H (merkle_level H ids) else ids)"
  by pat_completeness auto

termination merkle_loop
  by (relation "measure (\<lambda>(H, ids). length ids)") (auto simp: length_merkle_level)

declare merkle_loop.simps [simp del]

definition merkle :: "pair_hash \<Rightarrow> digest_type list \<Rightarrow> digest_type" where
  "merkle H ids = (if length ids = 0 then null_digest else hd (merkle_loop H ids))"

section \<open>The incremental tree\<close>

definition next_power_of_2 :: "u64 \<Rightarrow> u64" where
  "next_power_of_2 value =
    (let v = value - 1;
         v = v OR drop_bit 1 v;
         v = v OR drop_bit 2 v;
         v = v OR drop_bit 4 v;
         v = v OR drop_bit 8 v;
         v = v OR drop_bit 16 v;
         v = v OR drop_bit 32 v
     in v + 1)"

definition clz_power_2 :: "u64 \<Rightarrow> int" where
  "clz_power_2 value =
    64 - (if value \<noteq> 0 then 1 else 0)
       - (if value AND 0x00000000FFFFFFFF \<noteq> 0 then 32 else 0)
       - (if value AND 0x0000FFFF0000FFFF \<noteq> 0 then 16 else 0)
       - (if value AND 0x00FF00FF00FF00FF \<noteq> 0 then 8 else 0)
       - (if value AND 0x0F0F0F0F0F0F0F0F \<noteq> 0 then 4 else 0)
       - (if value AND 0x3333333333333333 \<noteq> 0 then 2 else 0)
       - (if value AND 0x5555555555555555 \<noteq> 0 then 1 else 0)"

definition calcluate_max_depth :: "u64 \<Rightarrow> int" where
  "calcluate_max_depth node_count =
    (if node_count = 0 then 0 else clz_power_2 (next_power_of_2 node_count) + 1)"

record incremental_merkle =
  node_count :: u64
  active_nodes :: "digest_type list"

definition new_incremental_merkle :: incremental_merkle where
  "new_incremental_merkle = \<lparr>node_count = 0, active_nodes = []\<rparr>"

text \<open>
  The loop of \<^verbatim>\<open>append\<close>.  Its state is the depth left to climb, the index of the node on the
  current level, whether the node is partial, the node itself, the old active nodes not read yet,
  and the new ones.  \<^term>\<open>None\<close> is a read past the end of the old active nodes.
\<close>

fun append_loop ::
  "pair_hash \<Rightarrow> nat \<Rightarrow> u64 \<Rightarrow> bool \<Rightarrow> digest_type \<Rightarrow> digest_type list \<Rightarrow> digest_type list \<Rightarrow>
   (digest_type \<times> digest_type list) option" where
  "append_loop H 0 index partial top_node active_iter updated = Some (top_node, updated)"
| "append_loop H (Suc depth) index partial top_node active_iter updated =
    (if index AND 1 = 0 then
       append_loop H depth (drop_bit 1 index) True (H (make_canonical_pair top_node top_node)) active_iter
         (if partial then updated else updated @ [top_node])
     else
       case active_iter of
         [] \<Rightarrow> None
       | left_value # active_iter \<Rightarrow>
           append_loop H depth (drop_bit 1 index) partial (H (make_canonical_pair left_value top_node))
             active_iter (if partial then updated @ [left_value] else updated))"

definition append_node ::
  "pair_hash \<Rightarrow> incremental_merkle \<Rightarrow> digest_type \<Rightarrow> (incremental_merkle \<times> digest_type) option" where
  "append_node H t digest =
    (let max_depth = calcluate_max_depth (node_count t + 1)
     in case append_loop H (nat (max_depth - 1)) (node_count t) False digest (active_nodes t) [] of
          None \<Rightarrow> None
        | Some (top_node, updated) \<Rightarrow>
            Some (\<lparr>node_count = node_count t + 1, active_nodes = updated @ [top_node]\<rparr>,
                  last (updated @ [top_node])))"

definition get_root :: "incremental_merkle \<Rightarrow> digest_type" where
  "get_root t = (if node_count t > 0 then last (active_nodes t) else null_digest)"

text \<open>Appending a list of digests, one by one.\<close>

fun append_all :: "pair_hash \<Rightarrow> incremental_merkle \<Rightarrow> digest_type list \<Rightarrow> incremental_merkle option" where
  "append_all H t [] = Some t"
| "append_all H t (d # ds) =
    (case append_node H t d of None \<Rightarrow> None | Some (t', _) \<Rightarrow> append_all H t' ds)"


section \<open>The depth of the tree\<close>

lemma bit_smear_step:
  fixes v w :: u64
  assumes "\<And>i. bit w i \<longleftrightarrow> (\<exists>j<m. bit v (i + j))" "m' = 2 * m"
  shows "bit (w OR drop_bit m w) i \<longleftrightarrow> (\<exists>j<m'. bit v (i + j))"
proof -
  have "bit (w OR drop_bit m w) i \<longleftrightarrow> (\<exists>j<m. bit v (i + j)) \<or> (\<exists>j<m. bit v (i + m + j))"
    by (simp add: bit_or_iff bit_drop_bit_eq assms(1) add.commute add.left_commute)
  also have "\<dots> \<longleftrightarrow> (\<exists>j<2 * m. bit v (i + j))"
  proof
    assume "(\<exists>j<m. bit v (i + j)) \<or> (\<exists>j<m. bit v (i + m + j))"
    then consider j where "j < m" "bit v (i + j)" | j where "j < m" "bit v (i + m + j)" by blast
    then show "\<exists>j<2 * m. bit v (i + j)"
    proof cases
      case 1
      then show ?thesis by (intro exI [of _ j]) simp
    next
      case 2
      then show ?thesis by (intro exI [of _ "m + j"]) (simp add: add.assoc)
    qed
  next
    assume "\<exists>j<2 * m. bit v (i + j)"
    then obtain j where j: "j < 2 * m" "bit v (i + j)" by blast
    show "(\<exists>j<m. bit v (i + j)) \<or> (\<exists>j<m. bit v (i + m + j))"
    proof (cases "j < m")
      case False
      then have "j - m < m" "bit v (i + m + (j - m))" using j by auto
      then show ?thesis by blast
    qed (use j in blast)
  qed
  finally show ?thesis by (simp add: assms(2))
qed

definition smear :: "u64 \<Rightarrow> u64" where
  "smear v = (let v = v OR drop_bit 1 v; v = v OR drop_bit 2 v; v = v OR drop_bit 4 v;
     v = v OR drop_bit 8 v; v = v OR drop_bit 16 v in v OR drop_bit 32 v)"

lemma bit_smear: "bit (smear v) i \<longleftrightarrow> (\<exists>j<64. bit v (i + j))"
proof -
  have 1: "bit v i \<longleftrightarrow> (\<exists>j<1. bit v (i + j))" for i by simp
  note 2 = bit_smear_step [OF 1, of 2, simplified]
  note 4 = bit_smear_step [OF 2, of 4, simplified]
  note 8 = bit_smear_step [OF 4, of 8, simplified]
  note 16 = bit_smear_step [OF 8, of 16, simplified]
  note 32 = bit_smear_step [OF 16, of 32, simplified]
  note 64 = bit_smear_step [OF 32, of 64, simplified]
  show ?thesis unfolding smear_def Let_def using 64 by simp
qed

lemma highest_bit:
  assumes "(x :: nat) > 0"
  obtains k where "2 ^ k \<le> x" "x < 2 ^ Suc k"
proof -
  define k where "k = (LEAST k. x < 2 ^ Suc k)"
  have ex: "\<exists>k. x < 2 ^ Suc k" 
    by (intro exI [of _ x] order_less_le_trans [OF less_exp]) simp
  then have lt: "x < 2 ^ Suc k" unfolding k_def by (rule LeastI_ex)
  have "2 ^ k \<le> x"
  proof (cases k)
    case 0
    with assms show ?thesis by simp
  next
    case (Suc j)
    then have "\<not> x < 2 ^ Suc j" unfolding k_def using not_less_Least lessI by metis
    with Suc show ?thesis by simp
  qed
  with lt show thesis by (rule that [rotated])
qed

lemma bit_word_unat: "bit (w :: 'a::len word) i \<longleftrightarrow> odd (unat w div 2 ^ i)"
  by (simp add: bit_iff_odd [symmetric] bit_unsigned_iff bit_imp_le_length)

lemma smear_eq_mask:
  assumes "2 ^ k \<le> unat v" "unat v < 2 ^ Suc k"
  shows "smear v = mask (Suc k)"
proof (rule bit_word_eqI)
  fix i assume "i < LENGTH(64)"
  have top_bit: "bit v k"
  proof -
    have "unat v div 2 ^ k = 1"
      using assms by (intro div_nat_eqI) simp_all
    then show ?thesis by (simp add: bit_word_unat)
  qed
  have none: "\<not> bit v j" if "j > k" for j
  proof -
    have "unat v < 2 ^ j" using assms(2) that power_increasing [of "Suc k" j "2 :: nat"] by simp
    then show ?thesis by (simp add: bit_word_unat)
  qed
  have "k < 64" using top_bit bit_imp_le_length by fastforce
  then have "bit (smear v) i \<longleftrightarrow> i \<le> k"
  proof (cases "i \<le> k")
    case True
    then have "k - i < 64" "bit v (i + (k - i))" using \<open>k < 64\<close> top_bit by simp_all
    with True show ?thesis unfolding bit_smear by blast
  next
    case False
    then show ?thesis unfolding bit_smear using none by auto
  qed
  then show "bit (smear v) i \<longleftrightarrow> bit (mask (Suc k) :: u64) i"
    using \<open>i < LENGTH(64)\<close> by (simp add: bit_mask_iff less_Suc_eq_le)
qed

lemma next_power_of_2_correct:
  assumes "0 < n" "n \<le> 2 ^ 63"
  obtains D where "next_power_of_2 (of_nat n) = push_bit D 1" "D < 64" "n \<le> 2 ^ D"
    "D = 0 \<or> 2 ^ (D - 1) < n"
proof -
  have np: "next_power_of_2 (of_nat n) = smear (of_nat n - 1) + 1"
    by (simp add: next_power_of_2_def smear_def Let_def)
  have v: "unat (of_nat n - 1 :: u64) = n - 1"
  proof -
    have "(of_nat n - 1 :: u64) = of_nat (n - 1)" using assms(1) by (simp add: of_nat_diff)
    then show ?thesis using assms(2) by (simp add: unat_of_nat)
  qed
  show thesis
  proof (cases "n = 1")
    case True
    moreover have "next_power_of_2 1 = push_bit 0 1" by code_simp
    ultimately show thesis by (intro that [of 0]) simp_all
  next
    case False
    with assms(1) have "n - 1 > 0" by simp
    then obtain k where k: "2 ^ k \<le> n - 1" "n - 1 < 2 ^ Suc k" by (rule highest_bit)
    then have "(2::nat) ^ k < 2 ^ 63" using assms by linarith
    then have "k < 63" by (simp only: power_strict_increasing_iff)
    moreover have "smear (of_nat n - 1) = mask (Suc k)" by (rule smear_eq_mask) (simp_all only: v k)
    then have "next_power_of_2 (of_nat n) = push_bit (Suc k) 1"
      by (simp add: np mask_eq_exp_minus_1)
    ultimately show thesis using k False assms(1) by (intro that [of "Suc k"]) auto
  qed
qed

lemma upt_64: "[0..<64] =
    [0, 1, 2, 3, 4, 5, 6, 7, 8, 9, 10, 11, 12, 13, 14, 15, 16, 17, 18, 19, 20, 21, 22, 23, 24,
    25, 26, 27, 28, 29, 30, 31, 32, 33, 34, 35, 36, 37, 38, 39, 40, 41, 42, 43, 44, 45, 46,
    47, 48, 49, 50, 51, 52, 53, 54, 55, 56, 57, 58, 59, 60, 61, 62, 63 :: nat]"
  by (simp add: upt_rec)

lemma clz_power_2_table: "list_all (\<lambda>k. clz_power_2 (push_bit k 1) = int k) [0..<64]"
  unfolding upt_64 list.pred_inject
  by (intro conjI) (simp_all add: clz_power_2_def)

lemma calcluate_max_depth_correct:
  assumes "0 < n" "n \<le> 2 ^ 63"
  obtains D where "calcluate_max_depth (of_nat n) = int D + 1" "n \<le> 2 ^ D"
    "D = 0 \<or> 2 ^ (D - 1) < n"
proof -
  have "(of_nat n :: u64) \<noteq> 0"
    using assms by (simp add: unat_eq_0 [symmetric] unat_of_nat)
  moreover obtain D where D: "next_power_of_2 (of_nat n) = push_bit D 1" "D < 64" "n \<le> 2 ^ D"
    "D = 0 \<or> 2 ^ (D - 1) < n" by (rule next_power_of_2_correct [OF assms])
  moreover have "clz_power_2 (push_bit D 1) = int D"
    using clz_power_2_table D(2) by (simp only: list_all_iff set_upt) simp
  ultimately show thesis by (intro that [of D]) (simp_all add: calcluate_max_depth_def)
qed

section \<open>The nodes of a level\<close>

text \<open>
  \<open>pairs\<close> combines the complete pairs of a level; \<open>up\<close> is the next level, where an odd last node
  is combined with itself; \<open>full_nodes\<close> lists, from the leaves up, the roots of the maximal complete
  subtrees: what the incremental tree must remember.
\<close>

definition combine :: "pair_hash \<Rightarrow> digest_type \<Rightarrow> digest_type \<Rightarrow> digest_type" where
  "combine H l r = H (make_canonical_pair l r)"

fun pairs :: "pair_hash \<Rightarrow> digest_type list \<Rightarrow> digest_type list" where
  "pairs H (x # y # zs) = combine H x y # pairs H zs"
| "pairs H _ = []"

fun up :: "pair_hash \<Rightarrow> digest_type list \<Rightarrow> digest_type list" where
  "up H (x # y # zs) = combine H x y # up H zs"
| "up H [x] = [combine H x x]"
| "up H [] = []"

lemma length_pairs [simp]: "length (pairs H xs) = length xs div 2"
  by (induction H xs rule: pairs.induct) auto

lemma length_up: "length (up H xs) = (length xs + 1) div 2"
  by (induction H xs rule: up.induct) auto

function full_nodes :: "pair_hash \<Rightarrow> digest_type list \<Rightarrow> digest_type list" where
  "full_nodes H xs = (if xs = [] then [] else
     (if odd (length xs) then [last xs] else []) @ full_nodes H (pairs H xs))"
  by pat_completeness auto
termination full_nodes
  by (relation "measure (\<lambda>(H, xs). length xs)") auto

declare full_nodes.simps [simp del]

lemma full_nodes_Nil [simp]: "full_nodes H [] = []"
  by (simp add: full_nodes.simps)

lemma full_nodes_odd: "odd (length xs) \<Longrightarrow> full_nodes H xs = last xs # full_nodes H (pairs H xs)"
  by (subst full_nodes.simps) auto

lemma full_nodes_even: "even (length xs) \<Longrightarrow> full_nodes H xs = full_nodes H (pairs H xs)"
  by (subst full_nodes.simps) auto

lemma pairs_snoc_even: "even (length xs) \<Longrightarrow> pairs H (xs @ [t]) = pairs H xs"
  by (induction H xs rule: pairs.induct) auto

lemma pairs_snoc_odd:
  "odd (length xs) \<Longrightarrow> pairs H (xs @ [t]) = pairs H xs @ [combine H (last xs) t]"
  by (induction H xs rule: pairs.induct) (auto split: if_splits)

lemma up_snoc_even: "even (length xs) \<Longrightarrow> up H (xs @ [t]) = pairs H xs @ [combine H t t]"
  by (induction H xs rule: pairs.induct) auto

lemma up_snoc_odd: "odd (length xs) \<Longrightarrow> up H (xs @ [t]) = pairs H xs @ [combine H (last xs) t]"
  by (induction H xs rule: pairs.induct) auto

lemma index_low_bit: "(w AND 1 = 0) \<longleftrightarrow> even (unat w)" for w :: u64
  by (simp add: and_one_eq even_iff_mod_2_eq_zero unat_mod [symmetric] flip: unat_eq_0)
    (simp add: unat_mod)

lemma unat_half: "unat (drop_bit (Suc 0) w) = unat w div 2" for w :: u64
  by (simp add: drop_bit_eq_div unat_div)

lemma append_loop_correct:
  assumes "length xs < 2 ^ d" "unat index = length xs"
  shows "\<exists>U t'. append_loop H d index partial t (full_nodes H xs @ rest) upd = Some (t', upd @ U)
    \<and> (up H ^^ d) (xs @ [t]) = [t']
    \<and> (if partial then U = full_nodes H xs else \<exists>rest'. U @ [t'] = full_nodes H (xs @ [t]) @ rest')"
  using assms
proof (induction d arbitrary: xs index partial t upd)
  case 0
  then show ?case by (simp add: full_nodes_odd)
next
  case (Suc d)
  have idx: "unat (drop_bit 1 index) = length (pairs H xs)"
    using Suc.prems(2) by (simp add: unat_half)
  have len: "length (pairs H xs) < 2 ^ d" using Suc.prems(1) by auto
  note IH = Suc.IH [OF len idx]
  show ?case
  proof (cases "even (length xs)")
    case True
    let ?t = "combine H t t"
    obtain U t' where *: "append_loop H d (drop_bit 1 index) True ?t (full_nodes H (pairs H xs) @ rest)
        (if partial then upd else upd @ [t]) = Some (t', (if partial then upd else upd @ [t]) @ U)"
      "(up H ^^ d) (pairs H xs @ [?t]) = [t']" "U = full_nodes H (pairs H xs)"
      using IH [of True ?t "if partial then upd else upd @ [t]"] by auto
    have "append_loop H (Suc d) index partial t (full_nodes H xs @ rest) upd =
        Some (t', upd @ (if partial then U else t # U))"
      using True * Suc.prems(2) by (simp add: index_low_bit full_nodes_even combine_def)
    moreover have "(up H ^^ Suc d) (xs @ [t]) = [t']"
      using True * by (simp add: funpow_Suc_right up_snoc_even del: funpow.simps)
    moreover have "full_nodes H (xs @ [t]) = t # full_nodes H (pairs H xs)"
      using True by (simp add: full_nodes_odd pairs_snoc_even)
    ultimately show ?thesis
      using * True by (intro exI [of _ "if partial then U else t # U"] exI [of _ t'])
        (simp add: full_nodes_even)
  next
    case False
    let ?t = "combine H (last xs) t"
    obtain U t' where *: "append_loop H d (drop_bit 1 index) partial ?t (full_nodes H (pairs H xs) @ rest)
        (if partial then upd @ [last xs] else upd)
          = Some (t', (if partial then upd @ [last xs] else upd) @ U)"
      "(up H ^^ d) (pairs H xs @ [?t]) = [t']"
      "if partial then U = full_nodes H (pairs H xs)
       else \<exists>rest'. U @ [t'] = full_nodes H (pairs H xs @ [?t]) @ rest'"
      using IH [of partial ?t] by blast
    have "append_loop H (Suc d) index partial t (full_nodes H xs @ rest) upd =
        Some (t', upd @ (if partial then last xs # U else U))"
      using False * Suc.prems(2) by (simp add: index_low_bit full_nodes_odd combine_def)
    moreover have "(up H ^^ Suc d) (xs @ [t]) = [t']"
      using False * by (simp add: funpow_Suc_right up_snoc_odd del: funpow.simps)
    moreover have "full_nodes H (xs @ [t]) = full_nodes H (pairs H xs @ [?t])"
      using False by (simp add: full_nodes_even pairs_snoc_odd)
    ultimately show ?thesis
      using * False by (intro exI [of _ "if partial then last xs # U else U"] exI [of _ t'])
        (simp add: full_nodes_odd)
  qed
qed


section \<open>The two computations agree\<close>

lemma fold_pairs_prefix:
  assumes "2 * n \<le> length xs"
  shows "fold (\<lambda>i ids. ids[i := combine H (ids ! (2 * i)) (ids ! (2 * i + 1))]) [0..<n] xs
    = map (\<lambda>i. combine H (xs ! (2 * i)) (xs ! (2 * i + 1))) [0..<n] @ drop n xs"
  using assms
proof (induction n)
  case (Suc n)
  let ?m = "map (\<lambda>i. combine H (xs ! (2 * i)) (xs ! (2 * i + 1))) [0..<n]"
  have nth: "(?m @ drop n xs) ! k = xs ! k" if "n \<le> k" "k < length xs" for k
    using that by (simp add: nth_append)
  have "(?m @ drop n xs)[n := v] = ?m @ v # drop (Suc n) xs" for v
  proof -
    have "drop n xs = xs ! n # drop (Suc n) xs"
      using Suc.prems by (simp add: Cons_nth_drop_Suc)
    then show ?thesis by (simp add: list_update_append)
  qed
  with Suc nth [of "2 * n"] nth [of "2 * n + 1"] show ?case by simp
qed simp

lemma up_even_nth:
  "even (length xs) \<Longrightarrow>
    up H xs = map (\<lambda>i. combine H (xs ! (2 * i)) (xs ! (2 * i + 1))) [0..<length xs div 2]"
proof (induction H xs rule: up.induct)
  case (1 H x y zs)
  then show ?case
    by (simp add: upt_conv_Cons map_Suc_upt [symmetric] del: upt_Suc)
qed auto

lemma up_odd_dup: "odd (length xs) \<Longrightarrow> up H xs = up H (xs @ [last xs])"
  by (induction H xs rule: up.induct) auto

lemma merkle_level_eq_up: "xs \<noteq> [] \<Longrightarrow> merkle_level H xs = up H xs"
proof -
  assume "xs \<noteq> []"
  define ys where "ys = (if length xs mod 2 \<noteq> 0 then xs @ [last xs] else xs)"
  have even: "even (length ys)" by (auto simp: ys_def odd_iff_mod_2_eq_one [symmetric])
  have "merkle_level H xs = take (length ys div 2)
      (fold (\<lambda>i ids. ids[i := combine H (ids ! (2 * i)) (ids ! (2 * i + 1))]) [0..<length ys div 2] ys)"
    by (simp add: merkle_level_def ys_def Let_def combine_def)
  also have "\<dots> = up H ys"
    using even by (subst fold_pairs_prefix) (auto simp: up_even_nth)
  also have "\<dots> = up H xs"
    using up_odd_dup [of xs H] by (auto simp: ys_def odd_iff_mod_2_eq_one)
  finally show ?thesis .
qed

lemma merkle_loop_up:
  assumes "0 < length xs" "length xs \<le> 2 ^ D" "D = 0 \<or> 2 ^ (D - 1) < length xs"
  shows "merkle_loop H xs = (up H ^^ D) xs"
  using assms
proof (induction D arbitrary: xs)
  case 0
  then show ?case by (simp add: merkle_loop.simps)
next
  case (Suc D)
  then have two: "1 < length xs"
    using one_le_power [of 2 D] by simp
  then have "merkle_loop H xs = merkle_loop H (up H xs)"
    by (subst merkle_loop.simps) (simp add: merkle_level_eq_up flip: length_greater_0_conv)
  also have "\<dots> = (up H ^^ D) (up H xs)"
  proof (rule Suc.IH)
    show "0 < length (up H xs)" using two by (simp add: length_up)
    show "length (up H xs) \<le> 2 ^ D" using Suc.prems(2) by (simp add: length_up)
    show "D = 0 \<or> 2 ^ (D - 1) < length (up H xs)"
      using Suc.prems(3) by (cases D) (auto simp: length_up)
  qed
  finally show ?case by (simp add: funpow_swap1)
qed

definition tree_of :: "pair_hash \<Rightarrow> digest_type list \<Rightarrow> incremental_merkle \<Rightarrow> bool" where
  "tree_of H xs t \<longleftrightarrow> node_count t = of_nat (length xs)
    \<and> (\<exists>rest. active_nodes t = full_nodes H xs @ rest)
    \<and> (xs \<noteq> [] \<longrightarrow> active_nodes t \<noteq> [] \<and> last (active_nodes t) = merkle H xs)"

lemma append_node_correct:
  assumes "tree_of H xs t" "length xs < 2 ^ 63"
  shows "\<exists>t'. append_node H t d = Some (t', merkle H (xs @ [d])) \<and> tree_of H (xs @ [d]) t'"
proof -
  from assms obtain rest where a: "active_nodes t = full_nodes H xs @ rest"
    and n: "node_count t = of_nat (length xs)" by (auto simp: tree_of_def)
  obtain D where D: "calcluate_max_depth (of_nat (length xs + 1)) = int D + 1"
    "length xs + 1 \<le> 2 ^ D" "D = 0 \<or> 2 ^ (D - 1) < length xs + 1"
    by (rule calcluate_max_depth_correct [of "length xs + 1"]) (use assms(2) in auto)
  have "length xs < 2 ^ D" "unat (node_count t) = length xs"
    using D(2) n assms(2) by (simp_all add: unat_of_nat)
  from append_loop_correct [OF this, of H False d rest "[]"] obtain U t' rest' where
    loop: "append_loop H D (node_count t) False d (active_nodes t) [] = Some (t', U)"
    and root: "(up H ^^ D) (xs @ [d]) = [t']" and U: "U @ [t'] = full_nodes H (xs @ [d]) @ rest'"
    by (auto simp: a)
  have "merkle H (xs @ [d]) = t'"
    using merkle_loop_up [of "xs @ [d]" D H] D root by (simp add: merkle_def)
  moreover have "append_node H t d = Some (\<lparr>node_count = node_count t + 1, active_nodes = U @ [t']\<rparr>, t')"
    using loop D(1) by (simp add: append_node_def n add.commute)
  moreover have "last (full_nodes H (xs @ [d]) @ rest') = t'" "full_nodes H (xs @ [d]) @ rest' \<noteq> []"
    by (simp_all flip: U)
  ultimately show ?thesis
    using U by (auto simp: tree_of_def n)
qed

text \<open>C26. For every pair hash and every list of at most $2^{63}$ digests: appending them one by one to an
  empty incremental tree never reads past the stored nodes, counts them, and ends with the root that
  the batch computation \<^verbatim>\<open>merkle\<close> returns for the whole list.\<close>

theorem incremental_root_eq_merkle:
  assumes "length ids \<le> 2 ^ 63"
  shows "\<exists>t. append_all H new_incremental_merkle ids = Some t \<and> get_root t = merkle H ids
    \<and> node_count t = of_nat (length ids)"
proof -
  have "\<exists>t. append_all H t0 ys = Some t \<and> tree_of H (xs @ ys) t"
    if "tree_of H xs t0" "length xs + length ys \<le> 2 ^ 63" for xs ys t0
    using that
  proof (induction ys arbitrary: xs t0)
    case (Cons y ys)
    then obtain t1 where t1: "append_node H t0 y = Some (t1, merkle H (xs @ [y]))" "tree_of H (xs @ [y]) t1"
      using append_node_correct [of H xs t0 y] by auto
    with Cons.IH [OF t1(2)] Cons.prems show ?case by simp
  qed simp
  from this [of "[]" new_incremental_merkle ids] assms obtain t
    where "append_all H new_incremental_merkle ids = Some t" "tree_of H ids t"
    by (auto simp: tree_of_def new_incremental_merkle_def)
  moreover have "(of_nat (length ids) :: u64) = 0 \<longleftrightarrow> ids = []"
    using assms by (simp add: unat_eq_0 [symmetric] unat_of_nat)
  ultimately show ?thesis
    by (auto simp: tree_of_def get_root_def merkle_def word_gt_0)
qed
text \<open>\<^verbatim>\<open>calcluate_max_depth\<close> returns one more than the least depth at which a binary tree
  has room for the nodes; its bit tricks are right for every count from 1 to $2^{63}$.\<close>

theorem calcluate_max_depth_minimal:
  assumes "0 < n" "n \<le> 2 ^ 63"
  shows "calcluate_max_depth (of_nat n) = int (LEAST D. n \<le> 2 ^ D) + 1"
proof -
  obtain D where D: "calcluate_max_depth (of_nat n) = int D + 1" "n \<le> 2 ^ D"
    "D = 0 \<or> 2 ^ (D - 1) < n" by (rule calcluate_max_depth_correct [OF assms])
  have "(LEAST D. n \<le> 2 ^ D) = D"
  proof (rule Least_equality [of "\<lambda>D. n \<le> 2 ^ D", OF D(2)])
    fix E assume E: "n \<le> 2 ^ E"
    show "D \<le> E"
    proof (rule ccontr)
      assume "\<not> D \<le> E"
      then have "(2::nat) ^ E \<le> 2 ^ (D - 1)" "D \<noteq> 0" by (simp_all add: power_increasing)
      with D(3) E show False by linarith
    qed
  qed
  with D(1) show ?thesis by simp
qed

text \<open>On a power of two \<^verbatim>\<open>clz_power_2\<close> returns its exponent: the number of zeros below the
  bit, which is 63 minus the number of leading zeros that its comment promises.\<close>

theorem clz_power_2_exponent: "k < 64 \<Longrightarrow> clz_power_2 (push_bit k 1) = int k"
  using clz_power_2_table by (simp only: list_all_iff set_upt) simp

lemma append_loop_length:
  "append_loop H d index partial t active upd = Some (t', upd') \<Longrightarrow> length upd' \<le> length upd + d"
  by (induction H d index partial t active upd rule: append_loop.induct)
    (fastforce split: if_splits list.splits)+

text \<open>The incremental tree never stores more nodes than the depth it reserves room for: at most
  \<^verbatim>\<open>calcluate_max_depth\<close> of the new count.\<close>

theorem active_nodes_bound:
  assumes "append_node H t d = Some (t', root)" "node_count t + 1 \<noteq> 0"
  shows "int (length (active_nodes t')) \<le> calcluate_max_depth (node_count t + 1)
    \<and> root = last (active_nodes t')"
proof -
  let ?m = "calcluate_max_depth (node_count t + 1)"
  from assms(1) obtain t1 upd where
    "append_loop H (nat (?m - 1)) (node_count t) False d (active_nodes t) [] = Some (t1, upd)"
    and t': "active_nodes t' = upd @ [t1]" "root = last (upd @ [t1])"
    by (auto simp: append_node_def Let_def split: option.splits)
  then have "length upd \<le> nat (?m - 1)" using append_loop_length by fastforce
  moreover have "1 \<le> ?m" using assms(2) by (simp add: calcluate_max_depth_def clz_power_2_def)
  ultimately show ?thesis using t' by simp
qed

text \<open>The two canonical forms keep a left and a right node apart: they differ in the marker bit of
  the first word, so no digest is canonical on both sides and the forms are idempotent.\<close>

theorem canonical_sides:
  "is_canonical_left (make_canonical_left d) \<and> is_canonical_right (make_canonical_right d)
   \<and> \<not> (is_canonical_left d \<and> is_canonical_right d)
   \<and> make_canonical_left l \<noteq> make_canonical_right r
   \<and> make_canonical_left (make_canonical_left d) = make_canonical_left d
   \<and> make_canonical_right (make_canonical_right d) = make_canonical_right d"
proof -
  have mask: "(0xFFFFFFFFFFFFFF7F :: u64) AND 0x80 = 0" by simp
  have l: "is_canonical_left (make_canonical_left e)" for e
    by (cases e) (simp add: and.assoc mask)
  have r: "is_canonical_right (make_canonical_right e)" for e
  proof (cases e)
    case (Digest a b c d)
    have "(a OR 0x80) AND 0x80 = 0x80" by (rule bit_word_eqI) (auto simp: bit_or_iff bit_and_iff)
    with Digest show ?thesis by simp
  qed
  have ex: "\<not> (is_canonical_left e \<and> is_canonical_right e)" for e by (cases e) simp
  have "make_canonical_left l \<noteq> make_canonical_right r"
    using l [of l] r [of r] ex by metis
  moreover have "make_canonical_left (make_canonical_left d) = make_canonical_left d"
    by (cases d) (simp add: and.assoc)
  moreover have "make_canonical_right (make_canonical_right d) = make_canonical_right d"
    by (cases d) (simp add: or.assoc)
  ultimately show ?thesis using l r ex by simp
qed

section \<open>The properties at work\<close>

text \<open>A pair hash to compute with.\<close>

fun sample_hash :: pair_hash where
  "sample_hash (Digest a b c d, Digest e f g h) = Digest (3 * a + e) (5 * b + f) (c + 7 * g) (d + h + 1)"

definition sample_ids :: "digest_type list" where
  "sample_ids = [Digest 1 2 3 4, Digest 5 6 7 8, Digest 9 10 11 12, Digest 130 0 1 1, Digest 7 7 7 7]"

theorem incremental_root_eq_merkle_witness:
  "\<exists>t. append_all sample_hash new_incremental_merkle sample_ids = Some t
    \<and> get_root t = merkle sample_hash sample_ids \<and> node_count t = 5"
  using incremental_root_eq_merkle [of sample_ids sample_hash] by (simp add: sample_ids_def)

theorem calcluate_max_depth_minimal_witness: "calcluate_max_depth 5 = int (LEAST D. 5 \<le> (2::nat) ^ D) + 1"
  using calcluate_max_depth_minimal [of 5] by simp

theorem clz_power_2_exponent_witness: "clz_power_2 (push_bit 40 1) = 40"
  using clz_power_2_exponent [of 40] by simp

theorem active_nodes_bound_witness:
  "\<exists>t root. append_node sample_hash \<lparr>node_count = 2, active_nodes = [Digest 1 2 3 4]\<rparr> (Digest 9 9 9 9)
      = Some (t, root) \<and> int (length (active_nodes t)) \<le> 3"
proof -
  let ?t = "\<lparr>node_count = 2, active_nodes = [Digest 1 2 3 4]\<rparr>"
  have "append_node sample_hash ?t (Digest 9 9 9 9) \<noteq> None" by code_simp
  then obtain t root where e: "append_node sample_hash ?t (Digest 9 9 9 9) = Some (t, root)" by auto
  have "calcluate_max_depth (node_count ?t + 1) = 3" by code_simp
  with active_nodes_bound [OF e] e show ?thesis by auto
qed


end
