(* ===== verification/Authority.thy ===== *)
theory Authority
  imports Object_Index "HOL-Library.Multiset"
begin

text \<open>
  Authorities and the authority checker: \<^verbatim>\<open>authority.hpp\<close> and
  \<^verbatim>\<open>authority_checker.hpp\<close> of \<^verbatim>\<open>libraries/chain/include/snax/chain\<close>.  Public
  keys come from the \<^verbatim>\<open>fc\<close> library; all the code uses of them is equality and a linear
  order, so they are a type variable of class \<^verbatim>\<open>linorder\<close>.  The function from permission
  levels to authorities is a template parameter of the checker in the source and a field of the
  checker here; it may throw.
\<close>

section \<open>Authorities\<close>

type_synonym permission_level = "account_name \<times> account_name"

record permission_level_weight =
  plw_permission :: permission_level
  plw_weight :: u16

record 'k key_weight =
  kw_key :: 'k
  kw_weight :: u16

record wait_weight =
  ww_wait_sec :: u32
  ww_weight :: u16

record 'k authority =
  threshold :: u32
  keys :: "'k key_weight list"
  accounts :: "permission_level_weight list"
  waits :: "wait_weight list"

text \<open>The authority of one key, with an optional delay.\<close>

definition key_authority :: "'k \<Rightarrow> u32 \<Rightarrow> 'k authority" where
  "key_authority k delay_sec =
    \<lparr>threshold = (if delay_sec > 0 then 2 else 1), keys = [\<lparr>kw_key = k, kw_weight = 1\<rparr>],
     accounts = [], waits = (if delay_sec > 0 then [\<lparr>ww_wait_sec = delay_sec, ww_weight = 1\<rparr>] else [])\<rparr>"

text \<open>The RAM billed for an authority: the billable size of a row is its size rounded up to a multiple
  of 16; \<open>pack_size\<close> is the serialized size of a key.\<close>

definition billable_size_v :: "u64 \<Rightarrow> u64" where
  "billable_size_v sz = ((sz + 16 - 1) div 16) * 16"

definition get_billable_size :: "('k \<Rightarrow> u64) \<Rightarrow> 'k authority \<Rightarrow> u64" where
  "get_billable_size pack_size auth =
    (let accounts_size = of_nat (length (accounts auth)) * billable_size_v 24;
         waits_size = of_nat (length (waits auth)) * billable_size_v 16;
         keys_size = fold (\<lambda>k s. s + billable_size_v 8 + pack_size (kw_key k)) (keys auth) 0
     in accounts_size + waits_size + keys_size)"

text \<open>
  \<^verbatim>\<open>validate\<close>: each of the three loops compares a row with the one before and adds up the
  weights; \<^term>\<open>None\<close> is its early return of false.
\<close>

fun sorted_total :: "('a \<Rightarrow> 'b::linorder) \<Rightarrow> ('a \<Rightarrow> u16) \<Rightarrow> 'b option \<Rightarrow> 'a list \<Rightarrow> u32 \<Rightarrow> u32 option" where
  "sorted_total key weight prev [] total_weight = Some total_weight"
| "sorted_total key weight prev (x # xs) total_weight =
    (if (case prev of None \<Rightarrow> False | Some p \<Rightarrow> \<not> p < key x) then None
     else sorted_total key weight (Some (key x)) xs (total_weight + ucast (weight x)))"

definition validate :: "'k::linorder authority \<Rightarrow> bool" where
  "validate auth =
    (if length (keys auth) + length (accounts auth) + length (waits auth) > 2 ^ 16 then False
     else if threshold auth = 0 then False
     else case sorted_total kw_key kw_weight None (keys auth) 0 of
       None \<Rightarrow> False
     | Some total_weight \<Rightarrow>
         (case sorted_total plw_permission plw_weight None (accounts auth) total_weight of
            None \<Rightarrow> False
          | Some total_weight \<Rightarrow>
              if waits auth \<noteq> [] \<and> ww_wait_sec (hd (waits auth)) = 0 then False
              else (case sorted_total ww_wait_sec ww_weight None (waits auth) total_weight of
                 None \<Rightarrow> False
               | Some total_weight \<Rightarrow> total_weight \<ge> threshold auth)))"

section \<open>The checker\<close>

datatype 'k meta_permission =
    Permission_level_weight permission_level_weight
  | Key_weight "'k key_weight"
  | Wait_weight wait_weight

fun get_weight :: "'k meta_permission \<Rightarrow> u16" where
  "get_weight (Permission_level_weight p) = plw_weight p"
| "get_weight (Key_weight k) = kw_weight k"
| "get_weight (Wait_weight w) = ww_weight w"

fun which :: "'k meta_permission \<Rightarrow> int" where
  "which (Permission_level_weight p) = 0"
| "which (Key_weight k) = 1"
| "which (Wait_weight w) = 2"

text \<open>The multiset of meta permissions in the order of \<^verbatim>\<open>meta_permission_comparator\<close>:
  descending by weight, then by type; equal elements keep the order they are inserted in.\<close>

definition meta_permissions :: "'k authority \<Rightarrow> 'k meta_permission list" where
  "meta_permissions auth =
    sort_key (\<lambda>m. (- uint (get_weight m), - which m))
      (map Wait_weight (waits auth) @ map Key_weight (keys auth)
        @ map Permission_level_weight (accounts auth))"

datatype permission_cache_status = being_evaluated | permission_unsatisfied | permission_satisfied

type_synonym permission_cache_type = "(permission_level, permission_cache_status) index"

text \<open>The checker: what it is constructed with, apart from its one mutable part, the marks of the
  used keys, which is passed along with the cache.  Delays are in microseconds.\<close>

record 'k authority_checker =
  permission_to_authority :: "permission_level \<Rightarrow> 'k authority result"
  provided_keys :: "'k list"
  provided_permissions :: "permission_level list"
  provided_delay :: int
  recursion_depth_limit :: u16

definition permission_status_in_cache ::
  "permission_cache_type \<Rightarrow> permission_level \<Rightarrow> permission_cache_status option" where
  "permission_status_in_cache permissions level =
    (case idx_find permissions level of
       Some s \<Rightarrow> Some s
     | None \<Rightarrow> idx_find permissions (fst level, 0))"

definition initialize_permission_cache :: "'k authority_checker \<Rightarrow> permission_cache_type" where
  "initialize_permission_cache ck =
    fold (\<lambda>p cache. idx_put p permission_satisfied cache) (provided_permissions ck) []"

definition visit_wait :: "'k authority_checker \<Rightarrow> wait_weight \<Rightarrow> u32 \<Rightarrow> u32" where
  "visit_wait ck w total_weight =
    (if provided_delay ck \<ge> uint (ww_wait_sec w) * 1000000
     then total_weight + ucast (ww_weight w) else total_weight)"

fun find_index :: "'k \<Rightarrow> 'k list \<Rightarrow> nat option" where
  "find_index k [] = None"
| "find_index k (x # xs) = (if x = k then Some 0 else map_option Suc (find_index k xs))"

definition visit_key ::
  "'k authority_checker \<Rightarrow> 'k key_weight \<Rightarrow> u32 \<Rightarrow> bool list \<Rightarrow> u32 \<times> bool list" where
  "visit_key ck k total_weight used =
    (case find_index (kw_key k) (provided_keys ck) of
       None \<Rightarrow> (total_weight, used)
     | Some i \<Rightarrow> (total_weight + ucast (kw_weight k), used[i := True]))"

text \<open>
  The recursion of the checker.  \<open>satisfied_at\<close> is the private \<^verbatim>\<open>satisfied\<close> with its
  \<^verbatim>\<open>KeyReverter\<close>, \<open>tally\<close> its loop over the sorted permissions, and \<open>visit\<close> the call operators of
  \<^verbatim>\<open>weight_tally_visitor\<close>.  Each returns the new cache and the new marks of used keys; depths
  are below the 16-bit limit, so they do not wrap.
\<close>

function satisfied_at :: "'k authority_checker \<Rightarrow> 'k authority \<Rightarrow> permission_cache_type \<Rightarrow> bool list \<Rightarrow>
    nat \<Rightarrow> (bool \<times> permission_cache_type \<times> bool list) result"
  and tally :: "'k authority_checker \<Rightarrow> nat \<Rightarrow> u32 \<Rightarrow> 'k meta_permission list \<Rightarrow> u32 \<Rightarrow>
    permission_cache_type \<Rightarrow> bool list \<Rightarrow> (bool \<times> permission_cache_type \<times> bool list) result"
  and visit :: "'k authority_checker \<Rightarrow> nat \<Rightarrow> 'k meta_permission \<Rightarrow> u32 \<Rightarrow>
    permission_cache_type \<Rightarrow> bool list \<Rightarrow> (u32 \<times> permission_cache_type \<times> bool list) result" where
  "satisfied_at ck auth cache used depth =
    ebind (tally ck depth (threshold auth) (meta_permissions auth) 0 cache used) (\<lambda>(r, cache', used').
    Inr (r, cache', if r then used' else used))"
| "tally ck depth thr [] total_weight cache used = Inr (False, cache, used)"
| "tally ck depth thr (m # ms) total_weight cache used =
    ebind (visit ck depth m total_weight cache used) (\<lambda>(total_weight', cache', used').
    if total_weight' \<ge> thr then Inr (True, cache', used')
    else tally ck depth thr ms total_weight' cache' used')"
| "visit ck depth (Wait_weight w) total_weight cache used =
    Inr (visit_wait ck w total_weight, cache, used)"
| "visit ck depth (Key_weight k) total_weight cache used =
    Inr (case visit_key ck k total_weight used of (total_weight', used') \<Rightarrow> (total_weight', cache, used'))"
| "visit ck depth (Permission_level_weight p) total_weight cache used =
    (case permission_status_in_cache cache (plw_permission p) of
       None \<Rightarrow>
         if depth < unat (recursion_depth_limit ck) then
           (case permission_to_authority ck (plw_permission p) of
              Inl e \<Rightarrow> if e = permission_query_exception then Inr (total_weight, cache, used) else Inl e
            | Inr auth \<Rightarrow>
                ebind (satisfied_at ck auth (idx_put (plw_permission p) being_evaluated cache) used
                         (depth + 1)) (\<lambda>(r, cache', used').
                if r then Inr (total_weight + ucast (plw_weight p),
                               idx_put (plw_permission p) permission_satisfied cache', used')
                else Inr (total_weight, idx_put (plw_permission p) permission_unsatisfied cache', used')))
         else Inr (total_weight, cache, used)
     | Some status \<Rightarrow>
         Inr (if status = permission_satisfied then total_weight + ucast (plw_weight p) else total_weight,
              cache, used))"
  by pat_completeness auto

termination
  by (relation "inv_image (less_than <*lex*> less_than <*lex*> less_than) (\<lambda>x. case x of
      Inl (ck, auth, cache, used, depth) \<Rightarrow> (unat (recursion_depth_limit ck) - depth, 1, 0)
    | Inr (Inl (ck, depth, thr, ms, tw, cache, used)) \<Rightarrow>
        (unat (recursion_depth_limit ck) - depth, 0, length ms)
    | Inr (Inr (ck, depth, m, tw, cache, used)) \<Rightarrow> (unat (recursion_depth_limit ck) - depth, 0, 0))") auto

declare satisfied_at.simps [simp del]

text \<open>
  The public entry points.  The pointer to a cache that the caller may pass is an option: without
  one, a fresh cache holding the provided permissions is used.
\<close>

definition start_cache :: "'k authority_checker \<Rightarrow> permission_cache_type option \<Rightarrow> permission_cache_type" where
  "start_cache ck cached_perms =
    (case cached_perms of None \<Rightarrow> initialize_permission_cache ck | Some c \<Rightarrow> c)"

definition satisfied_permission :: "'k authority_checker \<Rightarrow> permission_level \<Rightarrow>
    permission_cache_type option \<Rightarrow> bool list \<Rightarrow> (bool \<times> permission_cache_type \<times> bool list) result" where
  "satisfied_permission ck permission cached_perms used =
    ebind (visit ck 0 (Permission_level_weight \<lparr>plw_permission = permission, plw_weight = 1\<rparr>) 0
             (start_cache ck cached_perms) used) (\<lambda>(total_weight, cache, used').
    Inr (total_weight > 0, cache, used'))"

definition satisfied_permission_delay :: "'k authority_checker \<Rightarrow> permission_level \<Rightarrow> int \<Rightarrow>
    permission_cache_type option \<Rightarrow> bool list \<Rightarrow> (bool \<times> permission_cache_type \<times> bool list) result" where
  "satisfied_permission_delay ck permission override_provided_delay cached_perms used =
    satisfied_permission (ck\<lparr>provided_delay := override_provided_delay\<rparr>) permission cached_perms used"

definition satisfied_authority :: "'k authority_checker \<Rightarrow> 'k authority \<Rightarrow>
    permission_cache_type option \<Rightarrow> bool list \<Rightarrow> (bool \<times> permission_cache_type \<times> bool list) result" where
  "satisfied_authority ck auth cached_perms used =
    satisfied_at ck auth (start_cache ck cached_perms) used 0"

definition satisfied_authority_delay :: "'k authority_checker \<Rightarrow> 'k authority \<Rightarrow> int \<Rightarrow>
    permission_cache_type option \<Rightarrow> bool list \<Rightarrow> (bool \<times> permission_cache_type \<times> bool list) result" where
  "satisfied_authority_delay ck auth override_provided_delay cached_perms used =
    satisfied_authority (ck\<lparr>provided_delay := override_provided_delay\<rparr>) auth cached_perms used"

definition no_keys_used :: "'k authority_checker \<Rightarrow> bool list" where
  "no_keys_used ck = replicate (length (provided_keys ck)) False"

definition all_keys_used :: "bool list \<Rightarrow> bool" where
  "all_keys_used used = list_all id used"

definition used_keys :: "'k authority_checker \<Rightarrow> bool list \<Rightarrow> 'k list" where
  "used_keys ck used = map fst (filter snd (zip (provided_keys ck) used))"

definition unused_keys :: "'k authority_checker \<Rightarrow> bool list \<Rightarrow> 'k list" where
  "unused_keys ck used = map fst (filter (\<lambda>p. \<not> snd p) (zip (provided_keys ck) used))"

section \<open>Validation\<close>

definition weight_sum :: "('a \<Rightarrow> u16) \<Rightarrow> 'a list \<Rightarrow> nat" where
  "weight_sum weight xs = sum_list (map (\<lambda>x. unat (weight x)) xs)"

lemma weight_sum_simps [simp]:
  "weight_sum f [] = 0" "weight_sum f (x # xs) = unat (f x) + weight_sum f xs"
  by (simp_all add: weight_sum_def)

lemma weight_sum_bound: "weight_sum f xs \<le> length xs * 65535"
proof (induction xs)
  case (Cons x xs)
  moreover have "unat (f x) < 65536" using unat_bound [of "f x"] by simp
  ultimately show ?case by simp
qed simp

definition total_weight_of :: "'k authority \<Rightarrow> nat" where
  "total_weight_of auth = weight_sum kw_weight (keys auth) + weight_sum plw_weight (accounts auth)
    + weight_sum ww_weight (waits auth)"

lemma sorted_total_exact:
  assumes "unat tw + weight_sum weight xs < 2 ^ 32"
  shows "sorted_total key weight prev xs tw =
    (if sorted_wrt (<) ((case prev of None \<Rightarrow> [] | Some p \<Rightarrow> [p]) @ map key xs)
     then Some (tw + of_nat (weight_sum weight xs)) else None)"
  using assms
proof (induction xs arbitrary: prev tw)
  case (Cons x xs)
  have u: "unat (tw + ucast (weight x)) = unat tw + unat (weight x)"
    using Cons.prems by (subst unat_add_no_wrap) simp_all
  have IH: "sorted_total key weight (Some (key x)) xs (tw + ucast (weight x)) =
    (if sorted_wrt (<) (key x # map key xs)
     then Some (tw + ucast (weight x) + of_nat (weight_sum weight xs)) else None)"
    using Cons.IH [of "tw + ucast (weight x)" "Some (key x)"] Cons.prems u by simp
  have cast: "(ucast (weight x) :: u32) = of_nat (unat (weight x))" by simp
  show ?case
  proof (cases prev)
    case None
    then show ?thesis using IH by (simp add: cast add.assoc del: of_nat_unat)
  next
    case (Some p)
    then show ?thesis
      using IH by (auto simp: cast add.assoc simp del: of_nat_unat intro: less_trans)
  qed
qed (simp split: option.split)

lemma unat_of_weight: "n < 2 ^ 32 \<Longrightarrow> unat (of_nat n :: u32) = n"
  by (simp add: unat_of_nat)

lemma total_weight_bound:
  "length (keys auth) + length (accounts auth) + length (waits auth) \<le> 2 ^ 16 \<Longrightarrow>
    total_weight_of auth < 2 ^ 32"
  using weight_sum_bound [of kw_weight "keys auth"] weight_sum_bound [of plw_weight "accounts auth"]
    weight_sum_bound [of ww_weight "waits auth"]
  by (simp add: total_weight_of_def)

lemma sorted_nonzero_iff:
  "sorted_wrt (<) xs \<Longrightarrow> (xs \<noteq> [] \<and> hd xs = 0) \<longleftrightarrow> 0 \<in> set xs" for xs :: "u32 list"
  by (cases xs) (auto simp: word_neq_0_conv [symmetric] dest: word_less_nat_alt [THEN iffD1])

text \<open>C29. \<^verbatim>\<open>validate\<close> accepts exactly the authorities with a positive threshold, at most $2^{16}$
  rows, keys, permission levels and positive waits each in strictly ascending order, and weights whose
  true sum reaches the threshold: the 32-bit running total cannot wrap.\<close>

theorem validate_iff:
  "validate auth \<longleftrightarrow>
    length (keys auth) + length (accounts auth) + length (waits auth) \<le> 2 ^ 16 \<and> threshold auth \<noteq> 0
    \<and> sorted_wrt (<) (map kw_key (keys auth)) \<and> sorted_wrt (<) (map plw_permission (accounts auth))
    \<and> sorted_wrt (<) (map ww_wait_sec (waits auth)) \<and> 0 \<notin> ww_wait_sec ` set (waits auth)
    \<and> unat (threshold auth) \<le> total_weight_of auth"
proof (cases "length (keys auth) + length (accounts auth) + length (waits auth) \<le> 2 ^ 16")
  case True
  let ?k = "weight_sum kw_weight (keys auth)" and ?a = "weight_sum plw_weight (accounts auth)"
    and ?w = "weight_sum ww_weight (waits auth)"
  note lt = total_weight_bound [OF True, unfolded total_weight_of_def]
  have k: "sorted_total kw_key kw_weight None (keys auth) 0 =
      (if sorted_wrt (<) (map kw_key (keys auth)) then Some (of_nat ?k) else None)"
    using lt by (subst sorted_total_exact) auto
  have a: "sorted_total plw_permission plw_weight None (accounts auth) (of_nat ?k) =
      (if sorted_wrt (<) (map plw_permission (accounts auth)) then Some (of_nat (?k + ?a)) else None)"
    using lt by (subst sorted_total_exact) (auto simp: unat_of_weight)
  have w: "sorted_total ww_wait_sec ww_weight None (waits auth) (of_nat (?k + ?a)) =
      (if sorted_wrt (<) (map ww_wait_sec (waits auth)) then Some (of_nat (?k + ?a + ?w)) else None)"
    using lt by (subst sorted_total_exact) (auto simp: unat_of_weight add.assoc simp flip: of_nat_add)
  have t: "(of_nat (?k + ?a + ?w) \<ge> threshold auth) \<longleftrightarrow> unat (threshold auth) \<le> total_weight_of auth"
    using lt by (simp only: word_le_nat_alt unat_of_weight total_weight_of_def)
  have z: "(waits auth \<noteq> [] \<and> ww_wait_sec (hd (waits auth)) = 0) \<longleftrightarrow> 0 \<in> ww_wait_sec ` set (waits auth)"
    if "sorted_wrt (<) (map ww_wait_sec (waits auth))"
    using sorted_nonzero_iff [OF that] by (cases "waits auth") auto
  have vu: "validate auth \<longleftrightarrow> threshold auth \<noteq> 0 \<and> sorted_wrt (<) (map kw_key (keys auth))
      \<and> sorted_wrt (<) (map plw_permission (accounts auth))
      \<and> \<not> (waits auth \<noteq> [] \<and> ww_wait_sec (hd (waits auth)) = 0)
      \<and> sorted_wrt (<) (map ww_wait_sec (waits auth)) \<and> of_nat (?k + ?a + ?w) \<ge> threshold auth"
    using True by (simp add: validate_def k a w del: of_nat_add)
  show ?thesis unfolding vu t using True z by blast
qed (simp add: validate_def)

section \<open>Soundness of the checker\<close>

text \<open>
  What it means for a permission to be granted: it is provided (itself, or its account with the empty
  permission name), or the weights of the provided keys, the elapsed waits and the granted permissions
  of its authority reach the threshold.  The definition knows no cache, no depth limit and no order of
  evaluation.
\<close>

fun meta_weight :: "'k authority_checker \<Rightarrow> permission_level set \<Rightarrow> 'k meta_permission \<Rightarrow> nat" where
  "meta_weight ck A (Wait_weight w) =
    (if provided_delay ck \<ge> uint (ww_wait_sec w) * 1000000 then unat (ww_weight w) else 0)"
| "meta_weight ck A (Key_weight k) =
    (if kw_key k \<in> set (provided_keys ck) then unat (kw_weight k) else 0)"
| "meta_weight ck A (Permission_level_weight p) =
    (if plw_permission p \<in> A then unat (plw_weight p) else 0)"

definition granted_weight :: "'k authority_checker \<Rightarrow> permission_level set \<Rightarrow> 'k authority \<Rightarrow> nat" where
  "granted_weight ck A auth = sum_list (map (meta_weight ck A)
    (map Wait_weight (waits auth) @ map Key_weight (keys auth)
      @ map Permission_level_weight (accounts auth)))"

inductive grants :: "'k authority_checker \<Rightarrow> permission_level \<Rightarrow> bool" for ck where
  provided: "p \<in> set (provided_permissions ck) \<Longrightarrow> grants ck p"
| wildcard: "grants ck (actor, 0) \<Longrightarrow> grants ck (actor, permission)"
| authority: "permission_to_authority ck p = Inr auth \<Longrightarrow> (\<And>q. q \<in> A \<Longrightarrow> grants ck q) \<Longrightarrow>
    unat (threshold auth) \<le> granted_weight ck A auth \<Longrightarrow> grants ck p"

definition cache_sound :: "'k authority_checker \<Rightarrow> permission_cache_type \<Rightarrow> bool" where
  "cache_sound ck cache \<longleftrightarrow> idx_ok cache \<and>
    (\<forall>p. idx_find cache p = Some permission_satisfied \<longrightarrow> grants ck p)"

lemma cache_sound_put:
  "cache_sound ck cache \<Longrightarrow> (s = permission_satisfied \<Longrightarrow> grants ck p) \<Longrightarrow>
    cache_sound ck (idx_put p s cache)"
  by (auto simp: cache_sound_def idx_simps)

lemma cache_sound_status:
  assumes "cache_sound ck cache" "permission_status_in_cache cache p = Some permission_satisfied"
  shows "grants ck p"
  using assms grants.wildcard [of ck "fst p" "snd p"]
  by (cases p) (auto simp: permission_status_in_cache_def cache_sound_def split: option.splits)

lemma cache_sound_start: "cache_sound ck (initialize_permission_cache ck)"
proof -
  have "cache_sound ck (fold (\<lambda>p cache. idx_put p permission_satisfied cache) ps cache)"
    if "cache_sound ck cache" "set ps \<subseteq> set (provided_permissions ck)" for ps cache
    using that
  proof (induction ps arbitrary: cache)
    case (Cons p ps)
    then have "grants ck p" by (simp add: grants.provided)
    with Cons show ?case by (simp add: cache_sound_put)
  qed simp
  moreover have "cache_sound ck []" by (simp add: cache_sound_def)
  ultimately show ?thesis by (simp add: initialize_permission_cache_def)
qed

lemma find_index_iff: "find_index k xs = None \<longleftrightarrow> k \<notin> set xs"
  by (induction xs) auto

lemma find_index_mem: "find_index k xs = Some i \<Longrightarrow> k \<in> set xs"
  using find_index_iff [of k xs] by auto

lemma unat_add_ucast_le: "unat (t + ucast (w :: u16) :: u32) \<le> unat t + unat w"
  by (simp add: unat_word_ariths)

lemma sum_meta_permissions:
  fixes f :: "'k meta_permission \<Rightarrow> nat"
  shows "sum_list (map f (meta_permissions auth)) = sum_list (map f
    (map Wait_weight (waits auth) @ map Key_weight (keys auth)
      @ map Permission_level_weight (accounts auth)))"
proof -
  have "mset (map f (meta_permissions auth)) = mset (map f
    (map Wait_weight (waits auth) @ map Key_weight (keys auth)
      @ map Permission_level_weight (accounts auth)))"
    unfolding mset_map by (simp add: meta_permissions_def)
  then show ?thesis by (metis sum_mset_sum_list)
qed

lemma checker_sound:
  "satisfied_at ck auth cache used depth = Inr (r, cache', used') \<Longrightarrow> cache_sound ck cache \<Longrightarrow>
    cache_sound ck cache' \<and> (r \<longrightarrow> unat (threshold auth) \<le> granted_weight ck (Collect (grants ck)) auth)"
  "tally ck depth thr ms tw cache used = Inr (r, cache', used') \<Longrightarrow> cache_sound ck cache \<Longrightarrow>
    cache_sound ck cache' \<and>
      (r \<longrightarrow> unat thr \<le> unat tw + sum_list (map (meta_weight ck (Collect (grants ck))) ms))"
  "visit ck depth m tw cache used = Inr (tw', cache', used') \<Longrightarrow> cache_sound ck cache \<Longrightarrow>
    cache_sound ck cache' \<and> unat tw' \<le> unat tw + meta_weight ck (Collect (grants ck)) m"
proof (induction ck auth cache used depth and ck depth thr ms tw cache used and ck depth m tw cache used
    arbitrary: r cache' used' and r cache' used' and tw' cache' used'
    rule: satisfied_at_tally_visit.induct)
  case (1 ck auth cache used depth)
  then obtain u where "tally ck depth (threshold auth) (meta_permissions auth) 0 cache used = Inr (r, cache', u)"
    by (auto simp: satisfied_at.simps)
  from 1(1) [OF this 1(3)] show ?case
    by (simp add: sum_meta_permissions granted_weight_def)
next
  case (2 ck depth thr tw cache used)
  then show ?case by simp
next
  case (3 ck depth thr m ms tw cache used)
  then obtain tw1 c1 u1 where v: "visit ck depth m tw cache used = Inr (tw1, c1, u1)"
    and rest: "(if tw1 \<ge> thr then Inr (True, c1, u1) else tally ck depth thr ms tw1 c1 u1) = Inr (r, cache', used')"
    by auto
  note iv = 3(1) [OF v 3(4)]
  show ?case
  proof (cases "tw1 \<ge> thr")
    case True
    then have "unat thr \<le> unat tw1" by (simp add: word_le_nat_alt)
    with True rest iv show ?thesis by auto
  next
    case False
    with rest have t: "tally ck depth thr ms tw1 c1 u1 = Inr (r, cache', used')" by simp
    from 3(2) [OF v refl refl False t] iv show ?thesis by auto
  qed
next
  case (4 ck depth w tw cache used)
  then show ?case by (auto simp: visit_wait_def unat_add_ucast_le split: if_splits)
next
  case (5 ck depth k tw cache used)
  then show ?case
    by (auto simp: visit_key_def unat_add_ucast_le dest: find_index_mem split: option.splits)
next
  case (6 ck depth p tw cache used)
  let ?p = "plw_permission p"
  show ?case
  proof (cases "permission_status_in_cache cache ?p")
    case (Some st)
    then show ?thesis
      using 6(2,3) cache_sound_status [OF 6(3), of ?p] unat_add_ucast_le [of tw "plw_weight p"]
      by (auto split: if_splits)
  next
    case None
    show ?thesis
    proof (cases "depth < unat (recursion_depth_limit ck)")
      case False
      with None 6(2,3) show ?thesis by simp
    next
      case True
      show ?thesis
      proof (cases "permission_to_authority ck ?p")
        case (Inl e)
        with None True 6(2,3) show ?thesis by (auto split: if_splits)
      next
        case (Inr auth)
        with None True 6(2) obtain r c1 where
          s: "satisfied_at ck auth (idx_put ?p being_evaluated cache) used (depth + 1) = Inr (r, c1, used')"
          and rest: "tw' = (if r then tw + ucast (plw_weight p) else tw)"
            "cache' = idx_put ?p (if r then permission_satisfied else permission_unsatisfied) c1"
          by (auto split: if_splits)
        have "cache_sound ck (idx_put ?p being_evaluated cache)"
          using 6(3) by (rule cache_sound_put) simp
        from 6(1) [OF None True Inr s this] have c1: "cache_sound ck c1"
          and g: "r \<Longrightarrow> unat (threshold auth) \<le> granted_weight ck (Collect (grants ck)) auth" by auto
        have "r \<Longrightarrow> grants ck ?p"
          using grants.authority [OF Inr _ g] by auto
        with c1 rest show ?thesis
          using unat_add_ucast_le [of tw "plw_weight p"] by (auto intro!: cache_sound_put)
      qed
    qed
  qed
qed

lemma used_keys_grow:
  "satisfied_at ck auth cache used depth = Inr (r, cache', used') \<Longrightarrow>
    length used' = length used \<and> (\<forall>i<length used. used ! i \<longrightarrow> used' ! i) \<and> (\<not> r \<longrightarrow> used' = used)"
  "tally ck depth thr ms tw cache used = Inr (r, cache', used') \<Longrightarrow>
    length used' = length used \<and> (\<forall>i<length used. used ! i \<longrightarrow> used' ! i)"
  "visit ck depth m tw cache used = Inr (tw', cache', used') \<Longrightarrow>
    length used' = length used \<and> (\<forall>i<length used. used ! i \<longrightarrow> used' ! i)"
proof (induction ck auth cache used depth and ck depth thr ms tw cache used and ck depth m tw cache used
    arbitrary: r cache' used' and r cache' used' and tw' cache' used'
    rule: satisfied_at_tally_visit.induct)
  case (1 ck auth cache used depth)
  then show ?case by (auto simp: satisfied_at.simps split: if_splits)
next
  case (3 ck depth thr m ms tw cache used)
  then obtain tw1 c1 u1 where v: "visit ck depth m tw cache used = Inr (tw1, c1, u1)"
    and rest: "(if tw1 \<ge> thr then Inr (True, c1, u1) else tally ck depth thr ms tw1 c1 u1) = Inr (r, cache', used')"
    by auto
  note iv = 3(1) [OF v]
  show ?case
  proof (cases "tw1 \<ge> thr")
    case False
    with rest have t: "tally ck depth thr ms tw1 c1 u1 = Inr (r, cache', used')" by simp
    from 3(2) [OF v refl refl False t] iv show ?thesis by auto
  qed (use rest iv in auto)
next
  case (5 ck depth k tw cache used)
  then show ?case by (auto simp: visit_key_def split: option.splits)
      (metis nth_list_update_eq nth_list_update_neq)
next
  case (6 ck depth p tw cache used)
  then show ?case by (auto split: option.splits if_splits sum.splits)
qed auto

lemma satisfied_permission_grants:
  assumes "satisfied_permission ck p None used = Inr (True, cache, used')"
  shows "grants ck p"
proof -
  from assms obtain tw where "visit ck 0 (Permission_level_weight \<lparr>plw_permission = p, plw_weight = 1\<rparr>) 0
      (initialize_permission_cache ck) used = Inr (tw, cache, used')" "tw > 0"
    by (auto simp: satisfied_permission_def start_cache_def)
  with checker_sound(3) [OF this(1) cache_sound_start] show ?thesis
    by (auto simp: word_gt_0 unat_eq_0 [symmetric] split: if_splits)
qed

text \<open>C27. The authority checker is sound: when it reports a permission level satisfied, the level is
  granted in the declarative sense, by the provided permissions or by authorities whose thresholds
  are reached by provided keys, elapsed waits and granted permissions, whatever the cache, the depth
  limit and the wrap-around of 32-bit tallies did on the way.\<close>

theorem satisfied_permission_sound:
  assumes "satisfied_permission ck p None used = Inr (True, cache, used')"
  shows "grants ck p"
  using assms by (rule satisfied_permission_grants)

text \<open>Marks of used keys: an authority that is not satisfied leaves the marks as they were, one that
  is satisfied only adds marks, and the number of marks never changes.\<close>

theorem satisfied_authority_used_keys:
  assumes "satisfied_authority ck auth cached_perms used = Inr (r, cache, used')"
  shows "length used' = length used \<and> (\<forall>i<length used. used ! i \<longrightarrow> used' ! i) \<and> (\<not> r \<longrightarrow> used' = used)"
  using used_keys_grow(1) assms unfolding satisfied_authority_def by blast

definition no_account :: "'k meta_permission \<Rightarrow> bool" where
  "no_account m \<longleftrightarrow> (\<forall>p. m \<noteq> Permission_level_weight p)"

lemma visit_no_account:
  assumes "no_account m" "unat tw + unat (get_weight m) < 2 ^ 32"
  shows "\<exists>used'. visit ck depth m tw cache used
    = Inr (tw + of_nat (meta_weight ck A m), cache, used')
    \<and> unat (tw + of_nat (meta_weight ck A m)) = unat tw + meta_weight ck A m"
proof -
  have le: "meta_weight ck A m \<le> unat (get_weight m)" by (cases m) auto
  then have "unat (of_nat (meta_weight ck A m) :: u32) = meta_weight ck A m"
    using assms(2) by (simp add: unat_of_nat)
  then have "unat (tw + of_nat (meta_weight ck A m)) = unat tw + meta_weight ck A m"
    using assms(2) le by (subst unat_add_no_wrap) auto
  moreover have "\<exists>used'. visit ck depth m tw cache used = Inr (tw + of_nat (meta_weight ck A m), cache, used')"
    using assms(1)
    by (cases m) (auto simp: no_account_def visit_wait_def visit_key_def find_index_iff
        split: option.split dest: find_index_mem)
  ultimately show ?thesis by auto
qed

lemma tally_no_account:
  assumes "\<forall>m\<in>set ms. no_account m" "unat tw < unat thr"
    and "unat tw + sum_list (map (\<lambda>m. unat (get_weight m)) ms) < 2 ^ 32"
  shows "\<exists>r used'. tally ck depth thr ms tw cache used = Inr (r, cache, used')
    \<and> (r \<longleftrightarrow> unat thr \<le> unat tw + sum_list (map (meta_weight ck A) ms))"
  using assms
proof (induction ms arbitrary: tw used)
  case (Cons m ms)
  have bnd: "unat tw + unat (get_weight m) < 2 ^ 32" using Cons.prems(3) by simp
  let ?t = "tw + of_nat (meta_weight ck A m)"
  obtain u where v: "visit ck depth m tw cache used = Inr (?t, cache, u)"
    and t: "unat ?t = unat tw + meta_weight ck A m"
    using visit_no_account [OF _ bnd, of ck depth cache used A] Cons.prems(1) by auto
  show ?case
  proof (cases "thr \<le> ?t")
    case True
    then have "unat thr \<le> unat tw + meta_weight ck A m" using t by (simp add: word_le_nat_alt)
    with v True show ?thesis by (intro exI [of _ True] exI [of _ u]) simp
  next
    case False
    have "meta_weight ck A m \<le> unat (get_weight m)" by (cases m) auto
    then have "unat ?t + sum_list (map (\<lambda>m. unat (get_weight m)) ms) < 2 ^ 32"
      using Cons.prems(3) t by simp
    moreover have "unat ?t < unat thr" using False by (simp add: word_le_nat_alt)
    ultimately show ?thesis
      using Cons.IH [of ?t u] Cons.prems(1) v False t by (auto simp: add.assoc)
  qed
qed (auto intro: exI [of _ False])

lemma sum_weights_meta:
  "sum_list (map (\<lambda>m. unat (get_weight m)) (meta_permissions auth)) = total_weight_of auth"
  by (simp add: sum_meta_permissions total_weight_of_def weight_sum_def comp_def)

text \<open>C28. On a valid authority made of keys and waits only, the checker is exact: it never throws, and
  it answers true if and only if the weights of the provided keys and the elapsed waits reach the
  threshold.\<close>

theorem satisfied_authority_keys_exact:
  assumes "validate auth" "accounts auth = []"
  shows "\<exists>r used'. satisfied_authority ck auth None used = Inr (r, initialize_permission_cache ck, used')
    \<and> (r \<longleftrightarrow> unat (threshold auth) \<le> granted_weight ck {} auth)"
proof -
  from assms(1) have len: "length (keys auth) + length (accounts auth) + length (waits auth) \<le> 2 ^ 16"
    and thr: "threshold auth \<noteq> 0"
    by (auto simp: validate_def split: if_splits)
  have "\<forall>m\<in>set (meta_permissions auth). no_account m"
    using assms(2) by (auto simp: meta_permissions_def no_account_def)
  moreover have "unat (0 :: u32) < unat (threshold auth)" using thr by (simp add: unat_gt_0)
  moreover have "unat (0 :: u32) + sum_list (map (\<lambda>m. unat (get_weight m)) (meta_permissions auth)) < 2 ^ 32"
    using total_weight_bound [OF len] by (simp add: sum_weights_meta)
  ultimately obtain r u where
    "tally ck 0 (threshold auth) (meta_permissions auth) 0 (initialize_permission_cache ck) used
      = Inr (r, initialize_permission_cache ck, u)"
    "r \<longleftrightarrow> unat (threshold auth) \<le> unat (0 :: u32) + sum_list (map (meta_weight ck {}) (meta_permissions auth))"
    using tally_no_account [where A = "{}"] by blast
  then show ?thesis
    by (simp add: satisfied_authority_def start_cache_def satisfied_at.simps sum_meta_permissions
        granted_weight_def)
qed

section \<open>A key that is needed but not marked used\<close>

text \<open>
  Three valid authorities: \<open>(1, 1)\<close> needs weight 2 from \<open>(2, 1)\<close> (weight 3) or \<open>(3, 1)\<close> (weight 2);
  \<open>(2, 1)\<close> needs both \<open>(3, 1)\<close> and the key 20; \<open>(3, 1)\<close> needs the key 10.
\<close>

definition lost_key_authorities :: "permission_level \<Rightarrow> nat authority result" where
  "lost_key_authorities p =
    (if p = (1, 1) then Inr \<lparr>threshold = 2, keys = [],
       accounts = [\<lparr>plw_permission = (2, 1), plw_weight = 3\<rparr>, \<lparr>plw_permission = (3, 1), plw_weight = 2\<rparr>],
       waits = []\<rparr>
     else if p = (2, 1) then Inr \<lparr>threshold = 2, keys = [\<lparr>kw_key = 20, kw_weight = 1\<rparr>],
       accounts = [\<lparr>plw_permission = (3, 1), plw_weight = 1\<rparr>], waits = []\<rparr>
     else if p = (3, 1) then Inr \<lparr>threshold = 1, keys = [\<lparr>kw_key = 10, kw_weight = 1\<rparr>],
       accounts = [], waits = []\<rparr>
     else Inl permission_query_exception)"

definition lost_key_checker :: "nat list \<Rightarrow> nat authority_checker" where
  "lost_key_checker ks = \<lparr>permission_to_authority = lost_key_authorities, provided_keys = ks,
     provided_permissions = [], provided_delay = 0, recursion_depth_limit = 6\<rparr>"

text \<open>C30. A permission satisfied from the cache does not mark the keys that satisfied it when the
  authority it was first evaluated for failed and its marks were reverted: here the key 10 satisfies
  \<open>(1, 1)\<close>, without it \<open>(1, 1)\<close> is not satisfied, and yet the checker reports no used key and the key
  10 as unused.\<close>

theorem needed_key_reported_unused:
  "(case satisfied_permission (lost_key_checker [10]) (1, 1) None [False] of
      Inl e \<Rightarrow> False
    | Inr (r, cache, used) \<Rightarrow> r \<and> used_keys (lost_key_checker [10]) used = []
        \<and> unused_keys (lost_key_checker [10]) used = [10] \<and> \<not> all_keys_used used)
   \<and> (case satisfied_permission (lost_key_checker []) (1, 1) None [] of
      Inl e \<Rightarrow> False
    | Inr (r, cache, used) \<Rightarrow> r = False)
   \<and> list_all (\<lambda>p. case lost_key_authorities p of Inl e \<Rightarrow> False | Inr a \<Rightarrow> validate a)
       [(1, 1), (2, 1), (3, 1)]"
proof (intro conjI)
  show "list_all (\<lambda>p. case lost_key_authorities p of Inl e \<Rightarrow> False | Inr a \<Rightarrow> validate a)
      [(1, 1), (2, 1), (3, 1)]"
    by (simp add: lost_key_authorities_def validate_def)
qed code_simp+

section \<open>The properties at work\<close>

theorem satisfied_permission_sound_witness: "grants (lost_key_checker [10]) (1, 1)"
proof -
  let ?r = "satisfied_permission (lost_key_checker [10]) (1, 1) None [False]"
  have "\<not> isl ?r \<and> fst (projr ?r)" by code_simp
  then obtain c u where "?r = Inr (True, c, u)" by (cases ?r) auto
  then show ?thesis by (rule satisfied_permission_sound)
qed

definition sample_authority :: "nat authority" where
  "sample_authority = \<lparr>threshold = 3, keys = [\<lparr>kw_key = 10, kw_weight = 2\<rparr>, \<lparr>kw_key = 20, kw_weight = 1\<rparr>],
     accounts = [], waits = [\<lparr>ww_wait_sec = 60, ww_weight = 1\<rparr>]\<rparr>"

theorem satisfied_authority_used_keys_witness:
  "\<exists>c u. satisfied_authority (lost_key_checker [10, 30]) sample_authority None [False, True] = Inr (False, c, u)
    \<and> u = [False, True]"
proof -
  let ?r = "satisfied_authority (lost_key_checker [10, 30]) sample_authority None [False, True]"
  have "\<not> isl ?r \<and> \<not> fst (projr ?r)" by code_simp
  then obtain c u where r: "?r = Inr (False, c, u)" by (cases ?r) auto
  from satisfied_authority_used_keys [OF r] r show ?thesis by auto
qed

theorem satisfied_authority_keys_exact_witness:
  "\<exists>r u. satisfied_authority (lost_key_checker [10, 20]) sample_authority None [False, False]
      = Inr (r, initialize_permission_cache (lost_key_checker [10, 20]), u)
    \<and> (r \<longleftrightarrow> unat (threshold sample_authority) \<le> granted_weight (lost_key_checker [10, 20]) {} sample_authority)"
proof (rule satisfied_authority_keys_exact)
  show "validate sample_authority" by (simp add: sample_authority_def validate_def)
  show "accounts sample_authority = []" by (simp add: sample_authority_def)
qed

end
