(* ===== verification/Names.thy ===== *)
theory Names
  imports Prelude
begin

unbundle bit_operations_syntax

text \<open>
  Names: \<^verbatim>\<open>name.hpp\<close> and \<^verbatim>\<open>name.cpp\<close>.  A name packs up to 13 characters of a
  32-letter alphabet into 64 bits: twelve groups of 5 bits from the top, then 4 bits.  The theory shows
  that printing and parsing are inverse, and says exactly which strings are names.  A C string ends
  at its first zero character.
\<close>

definition char_to_symbol :: "char \<Rightarrow> u64" where
  "char_to_symbol c =
    (let n = of_char c :: nat in
     if 97 \<le> n \<and> n \<le> 122 then of_nat (n - 97 + 6)
     else if 49 \<le> n \<and> n \<le> 53 then of_nat (n - 49 + 1)
     else 0)"

definition c_str :: "string \<Rightarrow> string" where
  "c_str s = takeWhile (\<lambda>c. c \<noteq> CHR 0x00) s"

fun encode_chars :: "nat \<Rightarrow> string \<Rightarrow> u64 \<Rightarrow> u64" where
  "encode_chars i [] name = name"
| "encode_chars i (c # cs) name =
    encode_chars (i + 1) cs (name OR push_bit (64 - 5 * (i + 1)) (char_to_symbol c AND 0x1F))"

definition string_to_name :: "string \<Rightarrow> u64" where
  "string_to_name str =
    (let name = encode_chars 0 (take 12 str) 0
     in if length str > 12 then name OR (char_to_symbol (str ! 12) AND 0x0F) else name)"

definition N :: "string \<Rightarrow> u64" where
  "N x = string_to_name x"

definition charmap :: string where
  "charmap = ''.12345abcdefghijklmnopqrstuvwxyz''"

text \<open>The loop that fills the 13 characters from the last to the first, and the trimming of dots.\<close>

fun decode_chars :: "nat \<Rightarrow> u64 \<Rightarrow> string \<Rightarrow> string" where
  "decode_chars 0 tmp str = str"
| "decode_chars (Suc n) tmp str = decode_chars n (drop_bit 5 tmp) (charmap ! unat (tmp AND 0x1F) # str)"

definition trim_dots :: "string \<Rightarrow> string" where
  "trim_dots str = rev (dropWhile (\<lambda>c. c = CHR ''.'') (rev str))"

definition name_to_string :: "u64 \<Rightarrow> string" where
  "name_to_string value =
    trim_dots (decode_chars 12 (drop_bit 4 value) [charmap ! unat (value AND 0x0F)])"

definition name_set :: "string \<Rightarrow> u64 result" where
  "name_set s =
    (let str = c_str s in
     SNAX_ASSERT (length (take 14 str) \<le> 13) name_type_exception (
     let value = string_to_name str in
     SNAX_ASSERT (name_to_string value = str) name_type_exception (Inr value)))"

section \<open>Base-32 digits\<close>

text \<open>\<open>dig n v\<close> are the lowest \<open>n\<close> groups of 5 bits of \<open>v\<close>, the highest first; \<open>enc\<close> puts
  groups together.\<close>

fun dig :: "nat \<Rightarrow> u64 \<Rightarrow> u64 list" where
  "dig 0 v = []"
| "dig (Suc n) v = dig n (drop_bit 5 v) @ [v AND 0x1F]"

definition enc :: "u64 list \<Rightarrow> u64" where
  "enc ds = fold (\<lambda>d v. push_bit 5 v OR d) ds 0"

lemma mask_5: "(0x1F :: u64) = mask 5" and mask_4: "(0x0F :: u64) = mask 4"
  by (simp_all add: mask_eq_exp_minus_1)

lemma enc_simps: "enc [] = 0" "enc (ds @ [d]) = push_bit 5 (enc ds) OR d"
  by (simp_all add: enc_def)

lemma length_dig [simp]: "length (dig n v) = n"
  by (induction n arbitrary: v) auto

lemma dig_digit: "d \<in> set (dig n v) \<Longrightarrow> d AND 0x1F = d"
  by (induction n arbitrary: v) (auto simp: and.assoc)

lemma enc_dig: "enc (dig n v) = take_bit (5 * n) v"
proof (induction n arbitrary: v)
  case (Suc n)
  have "push_bit 5 (take_bit (5 * n) (drop_bit 5 v)) OR (v AND mask 5) = take_bit (5 * Suc n) v"
    by (rule bit_word_eqI) (auto simp: bit_simps)
  then show ?case by (simp add: enc_simps Suc mask_5 del: take_bit_Suc)
qed (simp add: enc_simps)

lemma enc_bound:
  assumes "\<forall>d\<in>set ds. d AND 0x1F = d" "bit (enc ds) i"
  shows "i < 5 * length ds"
  using assms
proof (induction ds arbitrary: i rule: rev_induct)
  case (snoc d ds)
  have "bit d i \<Longrightarrow> i < 5" using snoc.prems(1) unfolding mask_5 by (auto simp: bit_and_iff bit_mask_iff dest: arg_cong [of _ _ "\<lambda>w. bit w i"])
  moreover have "5 \<le> i \<Longrightarrow> bit (enc ds) (i - 5) \<Longrightarrow> i - 5 < 5 * length ds"
    using snoc by simp
  ultimately show ?case using snoc.prems(2) by (auto simp: enc_simps bit_simps)
qed (simp add: enc_simps)

lemma dig_enc:
  assumes "\<forall>d\<in>set ds. d AND 0x1F = d" "5 * length ds \<le> 64"
  shows "dig (length ds) (enc ds) = ds"
  using assms
proof (induction ds rule: rev_induct)
  case (snoc d ds)
  have d: "d AND mask 5 = d" using snoc.prems(1) by (simp add: mask_5 [symmetric])
  have db: "bit d i \<Longrightarrow> i < 5" for i using d by (metis bit_and_iff bit_mask_iff)
  have "drop_bit 5 (push_bit 5 (enc ds) OR d) = enc ds"
  proof (rule bit_word_eqI)
    fix i
    have "bit (enc ds) i \<Longrightarrow> i + 5 < 64"
      using enc_bound [of ds i] snoc.prems by auto
    then show "bit (drop_bit 5 (push_bit 5 (enc ds) OR d)) i \<longleftrightarrow> bit (enc ds) i"
      using db [of "5 + i"] by (auto simp: bit_simps)
  qed
  moreover have "(push_bit 5 (enc ds) OR d) AND mask 5 = d"
    by (rule bit_word_eqI) (use d db in \<open>auto simp: bit_simps\<close>)
  ultimately show ?case using snoc by (simp add: enc_simps mask_5)
qed simp

lemma encode_chars_enc:
  assumes "i + length cs \<le> 12"
  shows "encode_chars i cs name =
    name OR push_bit (64 - 5 * (i + length cs)) (enc (map (\<lambda>c. char_to_symbol c AND 0x1F) cs))"
  using assms
proof (induction cs rule: rev_induct)
  case (snoc c cs)
  have app: "encode_chars i (cs @ [c]) name =
      encode_chars i cs name OR push_bit (64 - 5 * (i + length cs + 1)) (char_to_symbol c AND 0x1F)"
    by (induction cs arbitrary: i name) auto
  define k where "k = 64 - 5 * (i + length cs + 1)"
  have k: "64 - 5 * (i + length cs) = k + 5" using snoc.prems by (simp add: k_def)
  show ?case
    using snoc.prems snoc.IH
    by (simp add: app enc_simps k [simplified] k_def [symmetric, simplified] push_bit_or or.assoc)
qed (simp add: enc_simps)

section \<open>Characters and symbols\<close>

lemma symbol_table: "list_all (\<lambda>k. char_to_symbol (charmap ! k) = of_nat k) [0..<32]"
  by (simp add: charmap_def upt_rec char_to_symbol_def of_char_def)

lemma length_charmap [simp]: "length charmap = 32"
  by (simp add: charmap_def)

lemma unat_and_31: "unat (d AND 0x1F) = unat d mod 32" for d :: u64
  unfolding mask_5 by (simp add: take_bit_eq_mask [symmetric] take_bit_eq_mod unat_mod)

lemma unat_and_15: "unat (d AND 0x0F) = unat d mod 16" for d :: u64
  unfolding mask_4 by (simp add: take_bit_eq_mask [symmetric] take_bit_eq_mod unat_mod)

lemma digit_iff: "d AND 0x1F = d \<longleftrightarrow> unat d < 32" for d :: u64
proof -
  have "x mod 32 = x \<longleftrightarrow> x < 32" for x :: nat by (simp add: mod_eq_self_iff_div_eq_0 div_eq_0_iff)
  then show ?thesis by (simp only: word_unat_eq_iff unat_and_31)
qed

lemma unat_digit: "d AND 0x1F = d \<Longrightarrow> unat d < 32" for d :: u64
  by (simp add: digit_iff)

lemma symbol_of_charmap: "unat d < 32 \<Longrightarrow> char_to_symbol (charmap ! unat d) = d"
  using symbol_table by (auto simp: list_all_iff)

lemma charmap_of_symbol: "c \<in> set charmap \<Longrightarrow> charmap ! unat (char_to_symbol c) = c"
proof -
  assume "c \<in> set charmap"
  then obtain k where k: "k < 32" "c = charmap ! k" by (auto simp: in_set_conv_nth)
  then have "char_to_symbol c = of_nat k" using symbol_table by (auto simp: list_all_iff)
  with k show ?thesis by (simp add: unat_of_nat)
qed

lemma symbol_digit: "char_to_symbol c AND 0x1F = char_to_symbol c"
proof -
  have "\<exists>k<32. char_to_symbol c = of_nat k"
  proof -
    let ?n = "of_char c :: nat"
    consider "97 \<le> ?n \<and> ?n \<le> 122" | "\<not> (97 \<le> ?n \<and> ?n \<le> 122)" "49 \<le> ?n \<and> ?n \<le> 53"
      | "\<not> (97 \<le> ?n \<and> ?n \<le> 122)" "\<not> (49 \<le> ?n \<and> ?n \<le> 53)" by blast
    then show ?thesis
    proof cases
      case 1
      then show ?thesis unfolding char_to_symbol_def Let_def
        by (intro exI [of _ "?n - 97 + 6"]) (auto simp del: of_nat_add)
    next
      case 2
      then show ?thesis unfolding char_to_symbol_def Let_def
        by (intro exI [of _ "?n - 49 + 1"]) (auto simp del: of_nat_add)
    next
      case 3
      then show ?thesis unfolding char_to_symbol_def Let_def
        by (intro exI [of _ 0]) auto
    qed
  qed
  then show ?thesis by (auto simp: digit_iff unat_of_nat)
qed

lemma decode_chars_dig: "decode_chars n tmp str = map (\<lambda>d. charmap ! unat d) (dig n tmp) @ str"
  by (induction n arbitrary: tmp str) auto

section \<open>Trailing dots\<close>

lemma symbol_dot: "char_to_symbol CHR ''.'' = 0"
  by code_simp

lemma encode_chars_snoc:
  "encode_chars i (cs @ [c]) name =
    encode_chars i cs name OR push_bit (64 - 5 * (i + length cs + 1)) (char_to_symbol c AND 0x1F)"
  by (induction cs arbitrary: i name) auto

lemma string_to_name_dot: "length s \<le> 12 \<Longrightarrow> string_to_name (s @ ''.'') = string_to_name s"
  by (cases "length s = 12")
    (simp_all add: string_to_name_def Let_def nth_append symbol_dot encode_chars_snoc)

lemma string_to_name_dots:
  "length s + k \<le> 13 \<Longrightarrow> string_to_name (s @ replicate k CHR ''.'') = string_to_name s"
proof (induction k)
  case (Suc k)
  have "s @ replicate (Suc k) CHR ''.'' = (s @ replicate k CHR ''.'') @ ''.''"
    by (simp add: replicate_append_same)
  with Suc show ?case by (simp add: string_to_name_dot del: append_assoc replicate.simps)
qed simp

lemma trim_dots_decomp: "\<exists>k. s = trim_dots s @ replicate k CHR ''.''"
proof -
  let ?p = "\<lambda>c. c = CHR ''.''"
  have "takeWhile ?p (rev s) = replicate (length (takeWhile ?p (rev s))) CHR ''.''"
    by (induction "rev s" arbitrary: s) (auto simp: takeWhile_eq_Nil_iff intro!: replicate_eqI dest: set_takeWhileD)
  then have "rev s = replicate (length (takeWhile ?p (rev s))) CHR ''.'' @ dropWhile ?p (rev s)"
    by (metis takeWhile_dropWhile_id)
  then have "s = rev (dropWhile ?p (rev s)) @ replicate (length (takeWhile ?p (rev s))) CHR ''.''"
    by (metis rev_append rev_replicate rev_rev_ident)
  then show ?thesis unfolding trim_dots_def by blast
qed

lemma trim_dots_last: "trim_dots s \<noteq> [] \<Longrightarrow> last (trim_dots s) \<noteq> CHR ''.''"
  using hd_dropWhile [of "\<lambda>c. c = CHR ''.''" "rev s"] by (simp add: trim_dots_def last_rev)

lemma trim_dots_append:
  "(s \<noteq> [] \<longrightarrow> last s \<noteq> CHR ''.'') \<Longrightarrow> trim_dots (s @ replicate k CHR ''.'') = s"
proof -
  assume l: "s \<noteq> [] \<longrightarrow> last s \<noteq> CHR ''.''"
  have "dropWhile (\<lambda>c. c = CHR ''.'') (replicate k CHR ''.'' @ rev s) = rev s"
    using l by (induction k) (cases s rule: rev_cases, auto)
  then show ?thesis by (simp add: trim_dots_def)
qed

section \<open>Printing and parsing\<close>

lemma string_to_name_13:
  assumes "length s = 13"
  shows "string_to_name s = push_bit 4 (enc (map char_to_symbol (take 12 s))) OR (char_to_symbol (s ! 12) AND 0x0F)"
  using assms by (simp add: string_to_name_def Let_def encode_chars_enc symbol_digit min_def)

definition raw_string :: "u64 \<Rightarrow> string" where
  "raw_string v = map (\<lambda>d. charmap ! unat d) (dig 12 (drop_bit 4 v)) @ [charmap ! unat (v AND 0x0F)]"

lemma name_to_string_raw: "name_to_string v = trim_dots (raw_string v)"
  by (simp add: name_to_string_def raw_string_def decode_chars_dig)

lemma low_digit: "unat (v AND 0x0F :: u64) < 16"
  by (simp add: unat_and_15)

text \<open>C33. Printing a name and parsing the result gives the name back, for every 64-bit value.\<close>

theorem string_to_name_to_string: "string_to_name (name_to_string v) = v"
proof -
  obtain k where k: "raw_string v = name_to_string v @ replicate k CHR ''.''"
    using trim_dots_decomp name_to_string_raw by metis
  have len: "length (raw_string v) = 13" by (simp add: raw_string_def)
  have "length (name_to_string v) + k = 13" using arg_cong [OF k, of length] len by simp
  then have "string_to_name (name_to_string v) = string_to_name (raw_string v)"
    by (simp add: k string_to_name_dots)
  also have "map char_to_symbol (take 12 (raw_string v)) = dig 12 (drop_bit 4 v)"
    unfolding raw_string_def
    by (simp add: comp_def) (rule map_idI, simp add: symbol_of_charmap unat_digit dig_digit)
  then have "string_to_name (raw_string v) = push_bit 4 (take_bit 60 (drop_bit 4 v)) OR (v AND 0x0F)"
    unfolding string_to_name_13 [OF len]
    using low_digit [of v] by (simp add: enc_dig raw_string_def nth_append symbol_of_charmap and.assoc)
  also have "\<dots> = v"
    unfolding mask_4 by (rule bit_word_eqI) (auto simp: bit_simps)
  finally show ?thesis .
qed


text \<open>The strings that are names: at most 13 characters of the alphabet, no dot at the end, and a
  13th character that fits in 4 bits.\<close>

definition canonical_name :: "string \<Rightarrow> bool" where
  "canonical_name s \<longleftrightarrow> length s \<le> 13 \<and> set s \<subseteq> set charmap
    \<and> (s \<noteq> [] \<longrightarrow> last s \<noteq> CHR ''.'')
    \<and> (length s = 13 \<longrightarrow> unat (char_to_symbol (s ! 12)) < 16)"

lemma charmap_nth_mem: "unat d < 32 \<Longrightarrow> charmap ! unat d \<in> set charmap"
  by simp

lemma raw_string_props:
  "length (raw_string v) = 13" "set (raw_string v) \<subseteq> set charmap"
  "char_to_symbol (raw_string v ! 12) = v AND 0x0F"
proof -
  show "length (raw_string v) = 13" by (simp add: raw_string_def)
  show "set (raw_string v) \<subseteq> set charmap"
    using low_digit [of v] by (auto simp: raw_string_def dig_digit unat_digit)
  show "char_to_symbol (raw_string v ! 12) = v AND 0x0F"
    using low_digit [of v] by (simp add: raw_string_def nth_append symbol_of_charmap)
qed

lemma name_to_string_canonical: "canonical_name (name_to_string v)"
proof -
  obtain k where k: "raw_string v = name_to_string v @ replicate k CHR ''.''"
    using trim_dots_decomp name_to_string_raw by metis
  have len: "length (name_to_string v) + k = 13"
    using arg_cong [OF k, of length] raw_string_props(1) [of v] by simp
  have "set (name_to_string v) \<subseteq> set charmap" using raw_string_props(2) [of v] k by auto
  moreover have "name_to_string v \<noteq> [] \<longrightarrow> last (name_to_string v) \<noteq> CHR ''.''"
    using trim_dots_last name_to_string_raw by metis
  moreover have "length (name_to_string v) = 13 \<longrightarrow> unat (char_to_symbol (name_to_string v ! 12)) < 16"
  proof
    assume l: "length (name_to_string v) = 13"
    with k len have "raw_string v = name_to_string v" by simp
    then show "unat (char_to_symbol (name_to_string v ! 12)) < 16"
      using raw_string_props(3) [of v] low_digit [of v] by simp
  qed
  ultimately show ?thesis using len by (simp add: canonical_name_def)
qed

lemma raw_string_of_name:
  assumes "length s = 13" "set s \<subseteq> set charmap" "unat (char_to_symbol (s ! 12)) < 16"
  shows "raw_string (string_to_name s) = s"
proof -
  let ?ds = "map char_to_symbol (take 12 s)" and ?d = "char_to_symbol (s ! 12)"
  have ok: "\<forall>d\<in>set ?ds. d AND 0x1F = d" by (auto simp: symbol_digit)
  have d: "?d AND 0x0F = ?d"
    using assms(3) by (simp only: word_unat_eq_iff unat_and_15) simp
  have v: "string_to_name s = push_bit 4 (enc ?ds) OR ?d"
    using assms(1) by (simp add: string_to_name_13 d)
  have db: "bit ?d i \<Longrightarrow> i < 4" for i
    using d unfolding mask_4 by (metis bit_and_iff bit_mask_iff)
  have "drop_bit 4 (push_bit 4 (enc ?ds) OR ?d) = enc ?ds"
  proof (rule bit_word_eqI)
    fix i
    have "bit (enc ?ds) i \<Longrightarrow> i + 4 < 64" using enc_bound [OF ok, of i] assms(1) by simp
    then show "bit (drop_bit 4 (push_bit 4 (enc ?ds) OR ?d)) i \<longleftrightarrow> bit (enc ?ds) i"
      using db [of "4 + i"] by (auto simp: bit_simps)
  qed
  then have hi: "dig 12 (drop_bit 4 (string_to_name s)) = ?ds"
    using dig_enc [OF ok] assms(1) by (simp add: v)
  have lo: "string_to_name s AND 0x0F = ?d"
    unfolding v mask_4 by (rule bit_word_eqI) (use d db in \<open>auto simp: bit_simps\<close>)
  have "map (\<lambda>d. charmap ! unat d) ?ds = take 12 s"
    using assms(2) by (simp add: comp_def) (rule map_idI, auto dest!: in_set_takeD simp: charmap_of_symbol)
  moreover have "charmap ! unat ?d = s ! 12"
    using assms(1,2) by (intro charmap_of_symbol) auto
  ultimately show ?thesis
    using assms(1) by (simp only: raw_string_def hi lo) (simp add: take_Suc_conv_app_nth [symmetric] Suc_numeral)
qed

lemma dot_in_charmap: "CHR ''.'' \<in> set charmap"
  by (simp add: charmap_def)

lemma name_to_string_of_name: "canonical_name s \<Longrightarrow> name_to_string (string_to_name s) = s"
proof -
  assume c: "canonical_name s"
  let ?k = "13 - length s"
  let ?s = "s @ replicate ?k CHR ''.''"
  have "unat (char_to_symbol (?s ! 12)) < 16"
    using c by (cases "length s = 13") (auto simp: canonical_name_def nth_append symbol_dot)
  then have "raw_string (string_to_name ?s) = ?s"
    using c dot_in_charmap by (intro raw_string_of_name) (auto simp: canonical_name_def)
  moreover have "string_to_name ?s = string_to_name s"
    using c by (intro string_to_name_dots) (simp add: canonical_name_def)
  ultimately show ?thesis
    using c by (simp add: name_to_string_raw trim_dots_append canonical_name_def)
qed

text \<open>\<^verbatim>\<open>name::set\<close> accepts exactly the canonical strings (up to the first zero character) and
  stores their encoding; every other string is rejected with \<^verbatim>\<open>name_type_exception\<close>.\<close>

theorem name_set_iff:
  "name_set s = (if canonical_name (c_str s) then Inr (string_to_name (c_str s)) else Inl name_type_exception)"
proof (cases "canonical_name (c_str s)")
  case True
  then have "length (c_str s) \<le> 13" by (simp add: canonical_name_def)
  with True show ?thesis by (simp add: name_set_def name_to_string_of_name)
next
  case False
  then have "name_to_string (string_to_name (c_str s)) \<noteq> c_str s"
    using name_to_string_canonical by metis
  with False show ?thesis by (simp add: name_set_def SNAX_ASSERT_def Let_def)
qed


lemma string_to_name_inj:
  assumes "canonical_name s" "canonical_name t" "string_to_name s = string_to_name t"
  shows "s = t"
  using assms name_to_string_of_name by metis

end
