(* ===== verification/Permissions.thy ===== *)
theory Permissions
  imports Authority Names Merkle
begin

text \<open>
  The authorization manager: \<^verbatim>\<open>authorization_manager.cpp\<close>, with the permission objects and
  links it keeps (\<^verbatim>\<open>permission_object.hpp\<close>, \<^verbatim>\<open>permission_link_object.hpp\<close>) and the
  native action types (\<^verbatim>\<open>contract_types.hpp\<close>).  Object ids are natural numbers that the
  database hands out in ascending order; the object with id 0 is the reserved dummy.  The data of an
  action is a byte string; its unpacking by the \<^verbatim>\<open>fc\<close> library is a parameter, the record
  \<^verbatim>\<open>codec\<close>.
\<close>

section \<open>Names of the configuration\<close>

definition system_account_name :: account_name where "system_account_name = N ''snax''"
definition active_name :: account_name where "active_name = N ''active''"
definition owner_name :: account_name where "owner_name = N ''owner''"
definition snax_any_name :: account_name where "snax_any_name = N ''snax.any''"
definition snax_code_name :: account_name where "snax_code_name = N ''snax.code''"

section \<open>Actions\<close>

record action =
  act_account :: account_name
  act_name :: account_name
  act_authorization :: "permission_level list"
  act_data :: bytes

record 'k newaccount =
  na_creator :: account_name
  na_name :: account_name
  na_owner :: "'k authority"
  na_active :: "'k authority"

record setcode =
  sc_account :: account_name
  sc_vmtype :: u8
  sc_vmversion :: u8
  sc_code :: bytes

record setabi =
  sa_account :: account_name
  sa_abi :: bytes

record 'k updateauth =
  ua_account :: account_name
  ua_permission :: account_name
  ua_parent :: account_name
  ua_auth :: "'k authority"

record deleteauth =
  da_account :: account_name
  da_permission :: account_name

record linkauth =
  la_account :: account_name
  la_code :: account_name
  la_type :: account_name
  la_requirement :: account_name

record unlinkauth =
  ul_account :: account_name
  ul_code :: account_name
  ul_type :: account_name

record canceldelay =
  cd_canceling_auth :: permission_level
  cd_trx_id :: digest_type

record 'k codec =
  as_newaccount :: "bytes \<Rightarrow> 'k newaccount result"
  as_setcode :: "bytes \<Rightarrow> setcode result"
  as_setabi :: "bytes \<Rightarrow> setabi result"
  as_updateauth :: "bytes \<Rightarrow> 'k updateauth result"
  as_deleteauth :: "bytes \<Rightarrow> deleteauth result"
  as_linkauth :: "bytes \<Rightarrow> linkauth result"
  as_unlinkauth :: "bytes \<Rightarrow> unlinkauth result"
  as_canceldelay :: "bytes \<Rightarrow> canceldelay result"
  unpack_actions :: "bytes \<Rightarrow> action list result"

section \<open>Objects\<close>

record 'k permission_object =
  po_usage_id :: nat
  po_parent :: nat
  po_owner :: account_name
  po_name :: account_name
  po_last_updated :: microseconds
  po_auth :: "'k authority"

record generated_transaction_object =
  gt_sender :: account_name
  gt_sender_id :: u128
  gt_payer :: account_name
  gt_delay_until :: microseconds
  gt_expiration :: microseconds
  gt_published :: microseconds
  gt_packed_trx :: bytes

text \<open>
  The tables of the manager.  Permissions are kept by id, links by (account, code, message type) with
  the required permission as value, generated transactions by transaction id.  The last three fields
  are what the manager reads from the controller: the time of the pending block and two settings of
  the chain configuration.
\<close>

record 'k auth_db =
  ad_permissions :: "(nat, 'k permission_object) index"
  ad_next_permission :: nat
  ad_usages :: "(nat, microseconds) index"
  ad_next_usage :: nat
  ad_links :: "(account_name \<times> account_name \<times> account_name, account_name) index"
  ad_generated :: "(digest_type, generated_transaction_object) index"
  ad_pending_block_time :: microseconds
  ad_max_transaction_delay :: u32
  ad_max_authority_depth :: u16

definition reserved_permission :: "'k permission_object" where
  "reserved_permission = \<lparr>po_usage_id = 0, po_parent = 0, po_owner = 0, po_name = 0,
     po_last_updated = 0, po_auth = \<lparr>threshold = 0, keys = [], accounts = [], waits = []\<rparr>\<rparr>"

definition auth_initialize_database :: "microseconds \<Rightarrow> u32 \<Rightarrow> u16 \<Rightarrow> 'k auth_db" where
  "auth_initialize_database time max_delay max_depth = \<lparr>
     ad_permissions = [(0, reserved_permission)], ad_next_permission = 1,
     ad_usages = [], ad_next_usage = 0, ad_links = [], ad_generated = [],
     ad_pending_block_time = time, ad_max_transaction_delay = max_delay,
     ad_max_authority_depth = max_depth\<rparr>"

text \<open>The index \<^verbatim>\<open>by_owner\<close>: the row with a given owner and name.\<close>

definition find_by_owner ::
  "(nat, 'k permission_object) index \<Rightarrow> account_name \<Rightarrow> account_name \<Rightarrow> (nat \<times> 'k permission_object) option" where
  "find_by_owner t owner name =
    List.find (\<lambda>r. po_owner (snd r) = owner \<and> po_name (snd r) = name) (idx_rows t)"

section \<open>Permissions\<close>

definition create_permission ::
  "'k auth_db \<Rightarrow> account_name \<Rightarrow> account_name \<Rightarrow> nat \<Rightarrow> 'k authority \<Rightarrow> microseconds \<Rightarrow>
   ('k auth_db \<times> nat) result" where
  "create_permission db account name parent auth initial_creation_time =
    (let creation_time =
           (if initial_creation_time = 0 then ad_pending_block_time db else initial_creation_time);
         usage_id = ad_next_usage db; pid = ad_next_permission db;
         perm = \<lparr>po_usage_id = usage_id, po_parent = parent, po_owner = account, po_name = name,
                 po_last_updated = creation_time, po_auth = auth\<rparr>
     in ebind (idx_create usage_id creation_time (ad_usages db)) (\<lambda>usages.
        if find_by_owner (ad_permissions db) account name \<noteq> None then Inl uniqueness_violation
        else ebind (idx_create pid perm (ad_permissions db)) (\<lambda>permissions.
          Inr (db\<lparr>ad_usages := usages, ad_next_usage := usage_id + 1,
                  ad_permissions := permissions, ad_next_permission := pid + 1\<rparr>, pid))))"

definition modify_permission :: "'k auth_db \<Rightarrow> nat \<Rightarrow> 'k authority \<Rightarrow> 'k auth_db" where
  "modify_permission db pid auth =
    db\<lparr>ad_permissions := idx_modify pid
      (\<lambda>po. po\<lparr>po_auth := auth, po_last_updated := ad_pending_block_time db\<rparr>) (ad_permissions db)\<rparr>"

definition has_children :: "(nat, 'k permission_object) index \<Rightarrow> nat \<Rightarrow> bool" where
  "has_children t pid \<longleftrightarrow> list_ex (\<lambda>r. po_parent (snd r) = pid) (idx_rows t)"

definition remove_permission :: "'k auth_db \<Rightarrow> nat \<Rightarrow> 'k permission_object \<Rightarrow> 'k auth_db result" where
  "remove_permission db pid permission =
    SNAX_ASSERT (\<not> has_children (ad_permissions db) pid) action_validate_exception
      (Inr (db\<lparr>ad_usages := idx_remove (po_usage_id permission) (ad_usages db),
               ad_permissions := idx_remove pid (ad_permissions db)\<rparr>))"

definition update_permission_usage :: "'k auth_db \<Rightarrow> 'k permission_object \<Rightarrow> 'k auth_db result" where
  "update_permission_usage db permission =
    ebind (idx_get (ad_usages db) (po_usage_id permission)) (\<lambda>_.
    Inr (db\<lparr>ad_usages := idx_put (po_usage_id permission) (ad_pending_block_time db) (ad_usages db)\<rparr>))"

definition get_permission_last_used :: "'k auth_db \<Rightarrow> 'k permission_object \<Rightarrow> microseconds result" where
  "get_permission_last_used db permission = idx_get (ad_usages db) (po_usage_id permission)"

text \<open>An exception that is not one of the chain's, thrown inside these two, leaves them as
  \<^verbatim>\<open>permission_query_exception\<close>; \<^verbatim>\<open>invalid_permission\<close> is one of the chain's and
  leaves them unchanged.\<close>

definition find_permission ::
  "'k auth_db \<Rightarrow> permission_level \<Rightarrow> (nat \<times> 'k permission_object) option result" where
  "find_permission db level =
    SNAX_ASSERT (fst level \<noteq> 0 \<and> snd level \<noteq> 0) invalid_permission
      (Inr (find_by_owner (ad_permissions db) (fst level) (snd level)))"

definition get_permission :: "'k auth_db \<Rightarrow> permission_level \<Rightarrow> (nat \<times> 'k permission_object) result" where
  "get_permission db level =
    SNAX_ASSERT (fst level \<noteq> 0 \<and> snd level \<noteq> 0) invalid_permission
      (case find_by_owner (ad_permissions db) (fst level) (snd level) of
         None \<Rightarrow> Inl permission_query_exception
       | Some p \<Rightarrow> Inr p)"

text \<open>
  \<^verbatim>\<open>permission_object::satisfies\<close>.  The walk up the parents dereferences what the lookup by id
  returns and stops at a parent id of 0; \<^term>\<open>None\<close> stands for a lookup that found nothing (a
  dangling pointer) and for a walk that does not end.
\<close>

partial_function (option) walk_up ::
  "(nat, 'k permission_object) index \<Rightarrow> nat \<Rightarrow> nat \<Rightarrow> bool option" where
  "walk_up t pid p =
    (case idx_find t p of
       None \<Rightarrow> None
     | Some parent \<Rightarrow>
         if pid = po_parent parent then Some True
         else if po_parent parent = 0 then Some False
         else walk_up t pid (po_parent parent))"

definition satisfies ::
  "(nat, 'k permission_object) index \<Rightarrow> nat \<times> 'k permission_object \<Rightarrow> nat \<times> 'k permission_object \<Rightarrow>
   bool result" where
  "satisfies t this other =
    (if po_owner (snd this) \<noteq> po_owner (snd other) then Inr False
     else if fst this = fst other \<or> fst this = po_parent (snd other) then Inr True
     else (case walk_up t (fst this) (po_parent (snd other)) of
             None \<Rightarrow> Inl undefined_behaviour
           | Some r \<Rightarrow> Inr r))"

section \<open>Links\<close>

definition lookup_linked_permission ::
  "'k auth_db \<Rightarrow> account_name \<Rightarrow> account_name \<Rightarrow> account_name \<Rightarrow> account_name option" where
  "lookup_linked_permission db authorizer_account scope name =
    (case idx_find (ad_links db) (authorizer_account, scope, name) of
       Some required_permission \<Rightarrow> Some required_permission
     | None \<Rightarrow> idx_find (ad_links db) (authorizer_account, scope, 0))"

definition native_auth_actions :: "account_name list" where
  "native_auth_actions =
    [N ''updateauth'', N ''deleteauth'', N ''linkauth'', N ''unlinkauth'', N ''canceldelay'']"

definition lookup_minimum_permission ::
  "'k auth_db \<Rightarrow> account_name \<Rightarrow> account_name \<Rightarrow> account_name \<Rightarrow> account_name option result" where
  "lookup_minimum_permission db authorizer_account scope name =
    SNAX_ASSERT (scope \<noteq> system_account_name \<or> name \<notin> set native_auth_actions)
      unlinkable_min_permission_action
      (case lookup_linked_permission db authorizer_account scope name of
         None \<Rightarrow> Inr (Some active_name)
       | Some linked_permission \<Rightarrow>
           if linked_permission = snax_any_name then Inr None else Inr (Some linked_permission))"

section \<open>Checks of the native actions\<close>

text \<open>The declared permission must satisfy the minimum one.\<close>

definition require_satisfies ::
  "'k auth_db \<Rightarrow> permission_level \<Rightarrow> nat \<times> 'k permission_object \<Rightarrow> unit result" where
  "require_satisfies db auth min_permission =
    ebind (get_permission db auth) (\<lambda>p.
    ebind (satisfies (ad_permissions db) p min_permission) (\<lambda>ok.
    SNAX_ASSERT ok irrelevant_auth_exception (Inr ())))"

definition check_updateauth_authorization ::
  "'k auth_db \<Rightarrow> 'k updateauth \<Rightarrow> permission_level list \<Rightarrow> unit result" where
  "check_updateauth_authorization db update auths =
    SNAX_ASSERT (length auths = 1) irrelevant_auth_exception (
    let auth = auths ! 0 in
    SNAX_ASSERT (fst auth = ua_account update) irrelevant_auth_exception (
    ebind (find_permission db (ua_account update, ua_permission update)) (\<lambda>found.
    ebind (case found of
             Some min_permission \<Rightarrow> Inr min_permission
           | None \<Rightarrow> get_permission db (ua_account update, ua_parent update)) (\<lambda>min_permission.
    require_satisfies db auth min_permission))))"

definition check_deleteauth_authorization ::
  "'k auth_db \<Rightarrow> deleteauth \<Rightarrow> permission_level list \<Rightarrow> unit result" where
  "check_deleteauth_authorization db del auths =
    SNAX_ASSERT (length auths = 1) irrelevant_auth_exception (
    let auth = auths ! 0 in
    SNAX_ASSERT (fst auth = da_account del) irrelevant_auth_exception (
    ebind (get_permission db (da_account del, da_permission del)) (\<lambda>min_permission.
    require_satisfies db auth min_permission)))"

definition check_linkauth_authorization ::
  "'k auth_db \<Rightarrow> linkauth \<Rightarrow> permission_level list \<Rightarrow> unit result" where
  "check_linkauth_authorization db link auths =
    SNAX_ASSERT (length auths = 1) irrelevant_auth_exception (
    let auth = auths ! 0 in
    SNAX_ASSERT (fst auth = la_account link) irrelevant_auth_exception (
    SNAX_ASSERT (la_type link \<notin> set native_auth_actions) action_validate_exception (
    ebind (lookup_minimum_permission db (la_account link) (la_code link) (la_type link)) (\<lambda>linked.
    case linked of
      None \<Rightarrow> Inr ()
    | Some linked_permission_name \<Rightarrow>
        ebind (get_permission db auth) (\<lambda>p.
        ebind (get_permission db (la_account link, linked_permission_name)) (\<lambda>min_permission.
        require_satisfies db auth min_permission))))))"

definition check_unlinkauth_authorization ::
  "'k auth_db \<Rightarrow> unlinkauth \<Rightarrow> permission_level list \<Rightarrow> unit result" where
  "check_unlinkauth_authorization db unlink auths =
    SNAX_ASSERT (length auths = 1) irrelevant_auth_exception (
    let auth = auths ! 0 in
    SNAX_ASSERT (fst auth = ul_account unlink) irrelevant_auth_exception (
    case lookup_linked_permission db (ul_account unlink) (ul_code unlink) (ul_type unlink) of
      None \<Rightarrow> Inl transaction_exception
    | Some unlinked_permission_name \<Rightarrow>
        if unlinked_permission_name = snax_any_name then Inr ()
        else
          ebind (get_permission db auth) (\<lambda>p.
          ebind (get_permission db (ul_account unlink, unlinked_permission_name)) (\<lambda>min_permission.
          require_satisfies db auth min_permission))))"

definition check_canceldelay_authorization ::
  "'k codec \<Rightarrow> 'k auth_db \<Rightarrow> canceldelay \<Rightarrow> permission_level list \<Rightarrow> microseconds result" where
  "check_canceldelay_authorization cdc db cancel auths =
    SNAX_ASSERT (length auths = 1) irrelevant_auth_exception (
    let auth = auths ! 0 in
    ebind (get_permission db auth) (\<lambda>p.
    ebind (get_permission db (cd_canceling_auth cancel)) (\<lambda>min_permission.
    ebind (require_satisfies db auth min_permission) (\<lambda>_.
    case idx_find (ad_generated db) (cd_trx_id cancel) of
      None \<Rightarrow> Inl tx_not_found
    | Some gtx \<Rightarrow>
        SNAX_ASSERT (gt_sender gtx = 0) tx_not_found (
        ebind (unpack_actions cdc (gt_packed_trx gtx)) (\<lambda>actions.
        let found = list_ex (\<lambda>act. cd_canceling_auth cancel \<in> set (act_authorization act)) actions in
        SNAX_ASSERT found action_validate_exception
          (Inr (gt_delay_until gtx - gt_published gtx))))))))"

section \<open>Checking the authorization of actions\<close>

definition max_microseconds :: microseconds where
  "max_microseconds = 0x7FFFFFFFFFFFFFFF"

definition effective_delay :: "'k auth_db \<Rightarrow> microseconds \<Rightarrow> microseconds" where
  "effective_delay db delay =
    (if delay \<ge> uint (ad_max_transaction_delay db) * 1000000 then max_microseconds else delay)"

definition make_auth_checker ::
  "'k auth_db \<Rightarrow> 'k list \<Rightarrow> permission_level list \<Rightarrow> microseconds \<Rightarrow> 'k authority_checker" where
  "make_auth_checker db sig_keys permissions delay =
    \<lparr>permission_to_authority = (\<lambda>p. ebind (get_permission db p) (\<lambda>r. Inr (po_auth (snd r)))),
     provided_keys = sig_keys, provided_permissions = permissions, provided_delay = delay,
     recursion_depth_limit = ad_max_authority_depth db\<rparr>"

text \<open>The native actions are checked against their own rules; the result says whether the action is
  such a special case, and the delay that applies to it.\<close>

definition check_special_case ::
  "'k codec \<Rightarrow> 'k auth_db \<Rightarrow> microseconds \<Rightarrow> action \<Rightarrow> (bool \<times> microseconds) result" where
  "check_special_case cdc db delay act =
    (if act_account act = system_account_name then
       if act_name act = N ''updateauth'' then
         ebind (as_updateauth cdc (act_data act)) (\<lambda>d.
         ebind (check_updateauth_authorization db d (act_authorization act)) (\<lambda>_. Inr (True, delay)))
       else if act_name act = N ''deleteauth'' then
         ebind (as_deleteauth cdc (act_data act)) (\<lambda>d.
         ebind (check_deleteauth_authorization db d (act_authorization act)) (\<lambda>_. Inr (True, delay)))
       else if act_name act = N ''linkauth'' then
         ebind (as_linkauth cdc (act_data act)) (\<lambda>d.
         ebind (check_linkauth_authorization db d (act_authorization act)) (\<lambda>_. Inr (True, delay)))
       else if act_name act = N ''unlinkauth'' then
         ebind (as_unlinkauth cdc (act_data act)) (\<lambda>d.
         ebind (check_unlinkauth_authorization db d (act_authorization act)) (\<lambda>_. Inr (True, delay)))
       else if act_name act = N ''canceldelay'' then
         ebind (as_canceldelay cdc (act_data act)) (\<lambda>d.
         ebind (check_canceldelay_authorization cdc db d (act_authorization act)) (\<lambda>t.
         Inr (True, max delay t)))
       else Inr (False, delay)
     else Inr (False, delay))"

definition check_minimum_permission :: "'k auth_db \<Rightarrow> action \<Rightarrow> permission_level \<Rightarrow> unit result" where
  "check_minimum_permission db act declared_auth =
    ebind (lookup_minimum_permission db (fst declared_auth) (act_account act) (act_name act)) (\<lambda>m.
    case m of
      None \<Rightarrow> Inr ()
    | Some min_permission_name \<Rightarrow>
        ebind (get_permission db (fst declared_auth, min_permission_name)) (\<lambda>min_permission.
        require_satisfies db declared_auth min_permission))"

type_synonym to_satisfy = "(permission_level, microseconds) index"

definition add_to_satisfy :: "permission_level \<Rightarrow> microseconds \<Rightarrow> to_satisfy \<Rightarrow> to_satisfy" where
  "add_to_satisfy p delay m =
    (case idx_find m p of
       None \<Rightarrow> idx_put p delay m
     | Some d \<Rightarrow> if d > delay then idx_put p delay m else m)"

definition check_declared ::
  "'k auth_db \<Rightarrow> permission_level list \<Rightarrow> action \<Rightarrow> bool \<Rightarrow> microseconds \<Rightarrow> to_satisfy \<Rightarrow>
   permission_level \<Rightarrow> to_satisfy result" where
  "check_declared db satisfied_authorizations act special_case delay m declared_auth =
    ebind (if special_case then Inr () else check_minimum_permission db act declared_auth) (\<lambda>_.
    Inr (if declared_auth \<in> set satisfied_authorizations then m
         else add_to_satisfy declared_auth delay m))"

definition check_action ::
  "'k codec \<Rightarrow> 'k auth_db \<Rightarrow> permission_level list \<Rightarrow> microseconds \<Rightarrow> to_satisfy \<Rightarrow> action \<Rightarrow> to_satisfy result" where
  "check_action cdc db satisfied_authorizations delay m act =
    ebind (check_special_case cdc db delay act) (\<lambda>(special_case, delay).
    efold (check_declared db satisfied_authorizations act special_case delay) m (act_authorization act))"

definition check_satisfied ::
  "'k authority_checker \<Rightarrow> bool list \<Rightarrow> permission_level \<times> microseconds \<Rightarrow> bool list result" where
  "check_satisfied checker used r =
    ebind (satisfied_permission_delay checker (fst r) (snd r) None used) (\<lambda>(ok, cache, used').
    SNAX_ASSERT ok unsatisfied_authorization (Inr used'))"

definition check_authorization ::
  "'k codec \<Rightarrow> 'k auth_db \<Rightarrow> action list \<Rightarrow> 'k list \<Rightarrow> permission_level list \<Rightarrow> microseconds \<Rightarrow> bool \<Rightarrow>
   permission_level list \<Rightarrow> unit result" where
  "check_authorization cdc db actions sig_keys permissions delay allow_unused_keys satisfied_authorizations =
    (let effective_provided_delay = effective_delay db delay;
         checker = make_auth_checker db sig_keys permissions effective_provided_delay
     in ebind (efold (check_action cdc db satisfied_authorizations effective_provided_delay) [] actions)
       (\<lambda>permissions_to_satisfy.
        ebind (efold (check_satisfied checker) (no_keys_used checker) (idx_rows permissions_to_satisfy))
       (\<lambda>used.
        if allow_unused_keys then Inr ()
        else SNAX_ASSERT (all_keys_used used) tx_irrelevant_sig (Inr ()))))"

definition check_authorization_permission ::
  "'k auth_db \<Rightarrow> account_name \<Rightarrow> account_name \<Rightarrow> 'k list \<Rightarrow> permission_level list \<Rightarrow> microseconds \<Rightarrow> bool \<Rightarrow>
   unit result" where
  "check_authorization_permission db account permission sig_keys permissions delay allow_unused_keys =
    (let checker = make_auth_checker db sig_keys permissions (effective_delay db delay)
     in ebind (satisfied_permission checker (account, permission) None (no_keys_used checker))
       (\<lambda>(ok, cache, used).
        SNAX_ASSERT ok unsatisfied_authorization (
        if allow_unused_keys then Inr ()
        else SNAX_ASSERT (all_keys_used used) tx_irrelevant_sig (Inr ()))))"

definition get_required_keys ::
  "'k auth_db \<Rightarrow> action list \<Rightarrow> 'k list \<Rightarrow> microseconds \<Rightarrow> 'k list result" where
  "get_required_keys db actions candidate_keys delay =
    (let checker = make_auth_checker db candidate_keys [] delay
     in ebind (efold (\<lambda>used declared_auth.
          ebind (satisfied_permission checker declared_auth None used) (\<lambda>(ok, cache, used').
          SNAX_ASSERT ok unsatisfied_authorization (Inr used')))
          (no_keys_used checker) (concat (map act_authorization actions)))
       (\<lambda>used. Inr (used_keys checker used)))"

section \<open>The permission tree\<close>

text \<open>
  The invariant of the permission table: ids are handed out in ascending order, every permission but
  the reserved one has a parent with a smaller id that is in the table and, unless it is the reserved
  one, belongs to the same owner; owner and name determine the permission.
\<close>

definition perm_wf :: "(nat, 'k permission_object) index \<Rightarrow> nat \<Rightarrow> bool" where
  "perm_wf t next_id \<longleftrightarrow> idx_ok t \<and> 0 < next_id
    \<and> (\<exists>r. idx_find t 0 = Some r \<and> po_parent r = 0 \<and> po_owner r = 0 \<and> po_name r = 0)
    \<and> (\<forall>i p. idx_find t i = Some p \<longrightarrow> i < next_id)
    \<and> (\<forall>i p. idx_find t i = Some p \<and> i \<noteq> 0 \<longrightarrow> po_owner p \<noteq> 0 \<and> po_name p \<noteq> 0 \<and> po_parent p < i
        \<and> (\<exists>q. idx_find t (po_parent p) = Some q \<and> (po_parent p \<noteq> 0 \<longrightarrow> po_owner q = po_owner p)))
    \<and> (\<forall>i j p q. idx_find t i = Some p \<and> idx_find t j = Some q
        \<and> po_owner p = po_owner q \<and> po_name p = po_name q \<longrightarrow> i = j)"

lemma perm_wf_ok: "perm_wf t n \<Longrightarrow> idx_ok t"
  by (simp add: perm_wf_def)

lemma perm_wf_parent:
  assumes "perm_wf t n" "idx_find t i = Some p" "i \<noteq> 0"
  obtains q where "po_parent p < i" "idx_find t (po_parent p) = Some q"
    "po_parent p \<noteq> 0 \<longrightarrow> po_owner q = po_owner p"
  using assms unfolding perm_wf_def by blast

lemma perm_wf_reserved:
  assumes "perm_wf t n"
  obtains r where "idx_find t 0 = Some r" "po_parent r = 0" "po_owner r = 0" "po_name r = 0"
  using assms unfolding perm_wf_def by blast

lemma perm_wf_unique:
  "perm_wf t n \<Longrightarrow> idx_find t i = Some p \<Longrightarrow> idx_find t j = Some q \<Longrightarrow>
    po_owner p = po_owner q \<Longrightarrow> po_name p = po_name q \<Longrightarrow> i = j"
  unfolding perm_wf_def by blast

definition child_of :: "(nat, 'k permission_object) index \<Rightarrow> nat \<Rightarrow> nat \<Rightarrow> bool" where
  "child_of t i j \<longleftrightarrow> i \<noteq> 0 \<and> (\<exists>p. idx_find t i = Some p \<and> po_parent p = j)"

lemma child_of_parent: "idx_find t i = Some p \<Longrightarrow> i \<noteq> 0 \<Longrightarrow> child_of t i j \<longleftrightarrow> j = po_parent p"
  by (auto simp: child_of_def)

lemma tranclp_child_iff:
  assumes "idx_find t i = Some p" "i \<noteq> 0"
  shows "(child_of t)\<^sup>+\<^sup>+ i j \<longleftrightarrow> j = po_parent p \<or> (child_of t)\<^sup>+\<^sup>+ (po_parent p) j"
  by (subst tranclp_unfold_left) (auto simp: child_of_parent [OF assms] rtranclp_tranclp_iff)

lemma tranclp_child_0: "\<not> (child_of t)\<^sup>+\<^sup>+ 0 j"
  by (auto simp: child_of_def dest: tranclpD)

lemma walk_up_spec:
  assumes "perm_wf t n" "idx_find t p \<noteq> None" "pid \<noteq> 0"
  shows "walk_up t pid p = Some ((child_of t)\<^sup>+\<^sup>+ p pid)"
  using assms(2)
proof (induction p rule: less_induct)
  case (less p)
  show ?case
  proof (cases "p = 0")
    case True
    obtain r where "idx_find t 0 = Some r" "po_parent r = 0" by (rule perm_wf_reserved [OF assms(1)])
    with True assms(3) show ?thesis by (subst walk_up.simps) (simp add: tranclp_child_0)
  next
    case False
    from less.prems obtain x where x: "idx_find t p = Some x" by auto
    obtain q where q: "po_parent x < p" "idx_find t (po_parent x) = Some q"
      by (rule perm_wf_parent [OF assms(1) x False])
    then have IH: "walk_up t pid (po_parent x) = Some ((child_of t)\<^sup>+\<^sup>+ (po_parent x) pid)"
      by (intro less.IH) simp_all
    have "walk_up t pid p = (if pid = po_parent x then Some True
        else if po_parent x = 0 then Some False else walk_up t pid (po_parent x))"
      by (subst walk_up.simps) (simp add: x)
    with IH assms(3) show ?thesis
      by (auto simp: tranclp_child_iff [OF x False] tranclp_child_0)
  qed
qed

lemma child_of_owner:
  assumes "perm_wf t n" "(child_of t)\<^sup>*\<^sup>* j i" "i \<noteq> 0" "idx_find t j = Some y"
  shows "\<exists>x. idx_find t i = Some x \<and> po_owner x = po_owner y"
  using assms(2,3)
proof (induction rule: rtranclp_induct)
  case (step k i)
  then have "k \<noteq> 0" by (simp add: child_of_def)
  with step obtain x where x: "idx_find t k = Some x" "po_owner x = po_owner y" by auto
  with step.hyps(2) have "i = po_parent x" by (simp add: child_of_parent \<open>k \<noteq> 0\<close>)
  moreover obtain q where "po_parent x < k" "idx_find t (po_parent x) = Some q"
      "po_parent x \<noteq> 0 \<longrightarrow> po_owner q = po_owner x"
    by (rule perm_wf_parent [OF assms(1) x(1) \<open>k \<noteq> 0\<close>])
  ultimately show ?case using step.prems x by simp
qed (use assms(4) in simp)

lemma satisfies_ancestor:
  assumes "perm_wf t n" "idx_find t i = Some x" "idx_find t j = Some y" "i \<noteq> 0" "j \<noteq> 0"
  shows "satisfies t (i, x) (j, y) = Inr ((child_of t)\<^sup>*\<^sup>* j i)"
proof -
  have own: "(child_of t)\<^sup>*\<^sup>* j i \<Longrightarrow> po_owner x = po_owner y"
    using child_of_owner [OF assms(1) _ assms(4,3)] assms(2) by auto
  obtain q where q: "idx_find t (po_parent y) = Some q"
    by (rule perm_wf_parent [OF assms(1,3,5)])
  have walk: "walk_up t i (po_parent y) = Some ((child_of t)\<^sup>+\<^sup>+ (po_parent y) i)"
    using walk_up_spec [OF assms(1) _ assms(4), of "po_parent y"] q by simp
  have "(child_of t)\<^sup>*\<^sup>* j i \<longleftrightarrow> i = j \<or> i = po_parent y \<or> (child_of t)\<^sup>+\<^sup>+ (po_parent y) i"
    unfolding rtranclp_tranclp_iff [of "child_of t" j] tranclp_child_iff [OF assms(3,5)] by blast
  with own walk show ?thesis by (auto simp: satisfies_def)
qed

text \<open>C32. In a well-formed permission table \<^verbatim>\<open>satisfies\<close> always returns, never dereferences a
  missing parent, and answers true exactly when this permission is the other one or one of its
  ancestors.\<close>

theorem satisfies_iff_ancestor:
  assumes "perm_wf t n" "idx_find t i = Some x" "idx_find t j = Some y" "i \<noteq> 0" "j \<noteq> 0"
  shows "satisfies t (i, x) (j, y) = Inr ((child_of t)\<^sup>*\<^sup>* j i)"
  by (rule satisfies_ancestor [OF assms])

subsection \<open>The operations keep the tree well formed\<close>

lemma find_by_owner_Some:
  assumes "idx_ok t" "find_by_owner t owner name = Some (i, p)"
  shows "idx_find t i = Some p" "po_owner p = owner" "po_name p = name"
  using find_Some_mem [OF assms(2) [unfolded find_by_owner_def]] assms(1) by (auto simp: idx_rows_find)

lemma find_by_owner_None:
  assumes "idx_ok t" "find_by_owner t owner name = None" "idx_find t i = Some p"
  shows "po_owner p \<noteq> owner \<or> po_name p \<noteq> name"
  using assms by (auto simp: find_by_owner_def find_None_iff idx_rows_find [symmetric])

lemma find_by_owner_eq:
  assumes "perm_wf t n" "idx_find t i = Some p"
  shows "find_by_owner t (po_owner p) (po_name p) = Some (i, p)"
proof (cases "find_by_owner t (po_owner p) (po_name p)")
  case None
  with find_by_owner_None [OF perm_wf_ok [OF assms(1)] None assms(2)] show ?thesis by simp
next
  case (Some r)
  obtain j q where r: "r = (j, q)" by (cases r)
  note q = find_by_owner_Some [OF perm_wf_ok [OF assms(1)] Some [unfolded r]]
  from perm_wf_unique [OF assms(1) q(1) assms(2) q(2,3)] q(1) assms(2) Some r show ?thesis by simp
qed

lemma has_children_iff:
  "idx_ok t \<Longrightarrow> has_children t pid \<longleftrightarrow> (\<exists>i p. idx_find t i = Some p \<and> po_parent p = pid)"
  by (auto simp: has_children_def list_ex_iff Bex_def idx_rows_find)

lemma perm_wf_create:
  assumes "perm_wf t n" "find_by_owner t (po_owner p) (po_name p) = None" "po_owner p \<noteq> 0" "po_name p \<noteq> 0"
    "idx_find t (po_parent p) = Some q" "po_parent p \<noteq> 0 \<Longrightarrow> po_owner q = po_owner p"
  shows "perm_wf (idx_put n p t) (n + 1)"
proof -
  have old: "i < n" if "idx_find t i = Some x" for i x using assms(1) that by (simp add: perm_wf_def)
  have fresh: "\<not> (po_owner x = po_owner p \<and> po_name x = po_name p)" if "idx_find t i = Some x" for i x
    using find_by_owner_None [OF perm_wf_ok [OF assms(1)] assms(2) that] by auto
  have find: "idx_find (idx_put n p t) = (idx_find t)(n \<mapsto> p)"
    by (rule idx_find_put [OF perm_wf_ok [OF assms(1)]])
  have "\<forall>i x. idx_find (idx_put n p t) i = Some x \<and> i \<noteq> 0 \<longrightarrow> po_owner x \<noteq> 0 \<and> po_name x \<noteq> 0
      \<and> po_parent x < i \<and> (\<exists>q. idx_find (idx_put n p t) (po_parent x) = Some q
          \<and> (po_parent x \<noteq> 0 \<longrightarrow> po_owner q = po_owner x))" (is "\<forall>i x. ?P i x")
  proof (intro allI)
    fix i x
    show "?P i x"
    proof (cases "i = n")
      case True
      moreover have "idx_find (idx_put n p t) (po_parent p) = Some q"
        using old [OF assms(5)] assms(5) by (simp add: find)
      ultimately have "?P n p" using old [OF assms(5)] assms(3,4,6) by auto
      moreover have "idx_find (idx_put n p t) n = Some p" by (simp add: find)
      ultimately show ?thesis using True by (metis option.inject)
    next
      case False
      then show ?thesis using assms(1) unfolding perm_wf_def find by (metis fun_upd_apply old order_less_irrefl)
    qed
  qed
  moreover have "\<forall>i j x y. idx_find (idx_put n p t) i = Some x \<and> idx_find (idx_put n p t) j = Some y
      \<and> po_owner x = po_owner y \<and> po_name x = po_name y \<longrightarrow> i = j"
    unfolding find by (metis fresh fun_upd_apply option.inject perm_wf_unique [OF assms(1)])
  moreover have "\<exists>r. idx_find (idx_put n p t) 0 = Some r \<and> po_parent r = 0 \<and> po_owner r = 0 \<and> po_name r = 0"
    using perm_wf_reserved [OF assms(1)] old by (metis find fun_upd_other less_irrefl)
  moreover have "\<forall>i x. idx_find (idx_put n p t) i = Some x \<longrightarrow> i < n + 1"
    using old by (auto simp: find intro: less_SucI)
  ultimately show ?thesis unfolding perm_wf_def [of "idx_put n p t"]
    by (intro conjI) (simp_all only: idx_ok_put [OF perm_wf_ok [OF assms(1)]] zero_less_Suc Suc_eq_plus1 [symmetric])
qed

lemma create_permission_Inr:
  assumes "create_permission db account name parent auth ct = Inr (db', pid)"
  shows "find_by_owner (ad_permissions db) account name = None" "pid = ad_next_permission db"
    "\<exists>p. db' = db\<lparr>ad_usages := ad_usages db', ad_next_usage := ad_next_usage db',
        ad_permissions := idx_put pid p (ad_permissions db), ad_next_permission := pid + 1\<rparr>
      \<and> po_owner p = account \<and> po_name p = name \<and> po_parent p = parent \<and> po_auth p = auth"
  using assms by (auto simp: create_permission_def Let_def idx_create_Inr_iff simp flip: not_None_eq split: if_splits)

lemma perm_wf_create_permission:
  assumes "perm_wf (ad_permissions db) (ad_next_permission db)"
    "create_permission db account name parent auth ct = Inr (db', pid)" "account \<noteq> 0" "name \<noteq> 0"
    "idx_find (ad_permissions db) parent = Some q" "parent \<noteq> 0 \<Longrightarrow> po_owner q = account"
  shows "perm_wf (ad_permissions db') (ad_next_permission db')"
    "\<exists>p. idx_find (ad_permissions db') pid = Some p \<and> po_owner p = account"
proof -
  obtain p where p: "db' = db\<lparr>ad_usages := ad_usages db', ad_next_usage := ad_next_usage db',
        ad_permissions := idx_put pid p (ad_permissions db), ad_next_permission := pid + 1\<rparr>"
    "po_owner p = account" "po_name p = name" "po_parent p = parent"
    using create_permission_Inr(3) [OF assms(2)] by blast
  have db': "ad_permissions db' = idx_put pid p (ad_permissions db)" "ad_next_permission db' = pid + 1"
    by (subst p(1), simp)+
  note pid = create_permission_Inr(2) [OF assms(2)]
  show "perm_wf (ad_permissions db') (ad_next_permission db')"
    unfolding db' pid
    by (rule perm_wf_create) (use assms p create_permission_Inr(1) [OF assms(2)] in auto)
  show "\<exists>p. idx_find (ad_permissions db') pid = Some p \<and> po_owner p = account"
    using p perm_wf_ok [OF assms(1)] by (auto simp: db' idx_find_put)
qed

lemma perm_wf_cong:
  assumes "perm_wf t n" "idx_ok t'"
    "\<And>i. map_option (\<lambda>p. (po_owner p, po_name p, po_parent p)) (idx_find t' i)
       = map_option (\<lambda>p. (po_owner p, po_name p, po_parent p)) (idx_find t i)"
  shows "perm_wf t' n"
proof -
  have fwd: "\<exists>x. idx_find t i = Some x \<and> po_owner x = po_owner y \<and> po_name x = po_name y
      \<and> po_parent x = po_parent y" if "idx_find t' i = Some y" for i y
    using assms(3) [of i] that by (cases "idx_find t i"; cases "idx_find t' i") auto
  have bwd: "\<exists>x. idx_find t' i = Some x \<and> po_owner x = po_owner y \<and> po_name x = po_name y
      \<and> po_parent x = po_parent y" if "idx_find t i = Some y" for i y
    using assms(3) [of i] that by (cases "idx_find t i"; cases "idx_find t' i") auto
  show ?thesis
    unfolding perm_wf_def
  proof (intro conjI allI impI)
    show "\<exists>r. idx_find t' 0 = Some r \<and> po_parent r = 0 \<and> po_owner r = 0 \<and> po_name r = 0"
      using perm_wf_reserved [OF assms(1)] bwd by metis
  next
    fix i j p q
    assume "idx_find t' i = Some p \<and> idx_find t' j = Some q \<and> po_owner p = po_owner q \<and> po_name p = po_name q"
    then show "i = j" using fwd [of i p] fwd [of j q] perm_wf_unique [OF assms(1)] by metis
  next
    fix i p
    assume p: "idx_find t' i = Some p \<and> i \<noteq> 0"
    then obtain x where x: "idx_find t i = Some x" "po_owner x = po_owner p" "po_parent x = po_parent p"
      using fwd by blast
    obtain q where "po_parent x < i" "idx_find t (po_parent x) = Some q"
      "po_parent x \<noteq> 0 \<longrightarrow> po_owner q = po_owner x"
      by (rule perm_wf_parent [OF assms(1) x(1)]) (use p in simp_all)
    then show "\<exists>q. idx_find t' (po_parent p) = Some q \<and> (po_parent p \<noteq> 0 \<longrightarrow> po_owner q = po_owner p)"
      using x bwd by metis
  qed (use assms(1,2) fwd in \<open>auto simp: perm_wf_def, (metis fwd)+\<close>)
qed

lemma perm_wf_modify_permission:
  assumes wf: "perm_wf (ad_permissions db) (ad_next_permission db)"
  shows "perm_wf (ad_permissions (modify_permission db pid auth))
    (ad_next_permission (modify_permission db pid auth))"
proof -
  note find = idx_find_modify [OF perm_wf_ok [OF wf]]
  show ?thesis
    by (simp add: modify_permission_def, rule perm_wf_cong [OF wf])
      (simp_all add: idx_ok_modify perm_wf_ok [OF wf] find option.map_comp comp_def)
qed

lemma perm_wf_remove:
  assumes wf: "perm_wf t n" and leaf: "\<not> has_children t i"
  shows "perm_wf (idx_remove i t) n"
proof -
  obtain r where r: "idx_find t 0 = Some r" "po_parent r = 0" "po_owner r = 0" "po_name r = 0"
    by (rule perm_wf_reserved [OF wf])
  have no: "po_parent x \<noteq> i" if "idx_find t j = Some x" for j x
    using leaf that by (auto simp: has_children_iff perm_wf_ok [OF wf])
  have "i \<noteq> 0" using no [OF r(1)] r(2) by auto
  have find: "idx_find (idx_remove i t) j = (if j = i then None else idx_find t j)" for j
    by (simp add: idx_find_remove)
  show ?thesis
    unfolding perm_wf_def
  proof (intro conjI allI impI)
    show "\<exists>r. idx_find (idx_remove i t) 0 = Some r \<and> po_parent r = 0 \<and> po_owner r = 0 \<and> po_name r = 0"
      using r \<open>i \<noteq> 0\<close> by (simp add: find)
  next
    fix a b p q
    assume "idx_find (idx_remove i t) a = Some p \<and> idx_find (idx_remove i t) b = Some q
      \<and> po_owner p = po_owner q \<and> po_name p = po_name q"
    then show "a = b" using perm_wf_unique [OF wf, of a p b q] by (simp add: find split: if_splits)
  next
    fix j p
    assume "idx_find (idx_remove i t) j = Some p \<and> j \<noteq> 0"
    then have p: "idx_find t j = Some p" "j \<noteq> 0" by (simp_all add: find split: if_splits)
    obtain q where "po_parent p < j" "idx_find t (po_parent p) = Some q"
      "po_parent p \<noteq> 0 \<longrightarrow> po_owner q = po_owner p" by (rule perm_wf_parent [OF wf p])
    then show "\<exists>q. idx_find (idx_remove i t) (po_parent p) = Some q \<and> (po_parent p \<noteq> 0 \<longrightarrow> po_owner q = po_owner p)"
      using no [OF p(1)] by (simp add: find)
  qed (use wf in \<open>auto simp: perm_wf_def find idx_ok_remove split: if_splits\<close>)
qed

lemma perm_wf_remove_permission:
  "perm_wf (ad_permissions db) (ad_next_permission db) \<Longrightarrow> remove_permission db i p = Inr db' \<Longrightarrow>
    perm_wf (ad_permissions db') (ad_next_permission db')"
  by (auto simp: remove_permission_def intro: perm_wf_remove)

lemma perm_wf_initialize:
  "perm_wf (ad_permissions (auth_initialize_database time md mx))
     (ad_next_permission (auth_initialize_database time md mx))"
  by (auto simp: perm_wf_def auth_initialize_database_def reserved_permission_def idx_ok_def idx_find_def
      split: if_splits)

lemmas perm_wf_intros = perm_wf_initialize perm_wf_modify_permission perm_wf_remove_permission
  perm_wf_create_permission(1)

subsection \<open>Checking the authorization of actions\<close>

lemma satisfied_permission_delay_grants:
  assumes "satisfied_permission_delay (make_auth_checker db ks ps e) p d None used = Inr (True, cache, used')"
  shows "grants (make_auth_checker db ks ps d) p"
  using assms satisfied_permission_grants [of "make_auth_checker db ks ps d"]
  by (simp add: satisfied_permission_delay_def make_auth_checker_def)

text \<open>What the map of permissions to satisfy promises for a permission declared by an action with a
  given delay: either it was satisfied beforehand, or the map asks for it at a delay between the
  delay of the transaction and that of the action.\<close>

definition asked :: "permission_level list \<Rightarrow> microseconds \<Rightarrow> to_satisfy \<Rightarrow> permission_level \<Rightarrow> microseconds \<Rightarrow> bool" where
  "asked sat eff m p delay \<longleftrightarrow> p \<in> set sat \<or> (\<exists>d. idx_find m p = Some d \<and> eff \<le> d \<and> d \<le> delay)"

definition delays_from :: "microseconds \<Rightarrow> to_satisfy \<Rightarrow> bool" where
  "delays_from eff m \<longleftrightarrow> idx_ok m \<and> (\<forall>p d. idx_find m p = Some d \<longrightarrow> eff \<le> d)"

lemma add_to_satisfy_asked:
  assumes "delays_from eff m" "eff \<le> delay"
  shows "delays_from eff (add_to_satisfy p delay m)" "asked sat eff (add_to_satisfy p delay m) p delay"
    "asked sat eff m q e \<Longrightarrow> asked sat eff (add_to_satisfy p delay m) q e"
proof -
  have ok: "idx_ok m" and le: "idx_find m r = Some d \<Longrightarrow> eff \<le> d" for r d
    using assms(1) unfolding delays_from_def by blast+
  have find: "idx_find (add_to_satisfy p delay m) = (idx_find m)(p \<mapsto>
      case idx_find m p of None \<Rightarrow> delay | Some d \<Rightarrow> min d delay)"
    by (auto simp: add_to_satisfy_def idx_find_put ok fun_eq_iff split: option.split)
  show "delays_from eff (add_to_satisfy p delay m)"
    using ok le assms(2) unfolding delays_from_def find
    by (auto simp: add_to_satisfy_def idx_ok_put split: option.splits if_splits)
  show "asked sat eff (add_to_satisfy p delay m) p delay"
    using le assms(2) by (auto simp: asked_def find split: option.split)
  show "asked sat eff m q e \<Longrightarrow> asked sat eff (add_to_satisfy p delay m) q e"
    using assms(2) by (auto simp: asked_def find)
qed

lemma check_special_case_delay: "check_special_case cdc db eff act = Inr (sp, delay) \<Longrightarrow> eff \<le> delay"
  by (auto simp: check_special_case_def split: if_splits)

lemma check_declared_asked:
  assumes "delays_from eff m" "eff \<le> delay" "check_declared db sat act sp delay m p = Inr m'"
  shows "delays_from eff m'" "\<not> sp \<Longrightarrow> check_minimum_permission db act p = Inr ()"
    "asked sat eff m' p delay" "asked sat eff m q e \<Longrightarrow> asked sat eff m' q e"
proof -
  have m': "m' = (if p \<in> set sat then m else add_to_satisfy p delay m)"
    and min: "\<not> sp \<longrightarrow> check_minimum_permission db act p = Inr ()"
    using assms(3) by (auto simp: check_declared_def split: if_splits)
  show "\<not> sp \<Longrightarrow> check_minimum_permission db act p = Inr ()" using min by simp
  show "delays_from eff m'" "asked sat eff m' p delay" "asked sat eff m q e \<Longrightarrow> asked sat eff m' q e"
    unfolding m' using add_to_satisfy_asked [OF assms(1,2)] assms(1)
    by (simp_all split: if_split) (simp_all only: asked_def, simp_all)
qed

text \<open>What checking one action leaves behind.\<close>

definition action_checked ::
  "'k codec \<Rightarrow> 'k auth_db \<Rightarrow> permission_level list \<Rightarrow> microseconds \<Rightarrow> action \<Rightarrow> to_satisfy \<Rightarrow> bool" where
  "action_checked cdc db sat eff act m \<longleftrightarrow> (\<exists>sp delay. check_special_case cdc db eff act = Inr (sp, delay)
     \<and> (\<forall>p\<in>set (act_authorization act).
          (\<not> sp \<longrightarrow> check_minimum_permission db act p = Inr ()) \<and> asked sat eff m p delay))"

lemma check_action_checked:
  assumes "delays_from eff m" "check_action cdc db sat eff m act = Inr m'"
  shows "delays_from eff m' \<and> action_checked cdc db sat eff act m'"
    "asked sat eff m q e \<Longrightarrow> asked sat eff m' q e"
proof -
  obtain sp delay where sp: "check_special_case cdc db eff act = Inr (sp, delay)"
    and fold: "efold (check_declared db sat act sp delay) m (act_authorization act) = Inr m'"
    using assms(2) by (auto simp: check_action_def)
  note le = check_special_case_delay [OF sp]
  have "delays_from eff m'"
    by (rule efold_invariant [where P = "delays_from eff", OF fold assms(1)])
      (rule check_declared_asked(1) [OF _ le])
  moreover have "\<forall>p\<in>set (act_authorization act).
      (\<not> sp \<longrightarrow> check_minimum_permission db act p = Inr ()) \<and> asked sat eff m' p delay"
  proof (rule efold_each [where P = "delays_from eff", OF fold assms(1)])
    fix s p s' assume "delays_from eff s" "check_declared db sat act sp delay s p = Inr s'"
    note d = check_declared_asked [OF this(1) le this(2)]
    show "delays_from eff s' \<and> ((\<not> sp \<longrightarrow> check_minimum_permission db act p = Inr ()) \<and> asked sat eff s' p delay)"
      using d(1-3) by simp
  next
    fix s p s' r assume "delays_from eff s" "check_declared db sat act sp delay s p = Inr s'"
      and r: "(\<not> sp \<longrightarrow> check_minimum_permission db act r = Inr ()) \<and> asked sat eff s r delay"
    note d = check_declared_asked(4) [OF this(1) le this(2)]
    show "(\<not> sp \<longrightarrow> check_minimum_permission db act r = Inr ()) \<and> asked sat eff s' r delay"
      using r d by simp
  qed
  ultimately show "delays_from eff m' \<and> action_checked cdc db sat eff act m'"
    unfolding action_checked_def using sp by auto
  assume "asked sat eff m q e"
  then have "delays_from eff m \<and> asked sat eff m q e" using assms(1) by simp
  then have "delays_from eff m' \<and> asked sat eff m' q e"
  proof (rule efold_invariant [where P = "\<lambda>m. delays_from eff m \<and> asked sat eff m q e", OF fold])
    fix s p s' assume s: "delays_from eff s \<and> asked sat eff s q e"
      and c: "check_declared db sat act sp delay s p = Inr s'"
    show "delays_from eff s' \<and> asked sat eff s' q e"
      using check_declared_asked(1,4) [OF conjunct1 [OF s] le c] s by simp
  qed
  then show "asked sat eff m' q e" by simp
qed

lemma check_actions_checked:
  assumes "efold (check_action cdc db sat eff) [] actions = Inr m"
  shows "idx_ok m" "\<forall>act\<in>set actions. action_checked cdc db sat eff act m"
proof -
  have start: "delays_from eff []" by (simp add: delays_from_def)
  have "delays_from eff m"
    by (rule efold_invariant [where P = "delays_from eff", OF assms start])
      (rule conjunct1, rule check_action_checked(1))
  then show "idx_ok m" by (simp add: delays_from_def)
  show "\<forall>act\<in>set actions. action_checked cdc db sat eff act m"
  proof (rule efold_each [OF assms, where P = "delays_from eff", OF start])
    fix m act m' assume "delays_from eff m" "check_action cdc db sat eff m act = Inr m'"
    then show "delays_from eff m' \<and> action_checked cdc db sat eff act m'" by (rule check_action_checked(1))
  next
    fix m act m' b assume "delays_from eff m" "action_checked cdc db sat eff b m"
      "check_action cdc db sat eff m act = Inr m'"
    then show "action_checked cdc db sat eff b m'"
      unfolding action_checked_def using check_action_checked(2) [of eff m cdc db sat act m'] by blast
  qed
qed

lemma check_satisfied_grants:
  assumes "efold (check_satisfied (make_auth_checker db ks ps e)) used rows = Inr used'"
  shows "\<forall>r\<in>set rows. grants (make_auth_checker db ks ps (snd r)) (fst r)"
  by (rule efold_each [OF assms, where P = "\<lambda>_. True"])
    (auto simp: check_satisfied_def dest: satisfied_permission_delay_grants)

text \<open>The values of the configured names, for evaluation.\<close>

lemma N_values [code_unfold]:
  "N ''newaccount'' = 11148770977341390848"
  "N ''setcode'' = 14029427681804681216"
  "N ''setabi'' = 14029385431137648640"
  "N ''updateauth'' = 15371467950649982976"
  "N ''deleteauth'' = 5378050746259030016"
  "N ''linkauth'' = 10063015651234021376"
  "N ''unlinkauth'' = 15340080295291076608"
  "N ''canceldelay'' = 4730614990712192000"
  "N ''owner'' = 12044502819693133824"
  by code_simp+

lemma system_account_name_value [code]: "system_account_name = 14181219500078137344"
  unfolding system_account_name_def by code_simp

lemma active_name_value [code]: "active_name = 3617214756542218240"
  unfolding active_name_def by code_simp

lemma owner_name_value [code]: "owner_name = 12044502819693133824"
  unfolding owner_name_def by code_simp

lemma snax_any_name_value [code]: "snax_any_name = 14181219613861216256"
  unfolding snax_any_name_def by code_simp

lemma snax_code_name_value [code]: "snax_code_name = 14181219648410746880"
  unfolding snax_code_name_def by code_simp

subsection \<open>What the rank checks grant\<close>

text \<open>Permission \<open>p\<close> ranks over \<open>q\<close>: both exist, and \<open>p\<close> is \<open>q\<close> or one of its ancestors.\<close>

definition outranks :: "'k auth_db \<Rightarrow> permission_level \<Rightarrow> permission_level \<Rightarrow> bool" where
  "outranks db p q \<longleftrightarrow>
    (\<exists>i x j y. idx_find (ad_permissions db) i = Some x \<and> (po_owner x, po_name x) = p \<and>
       idx_find (ad_permissions db) j = Some y \<and> (po_owner y, po_name y) = q \<and>
       (child_of (ad_permissions db))\<^sup>*\<^sup>* j i)"

text \<open>The rank an action asks of a declared permission.  An action that is not one of the five native
  ones asks for the linked permission, by default \<open>active\<close>, unless the link is to \<open>snax.any\<close>.\<close>

definition linked_rank :: "'k auth_db \<Rightarrow> permission_level \<Rightarrow> account_name \<Rightarrow> account_name \<Rightarrow> account_name \<Rightarrow> bool" where
  "linked_rank db p a code type \<longleftrightarrow>
    (case lookup_linked_permission db a code type of
       None \<Rightarrow> outranks db p (a, active_name)
     | Some l \<Rightarrow> l = snax_any_name \<or> outranks db p (a, l))"

definition required_rank :: "'k codec \<Rightarrow> 'k auth_db \<Rightarrow> action \<Rightarrow> permission_level \<Rightarrow> bool" where
  "required_rank cdc db act p \<longleftrightarrow>
    (if act_account act = system_account_name \<and> act_name act \<in> set native_auth_actions then
       act_authorization act = [p] \<and>
       (act_name act = N ''updateauth'' \<longrightarrow> (\<exists>d. as_updateauth cdc (act_data act) = Inr d \<and> fst p = ua_account d \<and>
          (outranks db p (ua_account d, ua_permission d) \<or>
           find_by_owner (ad_permissions db) (ua_account d) (ua_permission d) = None \<and>
             outranks db p (ua_account d, ua_parent d)))) \<and>
       (act_name act = N ''deleteauth'' \<longrightarrow> (\<exists>d. as_deleteauth cdc (act_data act) = Inr d \<and> fst p = da_account d \<and>
          outranks db p (da_account d, da_permission d))) \<and>
       (act_name act = N ''linkauth'' \<longrightarrow> (\<exists>d. as_linkauth cdc (act_data act) = Inr d \<and> fst p = la_account d \<and>
          linked_rank db p (la_account d) (la_code d) (la_type d))) \<and>
       (act_name act = N ''unlinkauth'' \<longrightarrow> (\<exists>d l. as_unlinkauth cdc (act_data act) = Inr d \<and> fst p = ul_account d \<and>
          lookup_linked_permission db (ul_account d) (ul_code d) (ul_type d) = Some l \<and>
          (l = snax_any_name \<or> outranks db p (ul_account d, l)))) \<and>
       (act_name act = N ''canceldelay'' \<longrightarrow> (\<exists>d. as_canceldelay cdc (act_data act) = Inr d \<and>
          outranks db p (cd_canceling_auth d)))
     else linked_rank db p (fst p) (act_account act) (act_name act))"

lemma get_permission_found:
  assumes "perm_wf (ad_permissions db) n" "get_permission db q = Inr (i, x)"
  shows "idx_find (ad_permissions db) i = Some x \<and> (po_owner x, po_name x) = q \<and> i \<noteq> 0"
proof -
  have f: "find_by_owner (ad_permissions db) (fst q) (snd q) = Some (i, x)" "fst q \<noteq> 0"
    using assms(2) by (auto simp: get_permission_def split: option.splits)
  obtain r where "idx_find (ad_permissions db) 0 = Some r" "po_owner r = 0"
    using assms(1) unfolding perm_wf_def by blast
  with find_by_owner_Some [OF perm_wf_ok [OF assms(1)] f(1)] f(2) have "i \<noteq> 0" by (cases "i = 0") auto
  with find_by_owner_Some [OF perm_wf_ok [OF assms(1)] f(1)] show ?thesis by (cases q) simp
qed

lemma require_satisfies_outranks:
  assumes "perm_wf (ad_permissions db) n" "get_permission db q = Inr m" "require_satisfies db p m = Inr ()"
  shows "outranks db p q"
proof -
  obtain j y where m: "m = (j, y)" by (cases m)
  obtain i x where g: "get_permission db p = Inr (i, x)" and s: "satisfies (ad_permissions db) (i, x) (j, y) = Inr True"
    using assms(3) unfolding require_satisfies_def m by auto
  note i = get_permission_found [OF assms(1) g] and j = get_permission_found [OF assms(1) assms(2) [unfolded m]]
  have "(child_of (ad_permissions db))\<^sup>*\<^sup>* j i"
    using satisfies_ancestor [OF assms(1), of i x j y] i j s by simp
  with i j show ?thesis unfolding outranks_def by blast
qed

lemma lookup_minimum_rank:
  assumes "perm_wf (ad_permissions db) n" "lookup_minimum_permission db a code type = Inr m"
    "\<And>l. m = Some l \<Longrightarrow> \<exists>q. get_permission db (a, l) = Inr q \<and> require_satisfies db p q = Inr ()"
  shows "linked_rank db p a code type"
proof -
  have "outranks db p (a, l)" if l: "m = Some l" for l
    using assms(3) [OF l] by (auto intro: require_satisfies_outranks [OF assms(1)])
  with assms(2) show ?thesis
    by (auto simp: lookup_minimum_permission_def linked_rank_def split: option.splits if_splits)
qed

lemma check_minimum_rank:
  assumes "perm_wf (ad_permissions db) n" "check_minimum_permission db act p = Inr ()"
  shows "linked_rank db p (fst p) (act_account act) (act_name act)"
    and "\<not> (act_account act = system_account_name \<and> act_name act \<in> set native_auth_actions)"
proof -
  obtain m where m: "lookup_minimum_permission db (fst p) (act_account act) (act_name act) = Inr m"
    and r: "case m of None \<Rightarrow> True | Some l \<Rightarrow> \<exists>q. get_permission db (fst p, l) = Inr q \<and> require_satisfies db p q = Inr ()"
    using assms(2) by (auto simp: check_minimum_permission_def split: option.splits)
  show "linked_rank db p (fst p) (act_account act) (act_name act)"
    by (rule lookup_minimum_rank [OF assms(1) m]) (use r in auto)
  show "\<not> (act_account act = system_account_name \<and> act_name act \<in> set native_auth_actions)"
    using m by (auto simp: lookup_minimum_permission_def)
qed

lemma single_auth: "length as = 1 \<Longrightarrow> p \<in> set as \<Longrightarrow> as = [p] \<and> as ! 0 = p"
  by (cases as) auto

lemma native_names_distinct:
  "N ''updateauth'' \<noteq> N ''deleteauth''" "N ''updateauth'' \<noteq> N ''linkauth''" "N ''updateauth'' \<noteq> N ''unlinkauth''"
  "N ''updateauth'' \<noteq> N ''canceldelay''" "N ''deleteauth'' \<noteq> N ''linkauth''" "N ''deleteauth'' \<noteq> N ''unlinkauth''"
  "N ''deleteauth'' \<noteq> N ''canceldelay''" "N ''linkauth'' \<noteq> N ''unlinkauth''" "N ''linkauth'' \<noteq> N ''canceldelay''"
  "N ''unlinkauth'' \<noteq> N ''canceldelay''"
  by code_simp+

lemma updateauth_rank:
  assumes "perm_wf (ad_permissions db) n" "check_updateauth_authorization db d auths = Inr ()" "p \<in> set auths"
  shows "auths = [p] \<and> fst p = ua_account d \<and> (outranks db p (ua_account d, ua_permission d) \<or>
     find_by_owner (ad_permissions db) (ua_account d) (ua_permission d) = None \<and> outranks db p (ua_account d, ua_parent d))"
proof -
  have l: "length auths = 1" using assms(2) by (auto simp: check_updateauth_authorization_def)
  note p = single_auth [OF l assms(3)]
  obtain f m where f: "find_permission db (ua_account d, ua_permission d) = Inr f" and acc: "fst p = ua_account d"
    and m: "(case f of Some q \<Rightarrow> Inr q | None \<Rightarrow> get_permission db (ua_account d, ua_parent d)) = Inr m"
      "require_satisfies db p m = Inr ()"
    using assms(2) p by (auto simp: check_updateauth_authorization_def Let_def)
  have g: "f = Some q \<Longrightarrow> get_permission db (ua_account d, ua_permission d) = Inr q" for q
    using f by (auto simp: find_permission_def get_permission_def)
  show ?thesis
  proof (cases f)
    case None
    then have "outranks db p (ua_account d, ua_parent d)"
      using require_satisfies_outranks [OF assms(1) _ m(2)] m(1) by simp
    with None f p acc show ?thesis by (simp add: find_permission_def)
  next
    case (Some q)
    with m(1) have "outranks db p (ua_account d, ua_permission d)"
      using require_satisfies_outranks [OF assms(1) g [OF Some]] m(2) by simp
    with p acc show ?thesis by simp
  qed
qed

lemma deleteauth_rank:
  assumes "perm_wf (ad_permissions db) n" "check_deleteauth_authorization db d auths = Inr ()" "p \<in> set auths"
  shows "auths = [p] \<and> fst p = da_account d \<and> outranks db p (da_account d, da_permission d)"
proof -
  have l: "length auths = 1" using assms(2) by (auto simp: check_deleteauth_authorization_def)
  note p = single_auth [OF l assms(3)]
  show ?thesis using assms(2) p
    by (auto simp: check_deleteauth_authorization_def intro: require_satisfies_outranks [OF assms(1)])
qed

lemma linkauth_rank:
  assumes "perm_wf (ad_permissions db) n" "check_linkauth_authorization db d auths = Inr ()" "p \<in> set auths"
  shows "auths = [p] \<and> fst p = la_account d \<and> linked_rank db p (la_account d) (la_code d) (la_type d)"
proof -
  have l: "length auths = 1" using assms(2) by (auto simp: check_linkauth_authorization_def)
  note p = single_auth [OF l assms(3)]
  obtain m where acc: "fst p = la_account d"
    and m: "lookup_minimum_permission db (la_account d) (la_code d) (la_type d) = Inr m"
    and r: "case m of None \<Rightarrow> True | Some l \<Rightarrow> \<exists>q. get_permission db (la_account d, l) = Inr q \<and> require_satisfies db p q = Inr ()"
    using assms(2) p by (auto simp: check_linkauth_authorization_def Let_def split: option.splits)
  have "linked_rank db p (la_account d) (la_code d) (la_type d)"
    by (rule lookup_minimum_rank [OF assms(1) m]) (use r in auto)
  with p acc show ?thesis by simp
qed

lemma unlinkauth_rank:
  assumes "perm_wf (ad_permissions db) n" "check_unlinkauth_authorization db d auths = Inr ()" "p \<in> set auths"
  shows "auths = [p] \<and> fst p = ul_account d \<and>
    (\<exists>l. lookup_linked_permission db (ul_account d) (ul_code d) (ul_type d) = Some l \<and>
      (l = snax_any_name \<or> outranks db p (ul_account d, l)))"
proof -
  have l: "length auths = 1" using assms(2) by (auto simp: check_unlinkauth_authorization_def)
  note p = single_auth [OF l assms(3)]
  show ?thesis using assms(2) p
    by (auto simp: check_unlinkauth_authorization_def intro: require_satisfies_outranks [OF assms(1)]
        split: option.splits if_splits)
qed

lemma canceldelay_rank:
  assumes "perm_wf (ad_permissions db) n" "check_canceldelay_authorization cdc db d auths = Inr t" "p \<in> set auths"
  shows "auths = [p] \<and> outranks db p (cd_canceling_auth d)"
proof -
  have l: "length auths = 1" using assms(2) by (auto simp: check_canceldelay_authorization_def)
  note p = single_auth [OF l assms(3)]
  obtain m where "get_permission db (cd_canceling_auth d) = Inr m" "require_satisfies db p m = Inr ()"
    using assms(2) p by (auto simp: check_canceldelay_authorization_def Let_def)
  with p require_satisfies_outranks [OF assms(1)] show ?thesis by blast
qed

lemma special_case_rank:
  assumes "perm_wf (ad_permissions db) n" "check_special_case cdc db delay act = Inr (True, d)"
    "p \<in> set (act_authorization act)"
  shows "required_rank cdc db act p"
proof -
  have sys: "act_account act = system_account_name" "act_name act \<in> set native_auth_actions"
    using assms(2) by (auto simp: check_special_case_def native_auth_actions_def split: if_splits)
  then consider "act_name act = N ''updateauth''" | "act_name act = N ''deleteauth''" | "act_name act = N ''linkauth''"
    | "act_name act = N ''unlinkauth''" | "act_name act = N ''canceldelay''"
    by (auto simp: native_auth_actions_def)
  note c = this
  note s = check_special_case_def required_rank_def native_names_distinct native_names_distinct [symmetric] sys(1)
  show ?thesis
  proof (cases rule: c)
    case 1
    with assms(2) sys(2) show ?thesis by (auto simp: s dest!: updateauth_rank [OF assms(1) _ assms(3)])
  next
    case 2
    with assms(2) sys(2) show ?thesis by (auto simp: s dest!: deleteauth_rank [OF assms(1) _ assms(3)])
  next
    case 3
    with assms(2) sys(2) show ?thesis by (auto simp: s dest!: linkauth_rank [OF assms(1) _ assms(3)])
  next
    case 4
    with assms(2) sys(2) show ?thesis by (auto simp: s dest!: unlinkauth_rank [OF assms(1) _ assms(3)])
  next
    case 5
    with assms(2) sys(2) show ?thesis by (auto simp: s dest!: canceldelay_rank [OF assms(1) _ assms(3)])
  qed
qed


text \<open>C31. When \<^verbatim>\<open>check_authorization\<close> accepts a list of actions over a well-formed permission
  table, then every permission an action declares has the rank the action asks for (the linked
  permission or \<open>active\<close>; for a native action the permission its own rule names), and it was
  either satisfied beforehand or its authority tree is really granted by the provided keys and
  permissions at a delay between the delay of the transaction and the delay that applies to the
  action.\<close>

theorem check_authorization_sound:
  assumes "perm_wf (ad_permissions db) n" "check_authorization cdc db actions ks ps delay unused sat = Inr ()"
    "act \<in> set actions" "p \<in> set (act_authorization act)"
  shows "required_rank cdc db act p
    \<and> (p \<in> set sat \<or> (\<exists>special d e. check_special_case cdc db (effective_delay db delay) act = Inr (special, d)
        \<and> effective_delay db delay \<le> e \<and> e \<le> d \<and> grants (make_auth_checker db ks ps e) p))"
proof -
  let ?eff = "effective_delay db delay"
  obtain m used where m: "efold (check_action cdc db sat ?eff) [] actions = Inr m"
    and used: "efold (check_satisfied (make_auth_checker db ks ps ?eff))
      (no_keys_used (make_auth_checker db ks ps ?eff)) (idx_rows m) = Inr used"
    using assms(2) by (auto simp: check_authorization_def Let_def)
  obtain sp d where sp: "check_special_case cdc db ?eff act = Inr (sp, d)"
    "\<not> sp \<longrightarrow> check_minimum_permission db act p = Inr ()" "asked sat ?eff m p d"
    using check_actions_checked(2) [OF m] assms(3,4) unfolding action_checked_def by blast
  have rank: "required_rank cdc db act p"
  proof (cases sp)
    case True
    with sp(1) show ?thesis by (auto intro: special_case_rank [OF assms(1) _ assms(4)])
  next
    case False
    with sp(2) have "check_minimum_permission db act p = Inr ()" by simp
    note r = check_minimum_rank [OF assms(1) this]
    show ?thesis unfolding required_rank_def if_not_P [OF r(2)] by (rule r(1))
  qed
  have "grants (make_auth_checker db ks ps e) p" if "idx_find m p = Some e" for e
    using check_satisfied_grants [OF used] that idx_rows_find [OF check_actions_checked(1) [OF m]] by fastforce
  then have "p \<in> set sat \<or> (\<exists>e. ?eff \<le> e \<and> e \<le> d \<and> grants (make_auth_checker db ks ps e) p)"
    using sp(3) unfolding asked_def by blast
  with sp(1) rank show ?thesis by blast
qed

subsection \<open>An account with an owner and an active key\<close>

definition demo_key_authority :: "nat \<Rightarrow> nat authority" where
  "demo_key_authority k = \<lparr>threshold = 1, keys = [\<lparr>kw_key = k, kw_weight = 1\<rparr>], accounts = [], waits = []\<rparr>"

definition demo_auth_db :: "nat auth_db" where
  "demo_auth_db = (auth_initialize_database 0 3600 6)\<lparr>ad_permissions :=
     [(0, reserved_permission),
      (1, \<lparr>po_usage_id = 0, po_parent = 0, po_owner = 5, po_name = owner_name,
           po_last_updated = 0, po_auth = demo_key_authority 10\<rparr>),
      (2, \<lparr>po_usage_id = 1, po_parent = 1, po_owner = 5, po_name = active_name,
           po_last_updated = 0, po_auth = demo_key_authority 11\<rparr>)], ad_next_permission := 3,
     ad_usages := [(0, 0), (1, 0)], ad_next_usage := 2\<rparr>"

definition demo_codec :: "nat codec" where
  "demo_codec = \<lparr>as_newaccount = (\<lambda>_. Inl unknown_key), as_setcode = (\<lambda>_. Inl unknown_key),
     as_setabi = (\<lambda>_. Inl unknown_key), as_updateauth = (\<lambda>_. Inl unknown_key),
     as_deleteauth = (\<lambda>_. Inl unknown_key), as_linkauth = (\<lambda>_. Inl unknown_key),
     as_unlinkauth = (\<lambda>_. Inl unknown_key), as_canceldelay = (\<lambda>_. Inl unknown_key),
     unpack_actions = (\<lambda>_. Inl unknown_key)\<rparr>"

definition demo_action :: action where
  "demo_action = \<lparr>act_account = 7, act_name = 8, act_authorization = [(5, active_name)], act_data = []\<rparr>"

lemma demo_perm_wf: "perm_wf (ad_permissions demo_auth_db) 3"
proof -
  have n: "owner_name \<noteq> 0" "active_name \<noteq> 0" "owner_name \<noteq> active_name" by code_simp+
  show ?thesis
    unfolding perm_wf_def using n
    by (auto simp: demo_auth_db_def idx_ok_def idx_find_def reserved_permission_def split: if_splits)
qed

theorem satisfies_iff_ancestor_witness:
  "let t = ad_permissions demo_auth_db in
     satisfies t (1, the (idx_find t 1)) (2, the (idx_find t 2)) = Inr ((child_of t)\<^sup>*\<^sup>* 2 1) \<and> (child_of t)\<^sup>*\<^sup>* 2 1"
proof -
  let ?t = "ad_permissions demo_auth_db"
  have "satisfies ?t (1, the (idx_find ?t 1)) (2, the (idx_find ?t 2)) = Inr ((child_of ?t)\<^sup>*\<^sup>* 2 1)"
    by (rule satisfies_iff_ancestor [OF demo_perm_wf]) (simp_all add: demo_auth_db_def idx_find_def)
  moreover have "child_of ?t 2 1" by (simp add: child_of_def demo_auth_db_def idx_find_def)
  ultimately show ?thesis by (simp add: Let_def)
qed

theorem check_authorization_sound_witness:
  "outranks demo_auth_db (5, active_name) (5, active_name) \<and> grants (make_auth_checker demo_auth_db [11] [] 0) (5, active_name)"
proof -
  have "check_authorization demo_codec demo_auth_db [demo_action] [11] [] 0 False [] = Inr ()"
    by code_simp
  note check_authorization_sound [OF demo_perm_wf this, of demo_action "(5, active_name)"]
  moreover have "effective_delay demo_auth_db 0 = 0"
    by (simp add: effective_delay_def demo_auth_db_def auth_initialize_database_def)
  moreover have "check_special_case demo_codec demo_auth_db 0 demo_action = Inr (False, 0)"
    "act_account demo_action \<noteq> system_account_name" "lookup_linked_permission demo_auth_db 5 7 8 = None" by code_simp+
  ultimately show ?thesis by (auto simp: demo_action_def required_rank_def linked_rank_def)
qed

end
