(* ===== verification/Chain_Policy.thy ===== *)
theory Chain_Policy
  imports Authority Merkle "HOL-Library.Signed_Division"
begin

text \<open>
  The settings and policies that the rest of the node consults: the producer-voted configuration
  (\<^verbatim>\<open>chain_config.hpp\<close>, \<^verbatim>\<open>chain_config.cpp\<close>, \<^verbatim>\<open>genesis_state.hpp\<close>), the slots of block time
  (\<^verbatim>\<open>block_timestamp.hpp\<close>), the reference block of a transaction (\<^verbatim>\<open>transaction.hpp\<close>,
  \<^verbatim>\<open>transaction.cpp\<close>), and the parts of the controller that only read its settings: white- and
  blacklists, light validation and the expiration check (\<^verbatim>\<open>controller.cpp\<close>).
\<close>

section \<open>The chain configuration\<close>

definition percent_100 :: u32 where "percent_100 = 1000000"
definition percent_1 :: u32 where "percent_1 = 10000"
definition min_net_usage_delta_between_base_and_max_for_trx :: u32 where
  "min_net_usage_delta_between_base_and_max_for_trx = 10 * 1024"

record chain_config =
  max_block_net_usage :: u64
  target_block_net_usage_pct :: u32
  max_transaction_net_usage :: u32
  base_per_transaction_net_usage :: u32
  net_usage_leeway :: u32
  context_free_discount_net_usage_num :: u32
  context_free_discount_net_usage_den :: u32
  max_block_cpu_usage :: u32
  target_block_cpu_usage_pct :: u32
  max_transaction_cpu_usage :: u32
  min_transaction_cpu_usage :: u32
  resources_market_open :: u32
  privileged_contracts :: u32
  contract_owner :: u32
  platform_lock_duration :: u32
  max_transaction_lifetime :: u32
  deferred_trx_expiration_window :: u32
  max_transaction_delay :: u32
  max_inline_action_size :: u32
  max_inline_action_depth :: u16
  max_authority_depth :: u16

definition initial_configuration :: chain_config where
  "initial_configuration = \<lparr>
     max_block_net_usage = 1024 * 1024,
     target_block_net_usage_pct = 10 * percent_1,
     max_transaction_net_usage = 1024 * 1024 div 2,
     base_per_transaction_net_usage = 12,
     net_usage_leeway = 500,
     context_free_discount_net_usage_num = 20,
     context_free_discount_net_usage_den = 100,
     max_block_cpu_usage = 200000,
     target_block_cpu_usage_pct = 10 * percent_1,
     max_transaction_cpu_usage = 3 * 200000 div 4,
     min_transaction_cpu_usage = 100,
     resources_market_open = 1,
     privileged_contracts = 0,
     contract_owner = 0,
     platform_lock_duration = 14400,
     max_transaction_lifetime = 60 * 60,
     deferred_trx_expiration_window = 10 * 60,
     max_transaction_delay = 45 * 24 * 3600,
     max_inline_action_size = 4 * 1024,
     max_inline_action_depth = 4,
     max_authority_depth = 6\<rparr>"

definition chain_config_validate :: "chain_config \<Rightarrow> unit result" where
  "chain_config_validate c =
    SNAX_ASSERT (target_block_net_usage_pct c \<le> percent_100) action_validate_exception (
    SNAX_ASSERT (target_block_net_usage_pct c \<ge> percent_1 div 10) action_validate_exception (
    SNAX_ASSERT (target_block_cpu_usage_pct c \<le> percent_100) action_validate_exception (
    SNAX_ASSERT (target_block_cpu_usage_pct c \<ge> percent_1 div 10) action_validate_exception (
    SNAX_ASSERT (ucast (max_transaction_net_usage c) < max_block_net_usage c) action_validate_exception (
    SNAX_ASSERT (max_transaction_cpu_usage c < max_block_cpu_usage c) action_validate_exception (
    SNAX_ASSERT (base_per_transaction_net_usage c < max_transaction_net_usage c) action_validate_exception (
    SNAX_ASSERT (max_transaction_net_usage c - base_per_transaction_net_usage c
        \<ge> min_net_usage_delta_between_base_and_max_for_trx) action_validate_exception (
    SNAX_ASSERT (context_free_discount_net_usage_den c > 0) action_validate_exception (
    SNAX_ASSERT (context_free_discount_net_usage_num c \<le> context_free_discount_net_usage_den c)
      action_validate_exception (
    SNAX_ASSERT (min_transaction_cpu_usage c \<le> max_transaction_cpu_usage c) action_validate_exception (
    SNAX_ASSERT (max_transaction_cpu_usage c < max_block_cpu_usage c - min_transaction_cpu_usage c)
      action_validate_exception (
    SNAX_ASSERT (1 \<le> max_authority_depth c) action_validate_exception (Inr ())))))))))))))"

text \<open>The equality the type declares, field by field as it is written.\<close>

definition chain_config_eq :: "chain_config \<Rightarrow> chain_config \<Rightarrow> bool" where
  "chain_config_eq lhs rhs \<longleftrightarrow>
     max_block_net_usage lhs = max_block_net_usage rhs
   \<and> target_block_net_usage_pct lhs = target_block_net_usage_pct rhs
   \<and> max_transaction_net_usage lhs = max_transaction_net_usage rhs
   \<and> base_per_transaction_net_usage lhs = base_per_transaction_net_usage rhs
   \<and> net_usage_leeway lhs = net_usage_leeway rhs
   \<and> context_free_discount_net_usage_num lhs = context_free_discount_net_usage_num rhs
   \<and> context_free_discount_net_usage_den lhs = context_free_discount_net_usage_den rhs
   \<and> max_block_cpu_usage lhs = max_block_cpu_usage rhs
   \<and> target_block_cpu_usage_pct lhs = target_block_cpu_usage_pct rhs
   \<and> max_transaction_cpu_usage lhs = max_transaction_cpu_usage rhs
   \<and> max_transaction_cpu_usage lhs = max_transaction_cpu_usage rhs
   \<and> resources_market_open lhs = resources_market_open rhs
   \<and> privileged_contracts lhs = privileged_contracts rhs
   \<and> contract_owner lhs = contract_owner rhs
   \<and> platform_lock_duration lhs = platform_lock_duration lhs
   \<and> max_transaction_lifetime lhs = max_transaction_lifetime rhs
   \<and> deferred_trx_expiration_window lhs = deferred_trx_expiration_window rhs
   \<and> max_transaction_delay lhs = max_transaction_delay rhs
   \<and> max_inline_action_size lhs = max_inline_action_size rhs
   \<and> max_inline_action_depth lhs = max_inline_action_depth rhs
   \<and> max_authority_depth lhs = max_authority_depth rhs"

section \<open>Block time\<close>

text \<open>A \<^verbatim>\<open>block_timestamp\<close> is its slot.\<close>

type_synonym block_timestamp = u32

definition block_interval_ms :: u64 where "block_interval_ms = 500"
definition block_timestamp_epoch :: u64 where "block_timestamp_epoch = 946684800000"

definition block_timestamp_of_time_point :: "microseconds \<Rightarrow> block_timestamp" where
  "block_timestamp_of_time_point t =
    ucast ((word_of_int (t sdiv 1000) - block_timestamp_epoch) div block_interval_ms)"

definition block_timestamp_of_time_point_sec :: "u32 \<Rightarrow> block_timestamp" where
  "block_timestamp_of_time_point_sec t =
    ucast ((ucast t * 1000 - block_timestamp_epoch) div block_interval_ms)"

definition to_time_point :: "block_timestamp \<Rightarrow> microseconds" where
  "to_time_point slot = (uint slot * uint block_interval_ms + uint block_timestamp_epoch) * 1000"

definition block_timestamp_next :: "block_timestamp \<Rightarrow> block_timestamp result" where
  "block_timestamp_next slot = SNAX_ASSERT (- 1 - slot \<ge> 1) overflow_exception (Inr (slot + 1))"

section \<open>Reference blocks\<close>

record transaction_header =
  th_expiration :: u32
  th_ref_block_num :: u16
  th_ref_block_prefix :: u32
  th_max_net_usage_words :: u32
  th_max_cpu_usage_ms :: u8
  th_delay_sec :: u32

text \<open>A block id is a digest; the words of a \<^verbatim>\<open>sha256\<close> are 64 bits wide, and an argument of type
  \<^verbatim>\<open>uint32_t\<close> takes the low half.  The prefix takes the low half of the second word.  The byte
  reversal \<^verbatim>\<open>fc::endian_reverse_u32\<close> is a function of the \<^verbatim>\<open>fc\<close> library and a parameter.\<close>

fun hash_word :: "digest_type \<Rightarrow> nat \<Rightarrow> u64" where
  "hash_word (Digest a b c d) i = [a, b, c, d] ! i"

definition get_ref_blocknum :: "transaction_header \<Rightarrow> u32 \<Rightarrow> u32" where
  "get_ref_blocknum h head_blocknum = (head_blocknum div 0xffff) * 0xffff + head_blocknum mod 0xffff"

definition set_reference_block :: "(u32 \<Rightarrow> u32) \<Rightarrow> transaction_header \<Rightarrow> digest_type \<Rightarrow> transaction_header" where
  "set_reference_block endian_reverse_u32 h reference_block = h\<lparr>
     th_ref_block_num := ucast (endian_reverse_u32 (ucast (hash_word reference_block 0))),
     th_ref_block_prefix := ucast (hash_word reference_block 1)\<rparr>"

definition verify_reference_block :: "(u32 \<Rightarrow> u32) \<Rightarrow> transaction_header \<Rightarrow> digest_type \<Rightarrow> bool" where
  "verify_reference_block endian_reverse_u32 h reference_block \<longleftrightarrow>
     th_ref_block_num h = ucast (endian_reverse_u32 (ucast (hash_word reference_block 0)))
   \<and> th_ref_block_prefix h = ucast (hash_word reference_block 1)"

definition transaction_header_validate :: "transaction_header \<Rightarrow> unit result" where
  "transaction_header_validate h =
    SNAX_ASSERT (th_max_net_usage_words h < (- 1) div 8) transaction_exception (Inr ())"

section \<open>Settings of the controller\<close>

text \<open>The sets are \<^verbatim>\<open>flat_set\<close>s: sorted lists without repetitions.\<close>

datatype block_status = irreversible | validated | complete | incomplete

record 'k controller_config =
  conf_sender_bypass_whiteblacklist :: "account_name list"
  conf_actor_whitelist :: "account_name list"
  conf_actor_blacklist :: "account_name list"
  conf_contract_whitelist :: "account_name list"
  conf_contract_blacklist :: "account_name list"
  conf_action_blacklist :: "(account_name \<times> account_name) list"
  conf_key_blacklist :: "'k list"
  conf_resource_greylist :: "account_name list"
  conf_force_all_checks :: bool
  conf_disable_replay_opts :: bool
  conf_light_validation_mode :: bool
  conf_allow_ram_billing_in_notify :: bool

text \<open>What the policies read of the controller's state: its settings, the status of the pending block
  when there is one, and two flags.\<close>

record 'k controller_view =
  cv_conf :: "'k controller_config"
  cv_pending :: "block_status option"
  cv_in_trx_requiring_checks :: bool
  cv_trusted_producer_light_validation :: bool

subsection \<open>White- and blacklists\<close>

definition sender_avoids_whitelist_blacklist_enforcement :: "'k controller_config \<Rightarrow> account_name \<Rightarrow> bool" where
  "sender_avoids_whitelist_blacklist_enforcement conf sender \<longleftrightarrow>
     length (conf_sender_bypass_whiteblacklist conf) > 0 \<and> sender \<in> set (conf_sender_bypass_whiteblacklist conf)"

text \<open>\<^verbatim>\<open>std::lower_bound\<close> on the rest of a sorted range: the suffix that starts at the first element not
  below the one looked for.\<close>

definition lower_bound :: "'a::linorder list \<Rightarrow> 'a \<Rightarrow> 'a list" where
  "lower_bound xs x = dropWhile (\<lambda>y. y < x) xs"

fun whitelist_scan :: "account_name list \<Rightarrow> account_name list \<Rightarrow> bool" where
  "whitelist_scan rng [] = True"
| "whitelist_scan rng (actor # actors) =
    (case lower_bound rng actor of
       [] \<Rightarrow> False
     | x # rest \<Rightarrow> if x \<noteq> actor then False else whitelist_scan rest actors)"

fun blacklist_scan :: "account_name list \<Rightarrow> account_name list \<Rightarrow> bool" where
  "blacklist_scan rng [] = False"
| "blacklist_scan rng (actor # actors) =
    (case lower_bound rng actor of
       [] \<Rightarrow> False
     | x # rest \<Rightarrow> if x = actor then True else blacklist_scan (x # rest) actors)"

definition check_actor_list :: "'k controller_config \<Rightarrow> account_name list \<Rightarrow> unit result" where
  "check_actor_list conf actors =
    (if length actors = 0 then Inr ()
     else if length (conf_actor_whitelist conf) > 0 then
       let whitelist = conf_actor_whitelist conf;
           is_subset = (if hd actors \<ge> hd whitelist \<and> last actors \<le> last whitelist
                        then whitelist_scan whitelist actors else False)
       in SNAX_ASSERT is_subset actor_whitelist_exception (Inr ())
     else if length (conf_actor_blacklist conf) > 0 then
       let blacklist = conf_actor_blacklist conf;
           intersects = (if hd actors \<le> last blacklist \<and> last actors \<ge> hd blacklist
                         then blacklist_scan blacklist actors else False)
       in SNAX_ASSERT (\<not> intersects) actor_blacklist_exception (Inr ())
     else Inr ())"

definition check_contract_list :: "'k controller_config \<Rightarrow> account_name \<Rightarrow> unit result" where
  "check_contract_list conf code =
    (if length (conf_contract_whitelist conf) > 0 then
       SNAX_ASSERT (code \<in> set (conf_contract_whitelist conf)) contract_whitelist_exception (Inr ())
     else if length (conf_contract_blacklist conf) > 0 then
       SNAX_ASSERT (code \<notin> set (conf_contract_blacklist conf)) contract_blacklist_exception (Inr ())
     else Inr ())"

definition check_action_list :: "'k controller_config \<Rightarrow> account_name \<Rightarrow> account_name \<Rightarrow> unit result" where
  "check_action_list conf code action =
    (if length (conf_action_blacklist conf) > 0 then
       SNAX_ASSERT ((code, action) \<notin> set (conf_action_blacklist conf)) action_blacklist_exception (Inr ())
     else Inr ())"

definition check_key_list :: "'k controller_config \<Rightarrow> 'k \<Rightarrow> unit result" where
  "check_key_list conf key =
    (if length (conf_key_blacklist conf) > 0 then
       SNAX_ASSERT (key \<notin> set (conf_key_blacklist conf)) key_blacklist_exception (Inr ())
     else Inr ())"

definition add_resource_greylist :: "'k controller_config \<Rightarrow> account_name \<Rightarrow> 'k controller_config" where
  "add_resource_greylist conf name = conf\<lparr>conf_resource_greylist :=
     (if name \<in> set (conf_resource_greylist conf) then conf_resource_greylist conf
      else insort name (conf_resource_greylist conf))\<rparr>"

definition remove_resource_greylist :: "'k controller_config \<Rightarrow> account_name \<Rightarrow> 'k controller_config" where
  "remove_resource_greylist conf name =
     conf\<lparr>conf_resource_greylist := filter (\<lambda>x. x \<noteq> name) (conf_resource_greylist conf)\<rparr>"

definition is_resource_greylisted :: "'k controller_config \<Rightarrow> account_name \<Rightarrow> bool" where
  "is_resource_greylisted conf name \<longleftrightarrow> name \<in> set (conf_resource_greylist conf)"

subsection \<open>Light validation\<close>

definition light_validation_allowed :: "'k controller_view \<Rightarrow> bool \<Rightarrow> bool" where
  "light_validation_allowed cv replay_opts_disabled_by_policy =
    (case cv_pending cv of
       None \<Rightarrow> False
     | Some pb_status \<Rightarrow>
         if cv_in_trx_requiring_checks cv then False
         else let consider_skipping_on_replay =
                    ((pb_status = irreversible \<or> pb_status = validated) \<and> \<not> replay_opts_disabled_by_policy);
                  consider_skipping_on_validate =
                    (pb_status = complete \<and> (conf_light_validation_mode (cv_conf cv)
                       \<or> cv_trusted_producer_light_validation cv))
              in consider_skipping_on_replay \<or> consider_skipping_on_validate)"

definition skip_auth_check :: "'k controller_view \<Rightarrow> bool" where
  "skip_auth_check cv = light_validation_allowed cv (conf_force_all_checks (cv_conf cv))"

definition skip_trx_checks :: "'k controller_view \<Rightarrow> bool" where
  "skip_trx_checks cv = light_validation_allowed cv (conf_disable_replay_opts (cv_conf cv))"

definition skip_db_sessions :: "'k controller_view \<Rightarrow> bool" where
  "skip_db_sessions cv =
    (case cv_pending cv of
       None \<Rightarrow> False
     | Some bs \<Rightarrow> bs = irreversible \<and> \<not> conf_disable_replay_opts (cv_conf cv)
                    \<and> \<not> cv_in_trx_requiring_checks cv)"

definition is_producing_block :: "'k controller_view \<Rightarrow> bool" where
  "is_producing_block cv = (case cv_pending cv of None \<Rightarrow> False | Some s \<Rightarrow> s = incomplete)"

definition is_ram_billing_in_notify_allowed :: "'k controller_view \<Rightarrow> bool" where
  "is_ram_billing_in_notify_allowed cv \<longleftrightarrow>
     \<not> is_producing_block cv \<or> conf_allow_ram_billing_in_notify (cv_conf cv)"

subsection \<open>Expiration and reference block of a transaction\<close>

text \<open>The expiration is in whole seconds; block times are in microseconds.\<close>

definition validate_expiration :: "chain_config \<Rightarrow> microseconds \<Rightarrow> transaction_header \<Rightarrow> unit result" where
  "validate_expiration cfg pending_block_time trx =
    SNAX_ASSERT (uint (th_expiration trx) * 1000000 \<ge> pending_block_time) expired_tx_exception (
    SNAX_ASSERT (uint (th_expiration trx) * 1000000
        \<le> pending_block_time + uint (max_transaction_lifetime cfg) * 1000000) tx_exp_too_far_exception (
    Inr ()))"

definition validate_tapos ::
  "(u32 \<Rightarrow> u32) \<Rightarrow> (u16, digest_type) index \<Rightarrow> transaction_header \<Rightarrow> unit result" where
  "validate_tapos endian_reverse_u32 block_summaries trx =
    ebind (idx_get block_summaries (th_ref_block_num trx)) (\<lambda>block_id.
    SNAX_ASSERT (verify_reference_block endian_reverse_u32 trx block_id) invalid_ref_block_exception (Inr ()))"

section \<open>Properties\<close>

subsection \<open>The configuration\<close>

text \<open>What a valid configuration is, on numbers: the two subtractions in the checks do not wrap.\<close>

lemma chain_config_validate_iff:
  "chain_config_validate c = Inr () \<longleftrightarrow>
     unat (target_block_net_usage_pct c) \<in> {1000..1000000} \<and> unat (target_block_cpu_usage_pct c) \<in> {1000..1000000}
   \<and> unat (max_transaction_net_usage c) < unat (max_block_net_usage c)
   \<and> unat (base_per_transaction_net_usage c) + 10240 \<le> unat (max_transaction_net_usage c)
   \<and> 0 < unat (context_free_discount_net_usage_den c)
   \<and> unat (context_free_discount_net_usage_num c) \<le> unat (context_free_discount_net_usage_den c)
   \<and> unat (min_transaction_cpu_usage c) \<le> unat (max_transaction_cpu_usage c)
   \<and> unat (max_transaction_cpu_usage c) + unat (min_transaction_cpu_usage c) < unat (max_block_cpu_usage c)
   \<and> 1 \<le> unat (max_authority_depth c)"
proof -
  have net: "base_per_transaction_net_usage c < max_transaction_net_usage c \<Longrightarrow>
      unat (max_transaction_net_usage c - base_per_transaction_net_usage c)
        = unat (max_transaction_net_usage c) - unat (base_per_transaction_net_usage c)"
    by (simp add: unat_sub)
  have cpu: "min_transaction_cpu_usage c \<le> max_block_cpu_usage c \<Longrightarrow>
      unat (max_block_cpu_usage c - min_transaction_cpu_usage c)
        = unat (max_block_cpu_usage c) - unat (min_transaction_cpu_usage c)"
    by (simp add: unat_sub)
  show ?thesis
    using net cpu
    by (auto simp: chain_config_validate_def percent_100_def percent_1_def word_le_nat_alt word_less_nat_alt
        min_net_usage_delta_between_base_and_max_for_trx_def unat_div)
qed

lemma initial_configuration_valid: "chain_config_validate initial_configuration = Inr ()"
  by code_simp

text \<open>The declared equality does not see two of the fields.\<close>

lemma chain_config_eq_blind:
  "chain_config_eq c (c\<lparr>platform_lock_duration := x, min_transaction_cpu_usage := y\<rparr>)"
  by (simp add: chain_config_eq_def)

subsection \<open>Block time\<close>

text \<open>Converting a time to a slot takes the slot the time falls in: every time from the start of a
  slot up to, but not including, the start of the next gives that slot back, for all 32-bit slots.\<close>

theorem block_timestamp_floor:
  assumes "0 \<le> d" "d < 500000"
  shows "block_timestamp_of_time_point (to_time_point s + d) = s"
proof -
  let ?m = "uint s * 500 + 946684800000 + d div 1000"
  have s: "0 \<le> uint s" "uint s < 2 ^ 32" by (simp_all add: uint_lt2p [of s, simplified])
  have c: "uint block_interval_ms = 500" "uint block_timestamp_epoch = 946684800000" by code_simp+
  have "0 < (u * 500 + 946684800000) * 1000 + d" if "0 \<le> u" for u :: int using that assms(1) by simp
  then have pos: "0 < to_time_point s + d" unfolding to_time_point_def c using s(1) by blast
  have "(to_time_point s + d) div 1000 = ?m"
    using div_mult_self1 [of 1000 d "uint s * 500 + 946684800000"]
    unfolding to_time_point_def c by (simp add: algebra_simps)
  then have "(to_time_point s + d) sdiv 1000 = ?m"
    using pos by (simp add: signed_divide_int_def)
  moreover have "(word_of_int ?m :: u64) - block_timestamp_epoch = word_of_int (uint s * 500 + d div 1000)"
    by (simp add: block_timestamp_epoch_def)
  moreover have "(word_of_int (uint s * 500 + d div 1000) :: u64) div block_interval_ms = ucast s"
  proof (rule word_uint_eqI)
    have b: "0 \<le> uint s * 500 + d div 1000" "uint s * 500 + d div 1000 < 2 ^ 64"
      using s assms by auto
    have v: "uint (word_of_int (uint s * 500 + d div 1000) :: u64) = uint s * 500 + d div 1000"
      using b by (simp only: uint_word_of_int mod_pos_pos_trivial len_num1 len_of_numeral_defs) simp
    have "d div 1000 div 500 = 0" using assms by simp
    then show "uint ((word_of_int (uint s * 500 + d div 1000) :: u64) div block_interval_ms) = uint (ucast s :: u64)"
      unfolding uint_div v c using div_mult_self1 [of 500 "d div 1000" "uint s"]
      by (simp add: add.commute uint_up_ucast is_up)
  qed
  moreover have "ucast (ucast s :: u64) = s" by (simp add: ucast_up_ucast_id is_up)
  ultimately show ?thesis by (simp add: block_timestamp_of_time_point_def)
qed

theorem block_timestamp_floor_witness: "block_timestamp_of_time_point (to_time_point 4294967295 + 499999) = 4294967295"
  by (rule block_timestamp_floor) simp_all

lemma block_timestamp_next_Inr_iff: "block_timestamp_next s = Inr t \<longleftrightarrow> unat s + 1 < 2 ^ 32 \<and> unat t = unat s + 1"
proof -
  have "- 1 - s \<ge> 1 \<longleftrightarrow> unat s + 1 < 2 ^ 32"
    using unat_bound [of s] by (auto simp: word_le_nat_alt unat_max_word_minus)
  moreover have "unat (s + 1) = unat s + 1" if "unat s + 1 < 2 ^ 32"
    using that by (simp add: unat_add_no_wrap)
  ultimately show ?thesis by (auto simp: block_timestamp_next_def word_unat_eq_iff)
qed

subsection \<open>Reference blocks\<close>

text \<open>The relative block number of the header does not enter the absolute one.\<close>

lemma get_ref_blocknum_head: "get_ref_blocknum h n = n"
  by (simp only: get_ref_blocknum_def div_mult_mod_eq)

lemma verify_set_reference_block: "verify_reference_block er (set_reference_block er h b) b"
  by (simp add: verify_reference_block_def set_reference_block_def)

subsection \<open>Actor lists\<close>

lemma lower_bound_cases:
  assumes "sorted_wrt (<) xs"
  shows "lower_bound xs a = [] \<Longrightarrow> \<forall>x\<in>set xs. x < a"
    "lower_bound xs a = y # ys \<Longrightarrow> a \<le> y \<and> sorted_wrt (<) (y # ys) \<and> (\<forall>b\<ge>a. b \<in> set xs \<longleftrightarrow> b \<in> set (y # ys))"
proof -
  show "lower_bound xs a = [] \<Longrightarrow> \<forall>x\<in>set xs. x < a"
    by (simp add: lower_bound_def dropWhile_eq_Nil_conv)
  assume l: "lower_bound xs a = y # ys"
  then have split: "xs = takeWhile (\<lambda>y. y < a) xs @ y # ys" and "\<not> y < a"
    unfolding lower_bound_def dropWhile_eq_Cons_conv by blast+
  note \<open>\<not> y < a\<close>
  moreover have "sorted_wrt (<) (y # ys)" using assms by (subst (asm) split) (simp only: sorted_wrt_append)
  moreover have "b \<in> set xs \<longleftrightarrow> b \<in> set (y # ys)" if "b \<ge> a" for b
    using that by (subst split) (auto dest: set_takeWhileD)
  ultimately show "a \<le> y \<and> sorted_wrt (<) (y # ys) \<and> (\<forall>b\<ge>a. b \<in> set xs \<longleftrightarrow> b \<in> set (y # ys))" by simp
qed

lemma whitelist_scan_subset:
  assumes "sorted_wrt (<) actors" "sorted_wrt (<) wl"
  shows "whitelist_scan wl actors \<longleftrightarrow> set actors \<subseteq> set wl"
  using assms
proof (induction actors arbitrary: wl)
  case (Cons a actors)
  from Cons.prems(1) have gt: "\<forall>b\<in>set actors. a < b" and st: "sorted_wrt (<) actors" by auto
  show ?case
  proof (cases "lower_bound wl a")
    case Nil
    then show ?thesis using lower_bound_cases(1) [OF Cons.prems(2) Nil] by auto
  next
    case (Cons y ys)
    note c = lower_bound_cases(2) [OF Cons.prems(2) Cons]
    have ys: "sorted_wrt (<) ys" using c by simp
    have "set actors \<subseteq> set wl \<longleftrightarrow> set actors \<subseteq> set ys" if "y = a"
      using c gt that by force
    moreover have "y = a \<longleftrightarrow> a \<in> set wl" using c by force
    ultimately show ?thesis using Cons Cons.IH [OF st ys] by auto
  qed
qed simp

lemma blacklist_scan_meets:
  assumes "sorted_wrt (<) actors" "sorted_wrt (<) bl"
  shows "blacklist_scan bl actors \<longleftrightarrow> set actors \<inter> set bl \<noteq> {}"
  using assms
proof (induction actors arbitrary: bl)
  case (Cons a actors)
  from Cons.prems(1) have gt: "\<forall>b\<in>set actors. a < b" and st: "sorted_wrt (<) actors" by auto
  show ?case
  proof (cases "lower_bound bl a")
    case Nil
    then show ?thesis using lower_bound_cases(1) [OF Cons.prems(2) Nil] gt by fastforce
  next
    case (Cons y ys)
    note c = lower_bound_cases(2) [OF Cons.prems(2) Cons]
    have ys: "sorted_wrt (<) (y # ys)" using c by simp
    have "set actors \<inter> set bl \<noteq> {} \<longleftrightarrow> set actors \<inter> set (y # ys) \<noteq> {}"
      using c gt by force
    moreover have "y = a \<longleftrightarrow> a \<in> set bl" using c by force
    ultimately show ?thesis using Cons Cons.IH [OF st ys] by auto
  qed
qed simp

lemma sorted_hd_last:
  assumes "sorted_wrt (<) xs" "x \<in> set xs"
  shows "hd xs \<le> x" "x \<le> last (xs :: 'a::linorder list)"
  using assms by (induction xs) (auto intro: less_imp_le dest: less_imp_le)

text \<open>C37. The check of the acting accounts against the configured lists, with its comparison of the
  extents and its single pass over both sorted lists, decides exactly set inclusion in a whitelist
  or, without a whitelist, disjointness from a blacklist.\<close>

theorem check_actor_list_exact:
  assumes "sorted_wrt (<) actors" "sorted_wrt (<) (conf_actor_whitelist conf)"
    "sorted_wrt (<) (conf_actor_blacklist conf)"
  shows "check_actor_list conf actors =
    (if actors = [] then Inr ()
     else if conf_actor_whitelist conf \<noteq> [] then
       if set actors \<subseteq> set (conf_actor_whitelist conf) then Inr () else Inl actor_whitelist_exception
     else if set actors \<inter> set (conf_actor_blacklist conf) = {} then Inr ()
     else Inl actor_blacklist_exception)"
proof (cases "actors = []")
  case False
  then have ends: "hd actors \<in> set actors" "last actors \<in> set actors" by auto
  have wl: "hd actors \<ge> hd (conf_actor_whitelist conf) \<and> last actors \<le> last (conf_actor_whitelist conf)"
    if "set actors \<subseteq> set (conf_actor_whitelist conf)"
    using that ends sorted_hd_last [OF assms(2)] by blast
  have bl: "hd actors \<le> last (conf_actor_blacklist conf) \<and> last actors \<ge> hd (conf_actor_blacklist conf)"
    if "x \<in> set actors" "x \<in> set (conf_actor_blacklist conf)" for x
    using that sorted_hd_last [OF assms(1)] sorted_hd_last [OF assms(3)] by (meson order_trans)
  show ?thesis
  proof (cases "conf_actor_whitelist conf = []")
    case True
    then show ?thesis using False bl blacklist_scan_meets [OF assms(1,3)]
      by (auto simp: check_actor_list_def Let_def SNAX_ASSERT_def)
  next
    case False
    then show ?thesis using \<open>actors \<noteq> []\<close> wl whitelist_scan_subset [OF assms(1,2)]
      by (auto simp: check_actor_list_def Let_def SNAX_ASSERT_def)
  qed
qed (simp add: check_actor_list_def)

definition demo_controller_config :: "nat controller_config" where
  "demo_controller_config = \<lparr>conf_sender_bypass_whiteblacklist = [], conf_actor_whitelist = [],
     conf_actor_blacklist = [3, 7], conf_contract_whitelist = [], conf_contract_blacklist = [],
     conf_action_blacklist = [], conf_key_blacklist = [], conf_resource_greylist = [],
     conf_force_all_checks = False, conf_disable_replay_opts = False, conf_light_validation_mode = False,
     conf_allow_ram_billing_in_notify = False\<rparr>"

theorem check_actor_list_exact_witness:
  "check_actor_list demo_controller_config [2, 7, 9] = Inl actor_blacklist_exception"
proof -
  note check_actor_list_exact [of "[2, 7, 9]" demo_controller_config]
  then show ?thesis by (simp add: demo_controller_config_def)
qed

subsection \<open>Light validation\<close>

text \<open>While the node is producing a block nothing is skipped; and a transaction that requires checks
  gets them whatever the status of the block.\<close>

lemma producing_skips_nothing:
  "is_producing_block cv \<or> cv_in_trx_requiring_checks cv \<Longrightarrow>
     \<not> skip_auth_check cv \<and> \<not> skip_trx_checks cv \<and> \<not> skip_db_sessions cv"
  by (auto simp: is_producing_block_def skip_auth_check_def skip_trx_checks_def skip_db_sessions_def
      light_validation_allowed_def Let_def split: option.splits)

end
