(* ===== verification/Chain_State.thy ===== *)
theory Chain_State
  imports Permissions Resource_Limits Chain_Policy
begin

text \<open>
  The state the execution of actions works on.  The object database of the node is the record
  \<^verbatim>\<open>chain_db\<close>; a \<^verbatim>\<open>transaction_context\<close> holds a reference to it, so its record extends
  \<^verbatim>\<open>chain_db\<close>, and an \<^verbatim>\<open>apply_context\<close> holds a reference to its transaction context, so its
  record extends that one in turn.  An undo session of the database is a copy of the record kept by
  the caller.
\<close>

section \<open>Objects\<close>

record account_object =
  ao_vm_type :: u8
  ao_vm_version :: u8
  ao_privileged :: bool
  ao_last_code_update :: microseconds
  ao_code_version :: digest_type
  ao_creation_date :: block_timestamp
  ao_code :: bytes
  ao_abi :: bytes

record account_sequence_object =
  as_recv_sequence :: u64
  as_auth_sequence :: u64
  as_code_sequence :: u64
  as_abi_sequence :: u64

definition zero_digest :: digest_type where "zero_digest = Digest 0 0 0 0"

definition new_account_object :: account_object where
  "new_account_object = \<lparr>ao_vm_type = 0, ao_vm_version = 0, ao_privileged = False, ao_last_code_update = 0,
     ao_code_version = zero_digest, ao_creation_date = 0, ao_code = [], ao_abi = []\<rparr>"

definition new_account_sequence_object :: account_sequence_object where
  "new_account_sequence_object = \<lparr>as_recv_sequence = 0, as_auth_sequence = 0, as_code_sequence = 0,
     as_abi_sequence = 0\<rparr>"

text \<open>Tables of contracts: a table is kept under its id, a row under the id of its table and its
  primary key; the row's own id is what tells it from a later row with the same key.\<close>

record table_id_object =
  ti_code :: account_name
  ti_scope :: account_name
  ti_table :: account_name
  ti_payer :: account_name
  ti_count :: u32

record key_value_object =
  kv_id :: nat
  kv_payer :: account_name
  kv_value :: bytes

section \<open>The database\<close>

record 'k chain_db =
  db_auth :: "'k auth_db"
  db_accounts :: "(account_name, account_object) index"
  db_sequences :: "(account_name, account_sequence_object) index"
  db_rl :: rl_db
  db_tables :: "(nat, table_id_object) index"
  db_next_table :: nat
  db_key_values :: "(nat \<times> u64, key_value_object) index"
  db_next_key_value :: nat
  db_global_action_sequence :: u64
  db_transactions :: "(digest_type, u32) index"
  db_config :: chain_config

section \<open>Transactions\<close>

record transaction = transaction_header +
  tx_context_free_actions :: "action list"
  tx_actions :: "action list"
  tx_transaction_extensions :: "(u16 \<times> bytes) list"

fun first_authorizor :: "action list \<Rightarrow> account_name" where
  "first_authorizor [] = 0"
| "first_authorizor (a # as) =
    (case act_authorization a of [] \<Rightarrow> first_authorizor as | u # us \<Rightarrow> fst u)"

definition total_actions :: "transaction \<Rightarrow> u32" where
  "total_actions t = of_nat (length (tx_context_free_actions t) + length (tx_actions t))"

text \<open>The limits of a transaction and its billing.  The three exception codes tell which exception
  a passed deadline raises; times and durations are microseconds.\<close>

datatype billing_exception = block_cpu_code | tx_cpu_code | leeway_code | deadline_code

record trx_limits =
  tl_start :: microseconds
  tl_deadline :: microseconds
  tl_leeway :: microseconds
  tl_billed_cpu_time_us :: int
  tl_explicit_billed_cpu_time :: bool
  tl_net_limit :: u64
  tl_net_limit_due_to_block :: bool
  tl_net_limit_due_to_greylist :: bool
  tl_eager_net_limit :: u64
  tl_net_usage :: u64
  tl_cpu_limit_due_to_greylist :: bool
  tl_initial_objective_duration_limit :: microseconds
  tl_objective_duration_limit :: microseconds
  tl_current_deadline :: microseconds
  tl_deadline_exception_code :: billing_exception
  tl_billing_timer_exception_code :: billing_exception
  tl_pseudo_start :: microseconds
  tl_billed_time :: microseconds
  tl_billing_timer_duration_limit :: microseconds

record 'k transaction_context = "'k chain_db" +
  tc_trx :: transaction
  tc_id :: digest_type
  tc_published :: microseconds
  tc_bill_to_accounts :: "account_name list"
  tc_validate_ram_usage :: "account_name list"
  tc_delay :: microseconds
  tc_is_input :: bool
  tc_apply_context_free :: bool
  tc_enforce_whiteblacklist :: bool
  tc_is_initialized :: bool
  tc_limits :: trx_limits

section \<open>Apply contexts\<close>

text \<open>A pointer to a row is its table, its key and its own id.  The cache of a context hands out
  small integers for rows and for the ends of tables.\<close>

type_synonym kv_ptr = "nat \<times> u64 \<times> nat"

record 'o iterator_cache =
  ic_table_cache :: "(nat, int) index"
  ic_end_iterator_to_table :: "nat list"
  ic_iterator_to_object :: "'o option list"
  ic_object_to_iterator :: "('o, int) index"

definition new_iterator_cache :: "'o iterator_cache" where
  "new_iterator_cache = \<lparr>ic_table_cache = [], ic_end_iterator_to_table = [], ic_iterator_to_object = [],
     ic_object_to_iterator = []\<rparr>"

record 'k apply_context = "'k transaction_context" +
  ac_act :: action
  ac_receiver :: account_name
  ac_used_authorizations :: "bool list"
  ac_recurse_depth :: u32
  ac_privileged :: bool
  ac_context_free :: bool
  ac_keyval_cache :: "kv_ptr iterator_cache"
  ac_notified :: "account_name list"
  ac_inline_actions :: "action list"
  ac_cfa_inline_actions :: "action list"
  ac_account_ram_deltas :: "(account_name, int) index"

end
