(* ===== verification/Apply_Context.thy ===== *)
theory Apply_Context
  imports Chain_State
begin

text \<open>
  The context an action is applied in (\<^verbatim>\<open>apply_context.hpp\<close>, \<^verbatim>\<open>apply_context.cpp\<close>):
  authorizations, RAM billing, notifications, inline and deferred transactions, and the contract
  tables with the cache of iterators.
\<close>

section \<open>Billable sizes\<close>

definition table_id_object_size :: u64 where "table_id_object_size = billable_size_v (44 + 32 * 2)"
definition key_value_object_size :: u64 where "key_value_object_size = billable_size_v (32 + 8 + 4 + 32 * 2)"
definition generated_transaction_object_size :: u64 where
  "generated_transaction_object_size = billable_size_v (96 + 4 + 32 * 5)"
definition permission_link_object_size :: u64 where
  "permission_link_object_size = billable_size_v (40 + 32 * 3)"
definition permission_object_size :: u64 where
  "permission_object_size = billable_size_v (billable_size_v (3 * 16 + 4) + 64 + 5 * 32)"

section \<open>Authorizations\<close>

fun find_position :: "('a \<Rightarrow> bool) \<Rightarrow> 'a list \<Rightarrow> nat option" where
  "find_position P [] = None"
| "find_position P (x # xs) = (if P x then Some 0 else map_option Suc (find_position P xs))"

definition is_account :: "('k, 'a) chain_db_scheme \<Rightarrow> account_name \<Rightarrow> bool" where
  "is_account db account \<longleftrightarrow> idx_find (db_accounts db) account \<noteq> None"

definition mark_authorization :: "(permission_level \<Rightarrow> bool) \<Rightarrow> 'k apply_context \<Rightarrow> 'k apply_context result" where
  "mark_authorization P cx =
    (case find_position P (act_authorization (ac_act cx)) of
       None \<Rightarrow> Inl missing_auth_exception
     | Some i \<Rightarrow> Inr (cx\<lparr>ac_used_authorizations := (ac_used_authorizations cx)[i := True]\<rparr>))"

definition require_authorization :: "'k apply_context \<Rightarrow> account_name \<Rightarrow> 'k apply_context result" where
  "require_authorization cx account = mark_authorization (\<lambda>p. fst p = account) cx"

definition require_authorization_permission ::
  "'k apply_context \<Rightarrow> account_name \<Rightarrow> account_name \<Rightarrow> 'k apply_context result" where
  "require_authorization_permission cx account permission =
    mark_authorization (\<lambda>p. fst p = account \<and> snd p = permission) cx"

definition has_authorization :: "'k apply_context \<Rightarrow> account_name \<Rightarrow> bool" where
  "has_authorization cx account \<longleftrightarrow> list_ex (\<lambda>p. fst p = account) (act_authorization (ac_act cx))"

definition require_set_contract_ability :: "'k apply_context \<Rightarrow> account_object \<Rightarrow> unit result" where
  "require_set_contract_ability cx account =
    SNAX_ASSERT (privileged_contracts (db_config cx) = 0 \<or> ao_privileged account) action_validate_exception (Inr ())"

definition require_set_abi_ability :: "'k apply_context \<Rightarrow> account_object \<Rightarrow> unit result" where
  "require_set_abi_ability cx account =
    SNAX_ASSERT (privileged_contracts (db_config cx) = 0 \<or> ao_privileged account) action_validate_exception (Inr ())"

section \<open>Notifications\<close>

definition has_recipient :: "'k apply_context \<Rightarrow> account_name \<Rightarrow> bool" where
  "has_recipient cx code \<longleftrightarrow> code \<in> set (ac_notified cx)"

definition require_recipient :: "'k apply_context \<Rightarrow> account_name \<Rightarrow> 'k apply_context" where
  "require_recipient cx recipient =
    (if \<not> has_recipient cx recipient then cx\<lparr>ac_notified := ac_notified cx @ [recipient]\<rparr> else cx)"

section \<open>RAM\<close>

definition set_insert :: "'a::linorder \<Rightarrow> 'a list \<Rightarrow> 'a list" where
  "set_insert x xs = (if x \<in> set xs then xs else insort x xs)"

text \<open>The method of the transaction context, and that of the apply context, which also keeps the
  change for the trace.\<close>

definition trx_add_ram_usage ::
  "('k, 'a) transaction_context_scheme \<Rightarrow> account_name \<Rightarrow> int \<Rightarrow> ('k, 'a) transaction_context_scheme result" where
  "trx_add_ram_usage tc account ram_delta =
    ebind (add_pending_ram_usage (db_rl tc) account ram_delta) (\<lambda>rl.
    Inr (tc\<lparr>db_rl := rl, tc_validate_ram_usage :=
      (if ram_delta > 0 then set_insert account (tc_validate_ram_usage tc) else tc_validate_ram_usage tc)\<rparr>))"

definition add_ram_usage :: "'k apply_context \<Rightarrow> account_name \<Rightarrow> int \<Rightarrow> 'k apply_context result" where
  "add_ram_usage cx account ram_delta =
    ebind (trx_add_ram_usage cx account ram_delta) (\<lambda>cx.
    Inr (cx\<lparr>ac_account_ram_deltas := idx_put account
      (case idx_find (ac_account_ram_deltas cx) account of
         None \<Rightarrow> ram_delta | Some d \<Rightarrow> wrap_i64 (d + ram_delta)) (ac_account_ram_deltas cx)\<rparr>))"

definition update_db_usage ::
  "'k controller_view \<Rightarrow> 'k apply_context \<Rightarrow> account_name \<Rightarrow> int \<Rightarrow> 'k apply_context result" where
  "update_db_usage cv cx payer delta =
    ebind (if delta > 0 \<and> \<not> (ac_privileged cx \<or> payer = ac_receiver cx) then
             SNAX_ASSERT (is_ram_billing_in_notify_allowed cv \<or> ac_receiver cx = act_account (ac_act cx))
               subjective_block_production_exception (require_authorization cx payer)
           else Inr cx) (\<lambda>cx.
    add_ram_usage cx payer delta)"

section \<open>Sequences\<close>

definition next_global_sequence :: "'k apply_context \<Rightarrow> 'k apply_context \<times> u64" where
  "next_global_sequence cx =
    (let s = db_global_action_sequence cx + 1 in (cx\<lparr>db_global_action_sequence := s\<rparr>, s))"

definition next_recv_sequence :: "'k apply_context \<Rightarrow> account_name \<Rightarrow> ('k apply_context \<times> u64) result" where
  "next_recv_sequence cx receiver =
    ebind (idx_get (db_sequences cx) receiver) (\<lambda>rs.
    let s = as_recv_sequence rs + 1 in
    Inr (cx\<lparr>db_sequences := idx_modify receiver (\<lambda>r. r\<lparr>as_recv_sequence := s\<rparr>) (db_sequences cx)\<rparr>, s))"

definition next_auth_sequence :: "'k apply_context \<Rightarrow> account_name \<Rightarrow> ('k apply_context \<times> u64) result" where
  "next_auth_sequence cx actor =
    ebind (idx_get (db_sequences cx) actor) (\<lambda>rs.
    let s = as_auth_sequence rs + 1 in
    Inr (cx\<lparr>db_sequences := idx_modify actor (\<lambda>r. r\<lparr>as_auth_sequence := s\<rparr>) (db_sequences cx)\<rparr>, s))"

section \<open>The cache of iterators\<close>

text \<open>Iterators are 32-bit numbers in the code.  For every such number below \<open>- 1\<close> the index computed here is also what
  wrapping arithmetic gives, and the numbers given out stay in the range as long as a cache holds
  fewer than \<open>2 ^ 31 - 1\<close> tables and objects.\<close>

definition end_iterator_to_index :: "int \<Rightarrow> nat" where
  "end_iterator_to_index ei = nat (- ei - 2)"

definition index_to_end_iterator :: "nat \<Rightarrow> int" where
  "index_to_end_iterator indx = - (int indx + 2)"

definition cache_table :: "'o iterator_cache \<Rightarrow> nat \<Rightarrow> 'o iterator_cache \<times> int" where
  "cache_table ic tid =
    (case idx_find (ic_table_cache ic) tid of
       Some ei \<Rightarrow> (ic, ei)
     | None \<Rightarrow>
         let ei = index_to_end_iterator (length (ic_end_iterator_to_table ic))
         in (ic\<lparr>ic_end_iterator_to_table := ic_end_iterator_to_table ic @ [tid],
                ic_table_cache := idx_put tid ei (ic_table_cache ic)\<rparr>, ei))"

definition cache_get_table :: "'o iterator_cache \<Rightarrow> nat \<Rightarrow> nat result" where
  "cache_get_table ic tid =
    (case idx_find (ic_table_cache ic) tid of None \<Rightarrow> Inl table_not_in_cache | Some ei \<Rightarrow> Inr tid)"

definition get_end_iterator_by_table_id :: "'o iterator_cache \<Rightarrow> nat \<Rightarrow> int result" where
  "get_end_iterator_by_table_id ic tid =
    (case idx_find (ic_table_cache ic) tid of None \<Rightarrow> Inl table_not_in_cache | Some ei \<Rightarrow> Inr ei)"

definition find_table_by_end_iterator :: "'o iterator_cache \<Rightarrow> int \<Rightarrow> nat option result" where
  "find_table_by_end_iterator ic ei =
    SNAX_ASSERT (ei < - 1) invalid_table_iterator (
    let indx = end_iterator_to_index ei in
    Inr (if indx \<ge> length (ic_end_iterator_to_table ic) then None
         else Some (ic_end_iterator_to_table ic ! indx)))"

definition cache_get :: "'o iterator_cache \<Rightarrow> int \<Rightarrow> 'o result" where
  "cache_get ic iterator =
    SNAX_ASSERT (iterator \<noteq> - 1) invalid_table_iterator (
    SNAX_ASSERT (iterator \<ge> 0) table_operation_not_permitted (
    SNAX_ASSERT (iterator < int (length (ic_iterator_to_object ic))) invalid_table_iterator (
    case ic_iterator_to_object ic ! nat iterator of
      None \<Rightarrow> Inl table_operation_not_permitted
    | Some obj \<Rightarrow> Inr obj)))"

definition cache_remove :: "'o iterator_cache \<Rightarrow> int \<Rightarrow> 'o iterator_cache result" where
  "cache_remove ic iterator =
    SNAX_ASSERT (iterator \<noteq> - 1) invalid_table_iterator (
    SNAX_ASSERT (iterator \<ge> 0) table_operation_not_permitted (
    SNAX_ASSERT (iterator < int (length (ic_iterator_to_object ic))) invalid_table_iterator (
    case ic_iterator_to_object ic ! nat iterator of
      None \<Rightarrow> Inr ic
    | Some obj \<Rightarrow> Inr (ic\<lparr>ic_iterator_to_object := (ic_iterator_to_object ic)[nat iterator := None],
                         ic_object_to_iterator := idx_remove obj (ic_object_to_iterator ic)\<rparr>))))"

definition cache_add :: "'o::linorder iterator_cache \<Rightarrow> 'o \<Rightarrow> 'o iterator_cache \<times> int" where
  "cache_add ic obj =
    (case idx_find (ic_object_to_iterator ic) obj of
       Some i \<Rightarrow> (ic, i)
     | None \<Rightarrow>
         let i = int (length (ic_iterator_to_object ic))
         in (ic\<lparr>ic_iterator_to_object := ic_iterator_to_object ic @ [Some obj],
                ic_object_to_iterator := idx_put obj i (ic_object_to_iterator ic)\<rparr>, i))"

section \<open>Tables of contracts\<close>

text \<open>Following a pointer: to a table, and to a row.  A pointer to an object that has been removed is
  dangling.\<close>

definition deref_table :: "'k apply_context \<Rightarrow> nat \<Rightarrow> table_id_object result" where
  "deref_table cx tid =
    (case idx_find (db_tables cx) tid of None \<Rightarrow> Inl undefined_behaviour | Some t \<Rightarrow> Inr t)"

fun deref_key_value :: "'k apply_context \<Rightarrow> kv_ptr \<Rightarrow> key_value_object result" where
  "deref_key_value cx (tid, key, i) =
    (case idx_find (db_key_values cx) (tid, key) of
       None \<Rightarrow> Inl undefined_behaviour
     | Some o' \<Rightarrow> if kv_id o' = i then Inr o' else Inl undefined_behaviour)"

definition find_table :: "'k apply_context \<Rightarrow> account_name \<Rightarrow> account_name \<Rightarrow> account_name \<Rightarrow> nat option" where
  "find_table cx code scope table = map_option fst
    (List.find (\<lambda>r. ti_code (snd r) = code \<and> ti_scope (snd r) = scope \<and> ti_table (snd r) = table)
      (idx_rows (db_tables cx)))"

definition find_or_create_table ::
  "'k controller_view \<Rightarrow> 'k apply_context \<Rightarrow> account_name \<Rightarrow> account_name \<Rightarrow> account_name \<Rightarrow> account_name \<Rightarrow>
   ('k apply_context \<times> nat) result" where
  "find_or_create_table cv cx code scope table payer =
    (case find_table cx code scope table of
       Some tid \<Rightarrow> Inr (cx, tid)
     | None \<Rightarrow>
         ebind (update_db_usage cv cx payer (sint table_id_object_size)) (\<lambda>cx.
         let tid = db_next_table cx in
         ebind (idx_create tid \<lparr>ti_code = code, ti_scope = scope, ti_table = table, ti_payer = payer,
                               ti_count = 0\<rparr> (db_tables cx)) (\<lambda>tables.
         Inr (cx\<lparr>db_tables := tables, db_next_table := tid + 1\<rparr>, tid))))"

definition remove_table :: "'k controller_view \<Rightarrow> 'k apply_context \<Rightarrow> nat \<Rightarrow> 'k apply_context result" where
  "remove_table cv cx tid =
    ebind (deref_table cx tid) (\<lambda>t.
    ebind (update_db_usage cv cx (ti_payer t) (sint (- table_id_object_size))) (\<lambda>cx.
    Inr (cx\<lparr>db_tables := idx_remove tid (db_tables cx)\<rparr>)))"

definition keyval_add :: "'k apply_context \<Rightarrow> kv_ptr \<Rightarrow> 'k apply_context \<times> int" where
  "keyval_add cx p = (let (ic, i) = cache_add (ac_keyval_cache cx) p in (cx\<lparr>ac_keyval_cache := ic\<rparr>, i))"

definition keyval_cache_table :: "'k apply_context \<Rightarrow> nat \<Rightarrow> 'k apply_context \<times> int" where
  "keyval_cache_table cx tid =
    (let (ic, ei) = cache_table (ac_keyval_cache cx) tid in (cx\<lparr>ac_keyval_cache := ic\<rparr>, ei))"

definition db_store_i64 ::
  "'k controller_view \<Rightarrow> 'k apply_context \<Rightarrow> account_name \<Rightarrow> account_name \<Rightarrow> account_name \<Rightarrow> account_name \<Rightarrow>
   u64 \<Rightarrow> bytes \<Rightarrow> ('k apply_context \<times> int) result" where
  "db_store_i64 cv cx code scope table payer key buffer =
    ebind (find_or_create_table cv cx code scope table payer) (\<lambda>(cx, tid).
    SNAX_ASSERT (payer \<noteq> 0) invalid_table_payer (
    let i = db_next_key_value cx in
    ebind (idx_create (tid, key) \<lparr>kv_id = i, kv_payer = payer, kv_value = buffer\<rparr> (db_key_values cx)) (\<lambda>kvs.
    let cx = cx\<lparr>db_key_values := kvs, db_next_key_value := i + 1,
                db_tables := idx_modify tid (\<lambda>t. t\<lparr>ti_count := ti_count t + 1\<rparr>) (db_tables cx)\<rparr> in
    ebind (update_db_usage cv cx payer (sint (of_nat (length buffer) + key_value_object_size))) (\<lambda>cx.
    let (cx, _) = keyval_cache_table cx tid in
    Inr (keyval_add cx (tid, key, i))))))"

definition db_store ::
  "'k controller_view \<Rightarrow> 'k apply_context \<Rightarrow> account_name \<Rightarrow> account_name \<Rightarrow> account_name \<Rightarrow>
   u64 \<Rightarrow> bytes \<Rightarrow> ('k apply_context \<times> int) result" where
  "db_store cv cx scope table payer key buffer = db_store_i64 cv cx (ac_receiver cx) scope table payer key buffer"

definition rebill_row ::
  "'k controller_view \<Rightarrow> 'k apply_context \<Rightarrow> account_name \<Rightarrow> account_name \<Rightarrow> int \<Rightarrow> int \<Rightarrow> 'k apply_context result" where
  "rebill_row cv cx old_payer payer old_size new_size =
    (if old_payer \<noteq> payer then
       ebind (update_db_usage cv cx old_payer (wrap_i64 (- old_size))) (\<lambda>cx. update_db_usage cv cx payer new_size)
     else if old_size \<noteq> new_size then update_db_usage cv cx old_payer (wrap_i64 (new_size - old_size))
     else Inr cx)"

definition db_update_i64 ::
  "'k controller_view \<Rightarrow> 'k apply_context \<Rightarrow> int \<Rightarrow> account_name \<Rightarrow> bytes \<Rightarrow> 'k apply_context result" where
  "db_update_i64 cv cx iterator payer buffer =
    ebind (cache_get (ac_keyval_cache cx) iterator) (\<lambda>p.
    ebind (deref_key_value cx p) (\<lambda>obj.
    ebind (cache_get_table (ac_keyval_cache cx) (fst p)) (\<lambda>tid.
    ebind (deref_table cx tid) (\<lambda>table_obj.
    SNAX_ASSERT (ti_code table_obj = ac_receiver cx) table_access_violation (
    let old_size = sint (of_nat (length (kv_value obj)) + key_value_object_size);
        new_size = sint (of_nat (length buffer) + key_value_object_size);
        payer = (if payer = 0 then kv_payer obj else payer) in
    ebind (rebill_row cv cx (kv_payer obj) payer old_size new_size) (\<lambda>cx.
    Inr (cx\<lparr>db_key_values := idx_modify (fst p, fst (snd p))
           (\<lambda>r. r\<lparr>kv_value := buffer, kv_payer := payer\<rparr>) (db_key_values cx)\<rparr>)))))))"

definition db_remove_i64 :: "'k controller_view \<Rightarrow> 'k apply_context \<Rightarrow> int \<Rightarrow> 'k apply_context result" where
  "db_remove_i64 cv cx iterator =
    ebind (cache_get (ac_keyval_cache cx) iterator) (\<lambda>p.
    ebind (deref_key_value cx p) (\<lambda>obj.
    ebind (cache_get_table (ac_keyval_cache cx) (fst p)) (\<lambda>tid.
    ebind (deref_table cx tid) (\<lambda>table_obj.
    SNAX_ASSERT (ti_code table_obj = ac_receiver cx) table_access_violation (
    ebind (update_db_usage cv cx (kv_payer obj)
            (sint (- (of_nat (length (kv_value obj)) + key_value_object_size)))) (\<lambda>cx.
    let cx = cx\<lparr>db_tables := idx_modify tid (\<lambda>t. t\<lparr>ti_count := ti_count t - 1\<rparr>) (db_tables cx),
                db_key_values := idx_remove (fst p, fst (snd p)) (db_key_values cx)\<rparr> in
    ebind (if ti_count table_obj - 1 = 0 then remove_table cv cx tid else Inr cx) (\<lambda>cx.
    ebind (cache_remove (ac_keyval_cache cx) iterator) (\<lambda>ic.
    Inr (cx\<lparr>ac_keyval_cache := ic\<rparr>)))))))))"

text \<open>Reading a row copies at most the size of the buffer, and returns the full size when the buffer is
  empty; the size is returned as an \<^verbatim>\<open>int\<close>.\<close>

definition int_of_size :: "nat \<Rightarrow> int" where
  "int_of_size n = sint (of_nat n :: u32)"

definition db_get_i64 :: "'k apply_context \<Rightarrow> int \<Rightarrow> nat \<Rightarrow> (int \<times> bytes) result" where
  "db_get_i64 cx iterator buffer_size =
    ebind (cache_get (ac_keyval_cache cx) iterator) (\<lambda>p.
    ebind (deref_key_value cx p) (\<lambda>obj.
    let s = length (kv_value obj) in
    if buffer_size = 0 then Inr (int_of_size s, [])
    else let copy_size = min buffer_size s in Inr (int_of_size copy_size, take copy_size (kv_value obj))))"

text \<open>Moving in the index \<^verbatim>\<open>by_scope_primary\<close>, which is ordered by table and key: the rows of the model
  are in this order.\<close>

definition row_ptr :: "(nat \<times> u64) \<times> key_value_object \<Rightarrow> kv_ptr" where
  "row_ptr r = (fst (fst r), snd (fst r), kv_id (snd r))"

definition rows_from :: "'k apply_context \<Rightarrow> (nat \<times> u64 \<Rightarrow> bool) \<Rightarrow> ((nat \<times> u64) \<times> key_value_object) list" where
  "rows_from cx below = dropWhile (\<lambda>r. below (fst r)) (idx_rows (db_key_values cx))"

definition rows_before :: "'k apply_context \<Rightarrow> (nat \<times> u64 \<Rightarrow> bool) \<Rightarrow> ((nat \<times> u64) \<times> key_value_object) list" where
  "rows_before cx below = takeWhile (\<lambda>r. below (fst r)) (idx_rows (db_key_values cx))"

definition db_next_i64 :: "'k apply_context \<Rightarrow> int \<Rightarrow> ('k apply_context \<times> int \<times> u64 option) result" where
  "db_next_i64 cx iterator =
    (if iterator < - 1 then Inr (cx, - 1, None)
     else ebind (cache_get (ac_keyval_cache cx) iterator) (\<lambda>p.
       ebind (deref_key_value cx p) (\<lambda>obj.
       case rows_from cx (\<lambda>k. k \<le> (fst p, fst (snd p))) of
         [] \<Rightarrow> ebind (get_end_iterator_by_table_id (ac_keyval_cache cx) (fst p)) (\<lambda>ei. Inr (cx, ei, None))
       | r # rs \<Rightarrow>
           if fst (fst r) \<noteq> fst p
           then ebind (get_end_iterator_by_table_id (ac_keyval_cache cx) (fst p)) (\<lambda>ei. Inr (cx, ei, None))
           else let (cx, i) = keyval_add cx (row_ptr r) in Inr (cx, i, Some (snd (fst r))))))"

definition step_back ::
  "'k apply_context \<Rightarrow> nat \<Rightarrow> ((nat \<times> u64) \<times> key_value_object) list \<Rightarrow> 'k apply_context \<times> int \<times> u64 option" where
  "step_back cx tid before =
    (if before = [] then (cx, - 1, None)
     else if fst (fst (last before)) \<noteq> tid then (cx, - 1, None)
     else let (cx, i) = keyval_add cx (row_ptr (last before)) in (cx, i, Some (snd (fst (last before)))))"

definition db_previous_i64 :: "'k apply_context \<Rightarrow> int \<Rightarrow> ('k apply_context \<times> int \<times> u64 option) result" where
  "db_previous_i64 cx iterator =
    (if iterator < - 1 then
       ebind (find_table_by_end_iterator (ac_keyval_cache cx) iterator) (\<lambda>tab.
       case tab of
         None \<Rightarrow> Inl invalid_table_iterator
       | Some tid \<Rightarrow>
           ebind (deref_table cx tid) (\<lambda>_. Inr (step_back cx tid (rows_before cx (\<lambda>k. fst k \<le> tid)))))
     else ebind (cache_get (ac_keyval_cache cx) iterator) (\<lambda>p.
       ebind (deref_key_value cx p) (\<lambda>obj.
       Inr (step_back cx (fst p) (rows_before cx (\<lambda>k. k < (fst p, fst (snd p))))))))"

definition db_seek ::
  "'k apply_context \<Rightarrow> account_name \<Rightarrow> account_name \<Rightarrow> account_name \<Rightarrow> (nat \<Rightarrow> nat \<times> u64 \<Rightarrow> bool) \<Rightarrow>
   'k apply_context \<times> int" where
  "db_seek cx code scope table below =
    (case find_table cx code scope table of
       None \<Rightarrow> (cx, - 1)
     | Some tid \<Rightarrow>
         let (cx, table_end_itr) = keyval_cache_table cx tid in
         case rows_from cx (below tid) of
           [] \<Rightarrow> (cx, table_end_itr)
         | r # rs \<Rightarrow> if fst (fst r) \<noteq> tid then (cx, table_end_itr) else keyval_add cx (row_ptr r))"

definition db_lowerbound_i64 ::
  "'k apply_context \<Rightarrow> account_name \<Rightarrow> account_name \<Rightarrow> account_name \<Rightarrow> u64 \<Rightarrow> 'k apply_context \<times> int" where
  "db_lowerbound_i64 cx code scope table key = db_seek cx code scope table (\<lambda>tid k. k < (tid, key))"

definition db_upperbound_i64 ::
  "'k apply_context \<Rightarrow> account_name \<Rightarrow> account_name \<Rightarrow> account_name \<Rightarrow> u64 \<Rightarrow> 'k apply_context \<times> int" where
  "db_upperbound_i64 cx code scope table key = db_seek cx code scope table (\<lambda>tid k. k \<le> (tid, key))"

definition db_find_i64 ::
  "'k apply_context \<Rightarrow> account_name \<Rightarrow> account_name \<Rightarrow> account_name \<Rightarrow> u64 \<Rightarrow> 'k apply_context \<times> int" where
  "db_find_i64 cx code scope table key =
    (case find_table cx code scope table of
       None \<Rightarrow> (cx, - 1)
     | Some tid \<Rightarrow>
         let (cx, table_end_itr) = keyval_cache_table cx tid in
         case idx_find (db_key_values cx) (tid, key) of
           None \<Rightarrow> (cx, table_end_itr)
         | Some obj \<Rightarrow> keyval_add cx (tid, key, kv_id obj))"

definition db_end_i64 ::
  "'k apply_context \<Rightarrow> account_name \<Rightarrow> account_name \<Rightarrow> account_name \<Rightarrow> 'k apply_context \<times> int" where
  "db_end_i64 cx code scope table =
    (case find_table cx code scope table of None \<Rightarrow> (cx, - 1) | Some tid \<Rightarrow> keyval_cache_table cx tid)"

section \<open>The environment\<close>

text \<open>What comes from outside: the policies of the controller, and as parameters the serialization and
  hashing of the \<^verbatim>\<open>fc\<close> library, the id of the head block and the validation of WebAssembly code.\<close>

record 'k chain_env =
  en_view :: "'k controller_view"
  en_codec :: "'k codec"
  en_pack_transaction :: "transaction \<Rightarrow> bytes"
  en_transaction_id :: "transaction \<Rightarrow> digest_type"
  en_pack_key_size :: "'k \<Rightarrow> u64"
  en_endian_reverse_u32 :: "u32 \<Rightarrow> u32"
  en_head_block_id :: digest_type
  en_sha256 :: "bytes \<Rightarrow> digest_type"
  en_validate_wasm :: "bytes \<Rightarrow> unit result"

text \<open>What a permission with a given authority is billed.\<close>

definition auth_size :: "'k chain_env \<Rightarrow> 'k authority \<Rightarrow> u64" where
  "auth_size en auth = permission_object_size + get_billable_size (en_pack_key_size en) auth"

section \<open>Net usage and referenced accounts\<close>

definition check_net_usage :: "'k controller_view \<Rightarrow> trx_limits \<Rightarrow> unit result" where
  "check_net_usage cv l =
    (if \<not> skip_trx_checks cv then
       if tl_net_usage l > tl_eager_net_limit l then
         if tl_net_limit_due_to_block l then Inl block_net_usage_exceeded
         else if tl_net_limit_due_to_greylist l then Inl greylist_net_usage_exceeded
         else Inl tx_net_usage_exceeded
       else Inr ()
     else Inr ())"

definition add_net_usage :: "'k controller_view \<Rightarrow> trx_limits \<Rightarrow> u64 \<Rightarrow> trx_limits result" where
  "add_net_usage cv l u =
    (let l = l\<lparr>tl_net_usage := tl_net_usage l + u\<rparr> in ebind (check_net_usage cv l) (\<lambda>_. Inr l))"

definition check_context_free_action :: "('k, 'a) chain_db_scheme \<Rightarrow> unit \<Rightarrow> action \<Rightarrow> unit result" where
  "check_context_free_action db u a =
    SNAX_ASSERT (is_account db (act_account a)) transaction_exception (
    SNAX_ASSERT (length (act_authorization a) = 0) transaction_exception (Inr ()))"

definition check_authorizing_actor ::
  "('k, 'a) chain_db_scheme \<Rightarrow> account_name list \<Rightarrow> permission_level \<Rightarrow> account_name list result" where
  "check_authorizing_actor db actors auth =
    SNAX_ASSERT (is_account db (fst auth)) transaction_exception (
    ebind (find_permission (db_auth db) auth) (\<lambda>p.
    SNAX_ASSERT (p \<noteq> None) transaction_exception (
    Inr (set_insert (fst auth) actors))))"

definition check_action_accounts ::
  "('k, 'a) chain_db_scheme \<Rightarrow> account_name list \<Rightarrow> action \<Rightarrow> account_name list result" where
  "check_action_accounts db actors a =
    SNAX_ASSERT (is_account db (act_account a)) transaction_exception (
    efold (check_authorizing_actor db) actors (act_authorization a))"

text \<open>The loop collects the actors whether or not they will be checked; \<^verbatim>\<open>one_auth\<close> says that there was
  an authorization.\<close>

definition validate_referenced_accounts ::
  "'k controller_view \<Rightarrow> ('k, 'a) chain_db_scheme \<Rightarrow> transaction \<Rightarrow> bool \<Rightarrow> unit result" where
  "validate_referenced_accounts cv db trx enforce_actor_whitelist_blacklist =
    ebind (efold (check_context_free_action db) () (tx_context_free_actions trx)) (\<lambda>_.
    ebind (efold (check_action_accounts db) [] (tx_actions trx)) (\<lambda>actors.
    SNAX_ASSERT (list_ex (\<lambda>a. act_authorization a \<noteq> []) (tx_actions trx)) tx_no_auths (
    if enforce_actor_whitelist_blacklist then check_actor_list (cv_conf cv) actors else Inr ())))"

section \<open>Inline actions\<close>

definition check_inline_actor :: "'k apply_context \<Rightarrow> account_name list \<Rightarrow> permission_level \<Rightarrow> account_name list result" where
  "check_inline_actor cx actors auth =
    SNAX_ASSERT (is_account cx (fst auth)) action_validate_exception (
    ebind (find_permission (db_auth cx) auth) (\<lambda>p.
    SNAX_ASSERT (p \<noteq> None) action_validate_exception (
    Inr (set_insert (fst auth) actors))))"

text \<open>A failed authorization check is passed on, unless the code sends the action to itself: then it is
  a subjective failure while producing a block, and ignored otherwise.\<close>

definition self_authorized :: "'k controller_view \<Rightarrow> bool \<Rightarrow> unit result \<Rightarrow> unit result" where
  "self_authorized cv send_to_self r =
    (case r of
       Inr u \<Rightarrow> Inr u
     | Inl e \<Rightarrow> if \<not> send_to_self then Inl e
                else if is_producing_block cv then Inl subjective_block_production_exception
                else Inr ())"

definition execute_inline :: "'k chain_env \<Rightarrow> 'k::linorder apply_context \<Rightarrow> action \<Rightarrow> 'k apply_context result" where
  "execute_inline en cx a =
    (let cv = en_view en;
         enforce_actor_whitelist_blacklist = (tc_enforce_whiteblacklist cx \<and> is_producing_block cv);
         send_to_self = (act_account a = ac_receiver cx);
         inherit_parent_authorizations =
           (send_to_self \<and> ac_receiver cx = act_account (ac_act cx) \<and> is_producing_block cv);
         inherited_authorizations =
           (if inherit_parent_authorizations
            then filter (\<lambda>auth. auth \<in> set (act_authorization (ac_act cx))) (act_authorization a) else [])
     in SNAX_ASSERT (is_account cx (act_account a)) action_validate_exception (
        ebind (efold (check_inline_actor cx) [] (act_authorization a)) (\<lambda>actors.
        ebind (if enforce_actor_whitelist_blacklist then check_actor_list (cv_conf cv) actors else Inr ()) (\<lambda>_.
        ebind (if \<not> skip_auth_check cv \<and> \<not> ac_privileged cx then
                 self_authorized cv send_to_self
                   (check_authorization (en_codec en) (db_auth cx) [a] [] [(ac_receiver cx, snax_code_name)]
                     (ad_pending_block_time (db_auth cx) - tc_published cx) False inherited_authorizations)
               else Inr ()) (\<lambda>_.
        Inr (cx\<lparr>ac_inline_actions := ac_inline_actions cx @ [a]\<rparr>))))))"

definition execute_context_free_inline :: "'k apply_context \<Rightarrow> action \<Rightarrow> 'k apply_context result" where
  "execute_context_free_inline cx a =
    SNAX_ASSERT (is_account cx (act_account a)) action_validate_exception (
    SNAX_ASSERT (length (act_authorization a) = 0) action_validate_exception (
    Inr (cx\<lparr>ac_cfa_inline_actions := ac_cfa_inline_actions cx @ [a]\<rparr>)))"

section \<open>Deferred transactions\<close>

text \<open>The index \<^verbatim>\<open>by_sender_id\<close>; the table is kept by transaction id.\<close>

definition find_by_sender_id ::
  "'k auth_db \<Rightarrow> account_name \<Rightarrow> u128 \<Rightarrow> (digest_type \<times> generated_transaction_object) option" where
  "find_by_sender_id db sender sender_id =
    List.find (\<lambda>r. gt_sender (snd r) = sender \<and> gt_sender_id (snd r) = sender_id) (idx_rows (ad_generated db))"

definition gto_size :: "generated_transaction_object \<Rightarrow> u64" where
  "gto_size g = generated_transaction_object_size + of_nat (length (gt_packed_trx g))"

text \<open>The payer is charged for the size that \<^verbatim>\<open>generated_transaction_object::set\<close> returns, a
  \<^verbatim>\<open>uint32_t\<close>; the refunds use the size of the stored bytes, a \<^verbatim>\<open>size_t\<close>.\<close>

definition gto_charge :: "generated_transaction_object \<Rightarrow> u64" where
  "gto_charge g = generated_transaction_object_size + ucast (of_nat (length (gt_packed_trx g)) :: u32)"

definition set_generated ::
  "(digest_type, generated_transaction_object) index \<Rightarrow> ('k, 'a) chain_db_scheme \<Rightarrow> ('k, 'a) chain_db_scheme" where
  "set_generated t db = db\<lparr>db_auth := (db_auth db)\<lparr>ad_generated := t\<rparr>\<rparr>"

definition deferred_object ::
  "'k chain_env \<Rightarrow> 'k apply_context \<Rightarrow> u128 \<Rightarrow> account_name \<Rightarrow> transaction \<Rightarrow> generated_transaction_object" where
  "deferred_object en cx sender_id payer trx =
    (let now = ad_pending_block_time (db_auth cx); delay_until = now + uint (th_delay_sec trx) * 1000000
     in \<lparr>gt_sender = ac_receiver cx, gt_sender_id = sender_id, gt_payer = payer, gt_delay_until = delay_until,
         gt_expiration = delay_until + uint (deferred_trx_expiration_window (db_config cx)) * 1000000,
         gt_published = now, gt_packed_trx = en_pack_transaction en trx\<rparr>)"

definition store_deferred ::
  "'k chain_env \<Rightarrow> 'k apply_context \<Rightarrow> u128 \<Rightarrow> account_name \<Rightarrow> transaction \<Rightarrow> bool \<Rightarrow> 'k apply_context result" where
  "store_deferred en cx sender_id payer trx replace_existing =
    (let gtx = deferred_object en cx sender_id payer trx in
     case find_by_sender_id (db_auth cx) (ac_receiver cx) sender_id of
       Some (trx_id, ptr) \<Rightarrow>
         SNAX_ASSERT replace_existing deferred_tx_duplicate (
         ebind (add_ram_usage cx (gt_payer ptr) (sint (- gto_size ptr))) (\<lambda>cx.
         Inr (set_generated (idx_modify trx_id (\<lambda>_. gtx) (ad_generated (db_auth cx))) cx)))
     | None \<Rightarrow>
         ebind (idx_create (en_transaction_id en trx) gtx (ad_generated (db_auth cx))) (\<lambda>t.
         Inr (set_generated t cx)))"

definition schedule_deferred_transaction ::
  "'k chain_env \<Rightarrow> 'k::linorder apply_context \<Rightarrow> u128 \<Rightarrow> account_name \<Rightarrow> transaction \<Rightarrow> bool \<Rightarrow>
   'k apply_context result" where
  "schedule_deferred_transaction en cx sender_id payer trx replace_existing =
    (let cv = en_view en in
     SNAX_ASSERT (length (tx_context_free_actions trx) = 0) cfa_inside_generated_tx (
     let trx = trx\<lparr>th_expiration := word_of_int ((ad_pending_block_time (db_auth cx) + 999999) sdiv 1000000),
                   th_ref_block_num := ucast (en_endian_reverse_u32 en (ucast (hash_word (en_head_block_id en) 0))),
                   th_ref_block_prefix := ucast (hash_word (en_head_block_id en) 1)\<rparr>;
         enforce_actor_whitelist_blacklist = (tc_enforce_whiteblacklist cx \<and> is_producing_block cv
           \<and> \<not> sender_avoids_whitelist_blacklist_enforcement (cv_conf cv) (ac_receiver cx)) in
     ebind (validate_referenced_accounts cv cx trx enforce_actor_whitelist_blacklist) (\<lambda>_.
     ebind (add_net_usage cv (tc_limits cx) (ucast (base_per_transaction_net_usage (db_config cx)) + 32)) (\<lambda>l.
     let cx = cx\<lparr>tc_limits := l\<rparr>; delay = uint (th_delay_sec trx) * 1000000 in
     ebind (if \<not> skip_auth_check cv \<and> \<not> ac_privileged cx then
              ebind (if payer \<noteq> ac_receiver cx then require_authorization cx payer else Inr cx) (\<lambda>cx.
              ebind (self_authorized cv (\<forall>act \<in> set (tx_actions trx). act_account act = ac_receiver cx)
                (check_authorization (en_codec en) (db_auth cx) (tx_actions trx) []
                  [(ac_receiver cx, snax_code_name)] delay False [])) (\<lambda>_. Inr cx))
            else Inr cx) (\<lambda>cx.
     ebind (store_deferred en cx sender_id payer trx replace_existing) (\<lambda>cx.
     SNAX_ASSERT (is_ram_billing_in_notify_allowed cv \<or> ac_receiver cx = act_account (ac_act cx)
         \<or> ac_receiver cx = payer \<or> ac_privileged cx) subjective_block_production_exception (
     add_ram_usage cx payer (sint (gto_charge (deferred_object en cx sender_id payer trx))))))))))"

definition cancel_deferred_transaction ::
  "'k apply_context \<Rightarrow> u128 \<Rightarrow> account_name \<Rightarrow> ('k apply_context \<times> bool) result" where
  "cancel_deferred_transaction cx sender_id sender =
    (case find_by_sender_id (db_auth cx) sender sender_id of
       None \<Rightarrow> Inr (cx, False)
     | Some (trx_id, gto) \<Rightarrow>
         ebind (add_ram_usage cx (gt_payer gto) (sint (- gto_size gto))) (\<lambda>cx.
         Inr (set_generated (idx_remove trx_id (ad_generated (db_auth cx))) cx, True)))"

definition get_context_free_data :: "bytes list \<Rightarrow> u32 \<Rightarrow> nat \<Rightarrow> int \<times> bytes" where
  "get_context_free_data cfd indx buffer_size =
    (if unat indx \<ge> length cfd then (- 1, [])
     else let s = length (cfd ! unat indx) in
       if buffer_size = 0 then (int_of_size s, [])
       else let copy_size = min buffer_size s in (int_of_size copy_size, take copy_size (cfd ! unat indx)))"

end
