(* ===== verification/Native_Actions.thy ===== *)
theory Native_Actions
  imports Apply_Context
begin

text \<open>
  The native actions of the system account (\<^verbatim>\<open>snax_contract.cpp\<close>): accounts, code and interfaces,
  permissions, links, and the cancelling of delayed transactions.  Each handler is a function of the
  apply context; its action data is unpacked by the codec of the environment.
\<close>

section \<open>Helpers\<close>

text \<open>The data of an action, checked against the type it is read as.\<close>

definition data_as :: "account_name \<Rightarrow> (bytes \<Rightarrow> 'a result) \<Rightarrow> action \<Rightarrow> 'a result" where
  "data_as type_name unpack act =
    SNAX_ASSERT (act_account act = system_account_name) action_type_exception (
    SNAX_ASSERT (act_name act = type_name) action_type_exception (
    unpack (act_data act)))"

definition transaction_id_to_sender_id :: "digest_type \<Rightarrow> u128" where
  "transaction_id_to_sender_id tid = or (push_bit 64 (ucast (hash_word tid 3))) (ucast (hash_word tid 2))"

definition starts_with_snax :: "string \<Rightarrow> bool" where
  "starts_with_snax s \<longleftrightarrow> take 5 s = ''snax.''"

definition check_authority_account ::
  "'k apply_context \<Rightarrow> unit \<Rightarrow> permission_level_weight \<Rightarrow> unit result" where
  "check_authority_account cx u a =
    (let p = plw_permission a in
     SNAX_ASSERT (is_account cx (fst p)) action_validate_exception (
     if snd p = owner_name \<or> snd p = active_name then Inr ()
     else if snd p = snax_code_name then Inr ()
     else case get_permission (db_auth cx) p of
       Inr r \<Rightarrow> Inr ()
     | Inl e \<Rightarrow> if e = permission_query_exception then Inl action_validate_exception else Inl e))"

definition validate_authority_precondition ::
  "'k controller_view \<Rightarrow> 'k apply_context \<Rightarrow> 'k authority \<Rightarrow> unit result" where
  "validate_authority_precondition cv cx auth =
    ebind (efold (check_authority_account cx) () (accounts auth)) (\<lambda>_.
    if tc_enforce_whiteblacklist cx \<and> is_producing_block cv
    then efold (\<lambda>u k. check_key_list (cv_conf cv) (kw_key k)) () (keys auth)
    else Inr ())"

text \<open>Running an operation of the authorization manager on the database.\<close>

definition with_auth :: "'k auth_db \<Rightarrow> 'k apply_context \<Rightarrow> 'k apply_context" where
  "with_auth a cx = cx\<lparr>db_auth := a\<rparr>"

section \<open>Accounts\<close>

definition create_account ::
  "'k chain_env \<Rightarrow> 'k apply_context \<Rightarrow> 'k newaccount \<Rightarrow> 'k apply_context result" where
  "create_account en cx create =
    (let name = na_name create in
     ebind (idx_create name (new_account_object\<lparr>ao_creation_date :=
         block_timestamp_of_time_point (ad_pending_block_time (db_auth cx))\<rparr>) (db_accounts cx)) (\<lambda>accts.
     ebind (idx_create name new_account_sequence_object (db_sequences cx)) (\<lambda>seqs.
     let cx = cx\<lparr>db_accounts := accts, db_sequences := seqs\<rparr> in
     ebind (validate_authority_precondition (en_view en) cx (na_owner create)) (\<lambda>_.
     ebind (validate_authority_precondition (en_view en) cx (na_active create)) (\<lambda>_.
     ebind (create_permission (db_auth cx) name owner_name 0 (na_owner create) 0) (\<lambda>(adb, owner_permission).
     ebind (create_permission adb name active_name owner_permission (na_active create) 0) (\<lambda>(adb, active_permission).
     ebind (initialize_account (db_rl cx) name) (\<lambda>rl.
     Inr (cx\<lparr>db_auth := adb, db_rl := rl\<rparr>)))))))))"

definition apply_snax_newaccount :: "'k chain_env \<Rightarrow> 'k::linorder apply_context \<Rightarrow> 'k apply_context result" where
  "apply_snax_newaccount en cx =
    ebind (data_as (N ''newaccount'') (as_newaccount (en_codec en)) (ac_act cx)) (\<lambda>create.
    ebind (require_authorization cx (na_creator create)) (\<lambda>cx.
    SNAX_ASSERT (validate (na_owner create)) action_validate_exception (
    SNAX_ASSERT (validate (na_active create)) action_validate_exception (
    let name_str = name_to_string (na_name create) in
    SNAX_ASSERT (na_name create \<noteq> 0) action_validate_exception (
    SNAX_ASSERT (length name_str \<le> 12) action_validate_exception (
    ebind (idx_get (db_accounts cx) (na_creator create)) (\<lambda>creator.
    SNAX_ASSERT (ao_privileged creator \<or> \<not> starts_with_snax name_str) action_validate_exception (
    SNAX_ASSERT (idx_find (db_accounts cx) (na_name create) = None) account_name_exists_exception (
    ebind (create_account en cx create) (\<lambda>cx.
    let ram_delta = 2 * 1024 + 2 * permission_object_size
          + get_billable_size (en_pack_key_size en) (na_owner create)
          + get_billable_size (en_pack_key_size en) (na_active create) in
    add_ram_usage cx (na_name create) (sint ram_delta)))))))))))"

section \<open>Code and interface\<close>

definition setcode_ram_bytes_multiplier :: int where "setcode_ram_bytes_multiplier = 10"

definition require_contract_owner :: "'k apply_context \<Rightarrow> account_name \<Rightarrow> 'k apply_context result" where
  "require_contract_owner cx account =
    (if contract_owner (db_config cx) \<noteq> 0 then require_authorization_permission cx account (N ''owner'')
     else require_authorization cx account)"

text \<open>The end of both handlers: the account and its sequence are modified, and the change of the size
  is billed.\<close>

definition update_account ::
  "'k apply_context \<Rightarrow> account_name \<Rightarrow> (account_object \<Rightarrow> account_object) \<Rightarrow>
   (account_sequence_object \<Rightarrow> account_sequence_object) \<Rightarrow> int \<Rightarrow> int \<Rightarrow> 'k apply_context result" where
  "update_account cx account f g old_size new_size =
    ebind (idx_get (db_sequences cx) account) (\<lambda>account_sequence.
    let cx = cx\<lparr>db_accounts := idx_modify account f (db_accounts cx),
                db_sequences := idx_modify account g (db_sequences cx)\<rparr> in
    if new_size \<noteq> old_size then add_ram_usage cx account (wrap_i64 (new_size - old_size)) else Inr cx)"

definition apply_snax_setcode :: "'k chain_env \<Rightarrow> 'k apply_context \<Rightarrow> 'k apply_context result" where
  "apply_snax_setcode en cx =
    ebind (data_as (N ''setcode'') (as_setcode (en_codec en)) (ac_act cx)) (\<lambda>act.
    ebind (require_contract_owner cx (sc_account act)) (\<lambda>cx.
    SNAX_ASSERT (sc_vmtype act = 0) invalid_contract_vm_type (
    SNAX_ASSERT (sc_vmversion act = 0) invalid_contract_vm_version (
    let code_id = (if length (sc_code act) > 0 then en_sha256 en (sc_code act) else zero_digest) in
    ebind (if length (sc_code act) > 0 then en_validate_wasm en (sc_code act) else Inr ()) (\<lambda>_.
    ebind (idx_get (db_accounts cx) (sc_account act)) (\<lambda>account.
    ebind (require_set_contract_ability cx account) (\<lambda>_.
    let old_size = wrap_i64 (int (length (ao_code account)) * setcode_ram_bytes_multiplier);
        new_size = wrap_i64 (int (length (sc_code act)) * setcode_ram_bytes_multiplier) in
    SNAX_ASSERT (ao_code_version account \<noteq> code_id) set_exact_code (
    update_account cx (sc_account act)
      (\<lambda>a. a\<lparr>ao_last_code_update := ad_pending_block_time (db_auth cx), ao_code_version := code_id,
             ao_code := sc_code act\<rparr>)
      (\<lambda>s. s\<lparr>as_code_sequence := as_code_sequence s + 1\<rparr>) old_size new_size))))))))"

definition apply_snax_setabi :: "'k chain_env \<Rightarrow> 'k apply_context \<Rightarrow> 'k apply_context result" where
  "apply_snax_setabi en cx =
    ebind (data_as (N ''setabi'') (as_setabi (en_codec en)) (ac_act cx)) (\<lambda>act.
    ebind (require_contract_owner cx (sa_account act)) (\<lambda>cx.
    ebind (idx_get (db_accounts cx) (sa_account act)) (\<lambda>account.
    ebind (require_set_abi_ability cx account) (\<lambda>_.
    let old_size = int (length (ao_abi account)); new_size = int (length (sa_abi act)) in
    update_account cx (sa_account act) (\<lambda>a. a\<lparr>ao_abi := sa_abi act\<rparr>)
      (\<lambda>s. s\<lparr>as_abi_sequence := as_abi_sequence s + 1\<rparr>) old_size new_size))))"

section \<open>Permissions\<close>

definition updateauth_checks :: "'k controller_view \<Rightarrow> 'k::linorder apply_context \<Rightarrow> 'k updateauth \<Rightarrow> unit result" where
  "updateauth_checks cv cx update =
    (let permission = ua_permission update; parent = ua_parent update; auth = ua_auth update in
     SNAX_ASSERT (permission \<noteq> 0) action_validate_exception (
     SNAX_ASSERT (\<not> starts_with_snax (name_to_string permission)) action_validate_exception (
     SNAX_ASSERT (permission \<noteq> parent) action_validate_exception (
     ebind (idx_get (db_accounts cx) (ua_account update)) (\<lambda>_.
     SNAX_ASSERT (validate auth) action_validate_exception (
     SNAX_ASSERT (permission = active_name \<longrightarrow> parent = owner_name) action_validate_exception (
     SNAX_ASSERT (if permission = owner_name then parent = 0 else parent \<noteq> 0) action_validate_exception (
     SNAX_ASSERT (waits auth \<noteq> [] \<longrightarrow> ww_wait_sec (last (waits auth)) \<le> max_transaction_delay (db_config cx))
       action_validate_exception (
     validate_authority_precondition cv cx auth)))))))))"

definition store_permission ::
  "'k chain_env \<Rightarrow> 'k apply_context \<Rightarrow> 'k updateauth \<Rightarrow> (nat \<times> 'k permission_object) option \<Rightarrow> nat \<Rightarrow>
   'k apply_context result" where
  "store_permission en cx update permission parent_id =
    (case permission of
       Some (pid, p) \<Rightarrow>
         SNAX_ASSERT (parent_id = po_parent p) action_validate_exception (
         let old_size = sint (auth_size en (po_auth p)); new_size = sint (auth_size en (ua_auth update)) in
         add_ram_usage (with_auth (modify_permission (db_auth cx) pid (ua_auth update)) cx) (po_owner p)
           (wrap_i64 (new_size - old_size)))
     | None \<Rightarrow>
         ebind (create_permission (db_auth cx) (ua_account update) (ua_permission update) parent_id (ua_auth update) 0)
           (\<lambda>(adb, pid).
         add_ram_usage (with_auth adb cx) (ua_account update) (sint (auth_size en (ua_auth update)))))"

definition apply_snax_updateauth :: "'k chain_env \<Rightarrow> 'k::linorder apply_context \<Rightarrow> 'k apply_context result" where
  "apply_snax_updateauth en cx =
    ebind (data_as (N ''updateauth'') (as_updateauth (en_codec en)) (ac_act cx)) (\<lambda>update.
    ebind (require_authorization cx (ua_account update)) (\<lambda>cx.
    ebind (updateauth_checks (en_view en) cx update) (\<lambda>_.
    ebind (find_permission (db_auth cx) (ua_account update, ua_permission update)) (\<lambda>permission.
    ebind (if ua_permission update \<noteq> owner_name then
             ebind (get_permission (db_auth cx) (ua_account update, ua_parent update)) (\<lambda>parent. Inr (fst parent))
           else Inr 0) (\<lambda>parent_id.
    store_permission en cx update permission parent_id)))))"

definition is_linked :: "'k auth_db \<Rightarrow> account_name \<Rightarrow> account_name \<Rightarrow> bool" where
  "is_linked db account permission \<longleftrightarrow>
     list_ex (\<lambda>r. fst (fst r) = account \<and> snd r = permission) (idx_rows (ad_links db))"

definition apply_snax_deleteauth :: "'k chain_env \<Rightarrow> 'k apply_context \<Rightarrow> 'k apply_context result" where
  "apply_snax_deleteauth en cx =
    ebind (data_as (N ''deleteauth'') (as_deleteauth (en_codec en)) (ac_act cx)) (\<lambda>remove.
    ebind (require_authorization cx (da_account remove)) (\<lambda>cx.
    SNAX_ASSERT (da_permission remove \<noteq> active_name) action_validate_exception (
    SNAX_ASSERT (da_permission remove \<noteq> owner_name) action_validate_exception (
    SNAX_ASSERT (\<not> is_linked (db_auth cx) (da_account remove) (da_permission remove)) action_validate_exception (
    ebind (get_permission (db_auth cx) (da_account remove, da_permission remove)) (\<lambda>(pid, permission).
    let old_size = sint (auth_size en (po_auth permission)) in
    ebind (remove_permission (db_auth cx) pid permission) (\<lambda>adb.
    add_ram_usage (with_auth adb cx) (da_account remove) (wrap_i64 (- old_size)))))))))"

section \<open>Links\<close>

text \<open>The index \<^verbatim>\<open>by_name\<close> of the permissions spans all accounts.\<close>

definition exists_by_name :: "'k auth_db \<Rightarrow> account_name \<Rightarrow> bool" where
  "exists_by_name db name \<longleftrightarrow> list_ex (\<lambda>r. po_name (snd r) = name) (idx_rows (ad_permissions db))"

definition store_link ::
  "'k apply_context \<Rightarrow> account_name \<times> account_name \<times> account_name \<Rightarrow> account_name \<Rightarrow> 'k apply_context result" where
  "store_link cx link_key requirement =
    (case idx_find (ad_links (db_auth cx)) link_key of
       Some required_permission \<Rightarrow>
         SNAX_ASSERT (required_permission \<noteq> requirement) action_validate_exception (
         Inr (with_auth ((db_auth cx)\<lparr>ad_links :=
           idx_modify link_key (\<lambda>_. requirement) (ad_links (db_auth cx))\<rparr>) cx))
     | None \<Rightarrow>
         ebind (idx_create link_key requirement (ad_links (db_auth cx))) (\<lambda>links.
         add_ram_usage (with_auth ((db_auth cx)\<lparr>ad_links := links\<rparr>) cx) (fst link_key)
           (sint permission_link_object_size)))"

definition apply_snax_linkauth :: "'k chain_env \<Rightarrow> 'k apply_context \<Rightarrow> 'k apply_context result" where
  "apply_snax_linkauth en cx =
    ebind (data_as (N ''linkauth'') (as_linkauth (en_codec en)) (ac_act cx)) (\<lambda>requirement.
    SNAX_ASSERT (la_requirement requirement \<noteq> 0) action_validate_exception (
    ebind (require_authorization cx (la_account requirement)) (\<lambda>cx.
    SNAX_ASSERT (is_account cx (la_account requirement)) account_query_exception (
    SNAX_ASSERT (is_account cx (la_code requirement)) account_query_exception (
    SNAX_ASSERT (la_requirement requirement \<noteq> snax_any_name \<longrightarrow> exists_by_name (db_auth cx) (la_requirement requirement))
      permission_query_exception (
    store_link cx (la_account requirement, la_code requirement, la_type requirement) (la_requirement requirement)))))))"

definition apply_snax_unlinkauth :: "'k chain_env \<Rightarrow> 'k apply_context \<Rightarrow> 'k apply_context result" where
  "apply_snax_unlinkauth en cx =
    ebind (data_as (N ''unlinkauth'') (as_unlinkauth (en_codec en)) (ac_act cx)) (\<lambda>unlink.
    ebind (require_authorization cx (ul_account unlink)) (\<lambda>cx.
    let link_key = (ul_account unlink, ul_code unlink, ul_type unlink) in
    SNAX_ASSERT (idx_find (ad_links (db_auth cx)) link_key \<noteq> None) action_validate_exception (
    ebind (add_ram_usage cx (ul_account unlink) (wrap_i64 (- sint permission_link_object_size))) (\<lambda>cx.
    Inr (with_auth ((db_auth cx)\<lparr>ad_links := idx_remove link_key (ad_links (db_auth cx))\<rparr>) cx)))))"

section \<open>Delayed transactions\<close>

definition apply_snax_canceldelay :: "'k chain_env \<Rightarrow> 'k apply_context \<Rightarrow> 'k apply_context result" where
  "apply_snax_canceldelay en cx =
    ebind (data_as (N ''canceldelay'') (as_canceldelay (en_codec en)) (ac_act cx)) (\<lambda>cancel.
    ebind (require_authorization cx (fst (cd_canceling_auth cancel))) (\<lambda>cx.
    ebind (cancel_deferred_transaction cx (transaction_id_to_sender_id (cd_trx_id cancel)) 0) (\<lambda>(cx, _).
    Inr cx)))"

section \<open>Dispatch\<close>

text \<open>The handlers the controller registers, all for the system account as receiver and contract.\<close>

definition apply_handlers ::
  "'k::linorder chain_env \<Rightarrow> (account_name \<times> ('k apply_context \<Rightarrow> 'k apply_context result)) list" where
  "apply_handlers en =
    [(N ''newaccount'', apply_snax_newaccount en), (N ''setcode'', apply_snax_setcode en),
     (N ''setabi'', apply_snax_setabi en), (N ''updateauth'', apply_snax_updateauth en),
     (N ''deleteauth'', apply_snax_deleteauth en), (N ''linkauth'', apply_snax_linkauth en),
     (N ''unlinkauth'', apply_snax_unlinkauth en), (N ''canceldelay'', apply_snax_canceldelay en)]"

definition find_apply_handler ::
  "'k::linorder chain_env \<Rightarrow> account_name \<Rightarrow> account_name \<Rightarrow> account_name \<Rightarrow>
   ('k apply_context \<Rightarrow> 'k apply_context result) option" where
  "find_apply_handler en receiver scope act =
    (if receiver = system_account_name \<and> scope = system_account_name then map_of (apply_handlers en) act else None)"

end
