(* ===== verification/Ram_Accounting.thy ===== *)
theory Ram_Accounting
  imports Native_Actions
begin

text \<open>
  RAM accounting.  The usage recorded for an account is compared with what the objects in the
  database are worth: accounts with their code and interface, permissions, links, generated
  transactions, tables and rows of contracts.  Every native action and every operation on a contract
  table changes both by the same amount; along the way the tables stay well formed and no iterator
  of a context dangles.
\<close>

section \<open>What an account is billed for\<close>

definition ram_of :: "rl_db \<Rightarrow> account_name \<Rightarrow> u64" where
  "ram_of rl b = (case idx_find (rl_usage rl) b of None \<Rightarrow> 0 | Some u \<Rightarrow> ram_usage u)"

definition account_bytes :: "account_object \<Rightarrow> int" where
  "account_bytes a = 2 * 1024 + 10 * int (length (ao_code a)) + int (length (ao_abi a))"

definition billed_accounts :: "(account_name, account_object) index \<Rightarrow> account_name \<Rightarrow> int" where
  "billed_accounts t b = index.total (\<lambda>n a. if n = b then account_bytes a else 0) t"

definition billed_permissions :: "'k chain_env \<Rightarrow> (nat, 'k permission_object) index \<Rightarrow> account_name \<Rightarrow> int" where
  "billed_permissions en t b = index.total (\<lambda>i p. if po_owner p = b then uint (auth_size en (po_auth p)) else 0) t"

definition billed_links ::
  "(account_name \<times> account_name \<times> account_name, account_name) index \<Rightarrow> account_name \<Rightarrow> int" where
  "billed_links t b = index.total (\<lambda>k l. if fst k = b then uint permission_link_object_size else 0) t"

definition billed_generated :: "(digest_type, generated_transaction_object) index \<Rightarrow> account_name \<Rightarrow> int" where
  "billed_generated t b = index.total (\<lambda>k g. if gt_payer g = b then uint (gto_size g) else 0) t"

definition billed_tables :: "(nat, table_id_object) index \<Rightarrow> account_name \<Rightarrow> int" where
  "billed_tables t b = index.total (\<lambda>k x. if ti_payer x = b then uint table_id_object_size else 0) t"

definition row_bytes :: "bytes \<Rightarrow> u64" where
  "row_bytes v = of_nat (length v) + key_value_object_size"

definition billed_rows :: "(nat \<times> u64, key_value_object) index \<Rightarrow> account_name \<Rightarrow> int" where
  "billed_rows t b = index.total (\<lambda>k r. if kv_payer r = b then uint (row_bytes (kv_value r)) else 0) t"

definition billed :: "'k chain_env \<Rightarrow> ('k, 'a) chain_db_scheme \<Rightarrow> account_name \<Rightarrow> int" where
  "billed en db b = billed_accounts (db_accounts db) b + billed_permissions en (ad_permissions (db_auth db)) b
     + billed_links (ad_links (db_auth db)) b + billed_generated (ad_generated (db_auth db)) b
     + billed_tables (db_tables db) b + billed_rows (db_key_values db) b"

text \<open>The difference between the recorded usage and the worth of the objects, modulo \<open>2 ^ 64\<close>, the
  arithmetic the usage is kept in.\<close>

definition unbilled :: "'k chain_env \<Rightarrow> ('k, 'a) chain_db_scheme \<Rightarrow> account_name \<Rightarrow> u64" where
  "unbilled en db b = ram_of (db_rl db) b - word_of_int (billed en db b)"

section \<open>Well-formed databases\<close>

definition db_ok :: "('k, 'a) chain_db_scheme \<Rightarrow> bool" where
  "db_ok db \<longleftrightarrow> perm_wf (ad_permissions (db_auth db)) (ad_next_permission (db_auth db))
     \<and> idx_ok (ad_links (db_auth db)) \<and> idx_ok (ad_generated (db_auth db))
     \<and> idx_ok (db_accounts db) \<and> idx_find (db_accounts db) 0 = None
     \<and> idx_ok (rl_usage (db_rl db)) \<and> idx_ok (db_tables db) \<and> idx_ok (db_key_values db)"

section \<open>Billing\<close>

lemma word_of_int_sint [simp]: "word_of_int (sint (w :: 'a::len word)) = w"
  by simp

lemma word_of_int_wrap [simp]: "(word_of_int (wrap_i64 x) :: u64) = word_of_int x"
proof -
  have "wrap_i64 x mod 2 ^ 64 = x mod 2 ^ 64"
    by (simp add: wrap_i64_def mod_simps)
  then show ?thesis by (simp add: word_of_int_eq_iff take_bit_eq_mod)
qed

lemma add_pending_ram_usage_ram:
  assumes "add_pending_ram_usage rl a d = Inr rl'" "idx_ok (rl_usage rl)"
  shows "idx_ok (rl_usage rl')" "ram_of rl' b = ram_of rl b + (if b = a then word_of_int d else 0)"
  using assms by (auto simp: add_pending_ram_usage_def ram_of_def idx_ok_modify idx_find_modify
      split: if_splits option.splits)

lemma trx_add_ram_usage_frame:
  assumes "trx_add_ram_usage tc a d = Inr tc'" "idx_ok (rl_usage (db_rl tc))"
  obtains rl v where "tc' = tc\<lparr>db_rl := rl, tc_validate_ram_usage := v\<rparr>" "idx_ok (rl_usage rl)"
    "\<And>b. ram_of rl b = ram_of (db_rl tc) b + (if b = a then word_of_int d else 0)"
  using assms add_pending_ram_usage_ram unfolding trx_add_ram_usage_def by force

lemma add_ram_usage_frame:
  assumes "add_ram_usage cx a d = Inr cx'" "idx_ok (rl_usage (db_rl cx))"
  obtains rl v ds where "cx' = cx\<lparr>db_rl := rl, tc_validate_ram_usage := v, ac_account_ram_deltas := ds\<rparr>"
    "idx_ok (rl_usage rl)" "\<And>b. ram_of rl b = ram_of (db_rl cx) b + (if b = a then word_of_int d else 0)"
proof -
  obtain c where c: "trx_add_ram_usage cx a d = Inr c" and cx': "cx' = c\<lparr>ac_account_ram_deltas := ac_account_ram_deltas cx'\<rparr>"
    using assms(1) by (auto simp: add_ram_usage_def)
  obtain rl v where rl: "c = cx\<lparr>db_rl := rl, tc_validate_ram_usage := v\<rparr>" "idx_ok (rl_usage rl)"
    "\<And>b. ram_of rl b = ram_of (db_rl cx) b + (if b = a then word_of_int d else 0)"
    using trx_add_ram_usage_frame [OF c assms(2)] by blast
  show thesis by (rule that [OF _ rl(2,3)]) (subst cx', simp add: rl(1))
qed

text \<open>An operation that charges \<open>d\<close> to \<open>a\<close> and makes the objects of \<open>a\<close> worth \<open>d\<close> more keeps the
  difference.\<close>

lemma unbilled_step:
  assumes "ram_of (db_rl cx') b = ram_of (db_rl cx) b + (if b = a then word_of_int d else 0)"
    "(word_of_int (billed en cx' b) :: u64) = word_of_int (billed en cx b) + (if b = a then word_of_int d else 0)"
  shows "unbilled en cx' b = unbilled en cx b"
  using assms by (simp add: unbilled_def)

lemma mark_authorization_frame:
  "mark_authorization P cx = Inr cx' \<Longrightarrow> \<exists>u. cx' = cx\<lparr>ac_used_authorizations := u\<rparr>"
  by (auto simp: mark_authorization_def split: option.splits)

lemma require_authorization_frame:
  "require_authorization cx a = Inr cx' \<Longrightarrow> \<exists>u. cx' = cx\<lparr>ac_used_authorizations := u\<rparr>"
  by (auto simp: require_authorization_def dest: mark_authorization_frame)

lemma require_contract_owner_frame:
  "require_contract_owner cx a = Inr cx' \<Longrightarrow> \<exists>u. cx' = cx\<lparr>ac_used_authorizations := u\<rparr>"
  by (auto simp: require_contract_owner_def require_authorization_def require_authorization_permission_def
      dest: mark_authorization_frame split: if_splits)

lemma ac_used_inert [simp]:
  "db_ok (cx\<lparr>ac_used_authorizations := u\<rparr>) = db_ok cx"
  "unbilled en (cx\<lparr>ac_used_authorizations := u\<rparr>) b = unbilled en cx b"
  by (simp_all add: db_ok_def unbilled_def billed_def)

section \<open>The native actions\<close>

definition ram_kept :: "'k chain_env \<Rightarrow> ('k, 'a) chain_db_scheme \<Rightarrow> ('k, 'a) chain_db_scheme \<Rightarrow> bool" where
  "ram_kept en cx cx' \<longleftrightarrow> db_ok cx' \<and> (\<forall>b. unbilled en cx' b = unbilled en cx b)"

lemma ram_kept_used: "ram_kept en (cx\<lparr>ac_used_authorizations := u\<rparr>) cx' \<longleftrightarrow> ram_kept en cx cx'"
  by (simp add: ram_kept_def)

lemma db_ok_usage: "db_ok cx \<Longrightarrow> idx_ok (rl_usage (db_rl cx))"
  by (simp add: db_ok_def)

lemma add_ram_kept:
  assumes "add_ram_usage c a d = Inr cx'" "db_ok c"
    "\<And>b. ram_of (db_rl c) b = ram_of (db_rl cx) b"
    "\<And>b. (word_of_int (billed en c b) :: u64) = word_of_int (billed en cx b) + (if b = a then word_of_int d else 0)"
  shows "ram_kept en cx cx'"
proof -
  obtain rl v ds where cx': "cx' = c\<lparr>db_rl := rl, tc_validate_ram_usage := v, ac_account_ram_deltas := ds\<rparr>"
    and ok: "idx_ok (rl_usage rl)"
    and ram: "\<And>b. ram_of rl b = ram_of (db_rl c) b + (if b = a then word_of_int d else 0)"
    using add_ram_usage_frame [OF assms(1) db_ok_usage [OF assms(2)]] by blast
  have "billed en cx' b = billed en c b" for b by (simp add: cx' billed_def)
  then have "unbilled en cx' b = unbilled en cx b" for b
    using unbilled_step [of cx' b cx a d en] ram assms(3,4) by (simp add: cx')
  moreover have "db_ok cx'" using assms(2) ok by (simp add: cx' db_ok_def)
  ultimately show ?thesis by (simp add: ram_kept_def)
qed

lemma add_ram_first_kept:
  assumes "add_ram_usage cx a d = Inr c" "db_ok cx" "db_rl cx' = db_rl c"
    "db_ok (cx'\<lparr>db_rl := db_rl cx\<rparr>)"
    "\<And>b. (word_of_int (billed en cx' b) :: u64) = word_of_int (billed en cx b) + (if b = a then word_of_int d else 0)"
  shows "ram_kept en cx (cx' :: 'k apply_context)"
proof -
  obtain rl v ds where c: "c = cx\<lparr>db_rl := rl, tc_validate_ram_usage := v, ac_account_ram_deltas := ds\<rparr>"
    and ok: "idx_ok (rl_usage rl)"
    and ram: "\<And>b. ram_of rl b = ram_of (db_rl cx) b + (if b = a then word_of_int d else 0)"
    using add_ram_usage_frame [OF assms(1) db_ok_usage [OF assms(2)]] by blast
  have "unbilled en cx' b = unbilled en cx b" for b
    using unbilled_step [of cx' b cx a d en] ram assms(3,5) by (simp add: c)
  moreover have "db_ok cx'" using assms(3,4) ok by (simp add: c db_ok_def)
  ultimately show ?thesis by (simp add: ram_kept_def)
qed

lemma no_ram_kept:
  assumes "db_ok cx'" "\<And>b. ram_of (db_rl cx') b = ram_of (db_rl cx) b"
    "\<And>b. (word_of_int (billed en cx' b) :: u64) = word_of_int (billed en cx b)"
  shows "ram_kept en cx cx'"
  using assms by (simp add: ram_kept_def unbilled_def)

subsection \<open>Code and interface\<close>

lemma billed_accounts_modify:
  assumes "idx_ok t" "idx_find t a = Some x"
  shows "billed_accounts (idx_modify a f t) b
    = billed_accounts t b + (if b = a then account_bytes (f x) - account_bytes x else 0)"
  using assms by (simp add: billed_accounts_def idx_total_modify)

lemma update_account_kept:
  assumes "update_account cx a f g m n = Inr cx'" "db_ok cx" "idx_find (db_accounts cx) a = Some x"
    and size: "(word_of_int (account_bytes (f x) - account_bytes x) :: u64) = word_of_int (n - m)"
  shows "ram_kept en cx cx'"
proof -
  let ?c = "cx\<lparr>db_accounts := idx_modify a f (db_accounts cx), db_sequences := idx_modify a g (db_sequences cx)\<rparr>"
  have ok: "db_ok ?c" using assms(2,3) by (auto simp: db_ok_def idx_ok_modify idx_find_modify)
  have b: "billed en ?c b = billed en cx b + (if b = a then account_bytes (f x) - account_bytes x else 0)" for b
    using billed_accounts_modify [OF _ assms(3), of f b] assms(2) by (simp add: billed_def db_ok_def)
  have w: "(word_of_int (billed en ?c b) :: u64) = word_of_int (billed en cx b) + (if b = a then word_of_int (n - m) else 0)" for b
    unfolding b by (simp only: size [symmetric] of_int_add split: if_split) simp
  show ?thesis
  proof (cases "n = m")
    case True
    with assms(1) have "cx' = ?c" by (auto simp: update_account_def Let_def)
    with ok w True show ?thesis by (auto intro: no_ram_kept)
  next
    case False
    with assms(1) have r: "add_ram_usage ?c a (wrap_i64 (n - m)) = Inr cx'"
      by (auto simp: update_account_def Let_def)
    show ?thesis by (rule add_ram_kept [OF r ok]) (use w in simp_all)
  qed
qed

lemma update_account_kept_used:
  assumes "update_account (cx\<lparr>ac_used_authorizations := u\<rparr>) a f g m n = Inr cx'" "db_ok cx"
    "idx_find (db_accounts cx) a = Some x"
    "(word_of_int (account_bytes (f x) - account_bytes x) :: u64) = word_of_int (n - m)"
  shows "ram_kept en cx cx'"
  using update_account_kept [OF assms(1), of x en] assms(2-4) by (simp add: ram_kept_used)

lemma setcode_kept: "apply_snax_setcode en cx = Inr cx' \<Longrightarrow> db_ok cx \<Longrightarrow> ram_kept en cx cx'"
  unfolding apply_snax_setcode_def Let_def setcode_ram_bytes_multiplier_def
  by (auto dest!: require_contract_owner_frame elim!: update_account_kept_used
      simp: account_bytes_def mult.commute split del: if_split)

lemma setabi_kept: "apply_snax_setabi en cx = Inr cx' \<Longrightarrow> db_ok cx \<Longrightarrow> ram_kept en cx cx'"
  unfolding apply_snax_setabi_def Let_def
  by (auto dest!: require_contract_owner_frame elim!: update_account_kept_used
      simp: account_bytes_def split del: if_split)

subsection \<open>Links and delayed transactions\<close>

lemma billed_links_simps:
  assumes "idx_ok t"
  shows "idx_find t k = None \<Longrightarrow>
      billed_links (idx_put k v t) b = billed_links t b + (if b = fst k then uint permission_link_object_size else 0)"
    "idx_find t k = Some v0 \<Longrightarrow>
      billed_links (idx_remove k t) b = billed_links t b + (if b = fst k then - uint permission_link_object_size else 0)"
    "idx_find t k = Some v0 \<Longrightarrow> billed_links (idx_modify k f t) b = billed_links t b"
  using assms by (simp_all add: billed_links_def index.total_put index.total_remove idx_total_modify)

lemma store_link_kept:
  assumes "store_link cx k v = Inr cx'" "db_ok cx"
  shows "ram_kept en cx cx'"
proof (cases "idx_find (ad_links (db_auth cx)) k")
  case None
  with assms(1) have r: "add_ram_usage (with_auth ((db_auth cx)\<lparr>ad_links := idx_put k v (ad_links (db_auth cx))\<rparr>) cx)
      (fst k) (sint permission_link_object_size) = Inr cx'"
    by (auto simp: store_link_def idx_create_Inr_iff)
  show ?thesis by (rule add_ram_kept [OF r])
    (use assms(2) None in \<open>auto simp: db_ok_def with_auth_def idx_ok_put billed_def billed_links_simps\<close>)
next
  case (Some w)
  with assms show ?thesis
    by (auto simp: store_link_def with_auth_def db_ok_def idx_ok_modify billed_def billed_links_simps
        intro!: no_ram_kept)
qed

lemma store_link_kept_used:
  "store_link (cx\<lparr>ac_used_authorizations := u\<rparr>) k v = Inr cx' \<Longrightarrow> db_ok cx \<Longrightarrow> ram_kept en cx cx'"
  using store_link_kept [of "cx\<lparr>ac_used_authorizations := u\<rparr>" k v cx' en] by (simp add: ram_kept_used)

lemma linkauth_kept: "apply_snax_linkauth en cx = Inr cx' \<Longrightarrow> db_ok cx \<Longrightarrow> ram_kept en cx cx'"
  unfolding apply_snax_linkauth_def by (auto dest!: require_authorization_frame elim!: store_link_kept_used)

lemma unlink_kept:
  assumes "add_ram_usage cx (fst k) (wrap_i64 (- sint permission_link_object_size)) = Inr c" "db_ok cx"
    "idx_find (ad_links (db_auth cx)) k = Some w"
    "cx' = with_auth ((db_auth c)\<lparr>ad_links := idx_remove k (ad_links (db_auth c))\<rparr>) c"
  shows "ram_kept en cx cx'"
proof -
  obtain rl v ds where c: "c = cx\<lparr>db_rl := rl, tc_validate_ram_usage := v, ac_account_ram_deltas := ds\<rparr>"
    using add_ram_usage_frame [OF assms(1) db_ok_usage [OF assms(2)]] by blast
  show ?thesis by (rule add_ram_first_kept [OF assms(1,2)])
    (use assms(2,3) in \<open>auto simp: assms(4) c with_auth_def db_ok_def idx_ok_remove billed_def billed_links_simps\<close>)
qed

lemma unlinkauth_kept: 
  assumes "apply_snax_unlinkauth en cx = Inr cx'" "db_ok cx"
  shows "ram_kept en cx cx'"
proof -
  obtain k u c w where "add_ram_usage (cx\<lparr>ac_used_authorizations := u\<rparr>) (fst k) (wrap_i64 (- sint permission_link_object_size)) = Inr c"
    "idx_find (ad_links (db_auth cx)) k = Some w"
    "cx' = with_auth ((db_auth c)\<lparr>ad_links := idx_remove k (ad_links (db_auth c))\<rparr>) c"
    using assms(1) unfolding apply_snax_unlinkauth_def Let_def
    by (auto dest!: require_authorization_frame)
  then show ?thesis using unlink_kept [of "cx\<lparr>ac_used_authorizations := u\<rparr>" k c w cx' en] assms(2)
    by (simp add: ram_kept_used)
qed

lemma billed_generated_simps:
  assumes "idx_ok t"
  shows "idx_find t k = None \<Longrightarrow>
      billed_generated (idx_put k g t) b = billed_generated t b + (if b = gt_payer g then uint (gto_size g) else 0)"
    "idx_find t k = Some g0 \<Longrightarrow>
      billed_generated (idx_remove k t) b = billed_generated t b + (if b = gt_payer g0 then - uint (gto_size g0) else 0)"
    "idx_find t k = Some g0 \<Longrightarrow> billed_generated (idx_modify k (\<lambda>_. g) t) b = billed_generated t b
        + (if b = gt_payer g0 then - uint (gto_size g0) else 0) + (if b = gt_payer g then uint (gto_size g) else 0)"
  using assms by (auto simp: billed_generated_def index.total_put index.total_remove idx_total_modify)

lemma find_by_sender_id_Some:
  "idx_ok (ad_generated db) \<Longrightarrow> find_by_sender_id db s i = Some (k, g) \<Longrightarrow> idx_find (ad_generated db) k = Some g"
  unfolding find_by_sender_id_def by (auto dest!: find_Some_mem simp: idx_rows_find)

lemma cancel_deferred_kept:
  assumes "cancel_deferred_transaction cx sid s = Inr (cx', r)" "db_ok cx"
  shows "ram_kept en cx cx'"
proof (cases "find_by_sender_id (db_auth cx) s sid")
  case None
  with assms show ?thesis by (simp add: cancel_deferred_transaction_def ram_kept_def)
next
  case (Some kg)
  obtain k g where kg: "kg = (k, g)" by (cases kg)
  have g: "idx_find (ad_generated (db_auth cx)) k = Some g"
    using Some kg assms(2) by (auto simp: db_ok_def intro: find_by_sender_id_Some)
  from assms(1) Some kg obtain c where c: "add_ram_usage cx (gt_payer g) (sint (- gto_size g)) = Inr c"
    and cx': "cx' = set_generated (idx_remove k (ad_generated (db_auth c))) c"
    by (auto simp: cancel_deferred_transaction_def)
  obtain rl v ds where f: "c = cx\<lparr>db_rl := rl, tc_validate_ram_usage := v, ac_account_ram_deltas := ds\<rparr>"
    using add_ram_usage_frame [OF c db_ok_usage [OF assms(2)]] by blast
  show ?thesis by (rule add_ram_first_kept [OF c assms(2)])
    (use assms(2) g in \<open>auto simp: cx' f set_generated_def db_ok_def idx_ok_remove billed_def billed_generated_simps\<close>)
qed

lemma canceldelay_kept:
  assumes "apply_snax_canceldelay en cx = Inr cx'" "db_ok cx"
  shows "ram_kept en cx cx'"
proof -
  obtain u i r where "cancel_deferred_transaction (cx\<lparr>ac_used_authorizations := u\<rparr>) i 0 = Inr (cx', r)"
    using assms(1) unfolding apply_snax_canceldelay_def by (auto dest!: require_authorization_frame)
  then show ?thesis using cancel_deferred_kept [of "cx\<lparr>ac_used_authorizations := u\<rparr>" i 0 cx' r en] assms(2)
    by (simp add: ram_kept_used)
qed

subsection \<open>Permissions and accounts\<close>

lemma billed_permissions_simps:
  assumes "idx_ok t"
  shows "idx_find t i = None \<Longrightarrow> billed_permissions en (idx_put i p t) b
      = billed_permissions en t b + (if b = po_owner p then uint (auth_size en (po_auth p)) else 0)"
    "idx_find t i = Some p0 \<Longrightarrow> billed_permissions en (idx_remove i t) b
      = billed_permissions en t b + (if b = po_owner p0 then - uint (auth_size en (po_auth p0)) else 0)"
    "idx_find t i = Some p0 \<Longrightarrow> po_owner (f p0) = po_owner p0 \<Longrightarrow> billed_permissions en (idx_modify i f t) b
      = billed_permissions en t b + (if b = po_owner p0
          then uint (auth_size en (po_auth (f p0))) - uint (auth_size en (po_auth p0)) else 0)"
  using assms by (simp_all add: billed_permissions_def index.total_put index.total_remove idx_total_modify)

lemma db_ok_perm: "db_ok cx \<Longrightarrow> perm_wf (ad_permissions (db_auth cx)) (ad_next_permission (db_auth cx))"
  by (simp add: db_ok_def)

lemma create_permission_bill:
  assumes "create_permission db a n parent auth ct = Inr (db', pid)"
    "perm_wf (ad_permissions db) (ad_next_permission db)"
  shows "billed_permissions en (ad_permissions db') b = billed_permissions en (ad_permissions db) b
      + (if b = a then uint (auth_size en auth) else 0)"
    "ad_links db' = ad_links db" "ad_generated db' = ad_generated db"
proof -
  obtain p where p: "db' = db\<lparr>ad_usages := ad_usages db', ad_next_usage := ad_next_usage db',
        ad_permissions := idx_put pid p (ad_permissions db), ad_next_permission := pid + 1\<rparr>"
    "po_owner p = a" "po_auth p = auth"
    using create_permission_Inr(3) [OF assms(1)] by blast
  have "idx_find (ad_permissions db) pid = None"
    using assms(2) create_permission_Inr(2) [OF assms(1)] by (auto simp: perm_wf_def)
  then show "billed_permissions en (ad_permissions db') b = billed_permissions en (ad_permissions db) b
      + (if b = a then uint (auth_size en auth) else 0)"
    using p(2,3) perm_wf_ok [OF assms(2)] by (subst p(1)) (simp add: billed_permissions_simps)
  show "ad_links db' = ad_links db" "ad_generated db' = ad_generated db" by (subst p(1), simp)+
qed

lemma get_permission_Inr:
  assumes "get_permission db (a, n) = Inr (i, p)" "idx_ok (ad_permissions db)"
  shows "idx_find (ad_permissions db) i = Some p" "po_owner p = a" "po_name p = n" "a \<noteq> 0" "n \<noteq> 0"
  using assms find_by_owner_Some [OF assms(2)] by (auto simp: get_permission_def split: option.splits)

lemma find_permission_Inr:
  assumes "find_permission db (a, n) = Inr (Some (i, p))" "idx_ok (ad_permissions db)"
  shows "idx_find (ad_permissions db) i = Some p" "po_owner p = a" "po_name p = n"
  using assms find_by_owner_Some [OF assms(2)] by (auto simp: find_permission_def)

lemma with_auth_ok:
  assumes "db_ok cx" "perm_wf (ad_permissions adb) (ad_next_permission adb)"
    "ad_links adb = ad_links (db_auth cx)" "ad_generated adb = ad_generated (db_auth cx)"
  shows "db_ok (with_auth adb cx)"
  using assms by (simp add: db_ok_def with_auth_def)

lemma with_auth_billed:
  assumes "ad_links adb = ad_links (db_auth cx)" "ad_generated adb = ad_generated (db_auth cx)"
  shows "billed en (with_auth adb cx) b = billed en cx b
    + (billed_permissions en (ad_permissions adb) b - billed_permissions en (ad_permissions (db_auth cx)) b)"
  using assms by (simp add: billed_def with_auth_def)

lemma store_permission_kept:
  assumes "store_permission en cx update permission parent_id = Inr cx'" "db_ok cx"
    and found: "\<And>i p. permission = Some (i, p) \<Longrightarrow> idx_find (ad_permissions (db_auth cx)) i = Some p"
    and parent: "idx_find (ad_permissions (db_auth cx)) parent_id = Some q"
      "parent_id \<noteq> 0 \<longrightarrow> po_owner q = ua_account update"
    and names: "ua_account update \<noteq> 0" "ua_permission update \<noteq> 0"
  shows "ram_kept en cx cx'"
proof (cases permission)
  case None
  with assms(1) obtain adb pid where c: "create_permission (db_auth cx) (ua_account update) (ua_permission update)
      parent_id (ua_auth update) 0 = Inr (adb, pid)"
    and r: "add_ram_usage (with_auth adb cx) (ua_account update) (sint (auth_size en (ua_auth update))) = Inr cx'"
    by (auto simp: store_permission_def)
  note b = create_permission_bill [OF c db_ok_perm [OF assms(2)]]
  have wf: "perm_wf (ad_permissions adb) (ad_next_permission adb)"
    by (rule perm_wf_create_permission(1) [OF db_ok_perm [OF assms(2)] c names parent(1)]) (use parent(2) in simp)
  show ?thesis
    by (rule add_ram_kept [OF r with_auth_ok [OF assms(2) wf b(2,3)]])
      (simp_all add: with_auth_billed [OF b(2,3)] b(1), simp add: with_auth_def)
next
  case (Some ip)
  obtain i p where ip: "ip = (i, p)" by (cases ip)
  have p: "idx_find (ad_permissions (db_auth cx)) i = Some p" using found Some ip by simp
  let ?adb = "modify_permission (db_auth cx) i (ua_auth update)"
  from assms(1) Some ip have r: "add_ram_usage (with_auth ?adb cx) (po_owner p)
      (wrap_i64 (sint (auth_size en (ua_auth update)) - sint (auth_size en (po_auth p)))) = Inr cx'"
    by (simp add: store_permission_def Let_def)
  have l: "ad_links ?adb = ad_links (db_auth cx)" "ad_generated ?adb = ad_generated (db_auth cx)"
    by (simp_all add: modify_permission_def)
  have b: "billed_permissions en (ad_permissions ?adb) b = billed_permissions en (ad_permissions (db_auth cx)) b
      + (if b = po_owner p then uint (auth_size en (ua_auth update)) - uint (auth_size en (po_auth p)) else 0)" for b
    using p perm_wf_ok [OF db_ok_perm [OF assms(2)]] by (simp add: modify_permission_def billed_permissions_simps)
  show ?thesis
    by (rule add_ram_kept [OF r with_auth_ok [OF assms(2) perm_wf_modify_permission [OF db_ok_perm [OF assms(2)]] l]])
      (simp_all add: with_auth_billed [OF l] b, simp add: with_auth_def)
qed

lemma updateauth_kept:
  assumes "apply_snax_updateauth en cx = Inr cx'" "db_ok cx"
  shows "ram_kept en cx cx'"
proof -
  obtain update u permission parent_id where
    chk: "updateauth_checks (en_view en) (cx\<lparr>ac_used_authorizations := u\<rparr>) update = Inr ()"
    and perm: "find_permission (db_auth cx) (ua_account update, ua_permission update) = Inr permission"
    and par: "(if ua_permission update \<noteq> owner_name then
             ebind (get_permission (db_auth (cx\<lparr>ac_used_authorizations := u\<rparr>)) (ua_account update, ua_parent update))
               (\<lambda>parent. Inr (fst parent))
           else Inr 0) = Inr parent_id"
    and r: "store_permission en (cx\<lparr>ac_used_authorizations := u\<rparr>) update permission parent_id = Inr cx'"
    using assms(1) unfolding apply_snax_updateauth_def
    by (auto dest!: require_authorization_frame split del: if_split)
  note ok = perm_wf_ok [OF db_ok_perm [OF assms(2)]]
  have names: "ua_account update \<noteq> 0" "ua_permission update \<noteq> 0"
    using chk assms(2) by (auto simp: updateauth_checks_def Let_def db_ok_def)
  obtain q where q: "idx_find (ad_permissions (db_auth cx)) parent_id = Some q"
      "parent_id \<noteq> 0 \<longrightarrow> po_owner q = ua_account update"
  proof (cases "ua_permission update = owner_name")
    case True
    with par perm_wf_reserved [OF db_ok_perm [OF assms(2)]] that show ?thesis by auto
  next
    case False
    with par get_permission_Inr [OF _ ok] that show ?thesis by fastforce
  qed
  have "ram_kept en (cx\<lparr>ac_used_authorizations := u\<rparr>) cx'"
    by (rule store_permission_kept [OF r _ _ _ q(2) names])
      (use assms(2) q(1) perm find_permission_Inr(1) [OF _ ok] in auto)
  then show ?thesis by (simp add: ram_kept_used)
qed

lemma delete_kept:
  assumes "get_permission (db_auth cx) (a, n) = Inr (pid, p)" "remove_permission (db_auth cx) pid p = Inr adb"
    "add_ram_usage (with_auth adb cx) a (wrap_i64 (- sint (auth_size en (po_auth p)))) = Inr cx'" "db_ok cx"
  shows "ram_kept en cx cx'"
proof -
  note ok = perm_wf_ok [OF db_ok_perm [OF assms(4)]]
  note p = get_permission_Inr [OF assms(1) ok]
  have l: "ad_links adb = ad_links (db_auth cx)" "ad_generated adb = ad_generated (db_auth cx)"
    and t: "ad_permissions adb = idx_remove pid (ad_permissions (db_auth cx))"
    using assms(2) by (auto simp: remove_permission_def)
  have wf: "perm_wf (ad_permissions adb) (ad_next_permission adb)"
    by (rule perm_wf_remove_permission [OF db_ok_perm [OF assms(4)] assms(2)])
  show ?thesis
    by (rule add_ram_kept [OF assms(3) with_auth_ok [OF assms(4) wf l]])
      (simp_all add: with_auth_billed [OF l] t billed_permissions_simps(2) [OF ok p(1)] p(2), simp add: with_auth_def)
qed

lemma deleteauth_kept:
  assumes "apply_snax_deleteauth en cx = Inr cx'" "db_ok cx"
  shows "ram_kept en cx cx'"
proof -
  obtain a n u pid p adb where "get_permission (db_auth cx) (a, n) = Inr (pid, p)"
    "remove_permission (db_auth cx) pid p = Inr adb"
    "add_ram_usage (with_auth adb (cx\<lparr>ac_used_authorizations := u\<rparr>)) a (wrap_i64 (- sint (auth_size en (po_auth p)))) = Inr cx'"
    using assms(1) unfolding apply_snax_deleteauth_def Let_def by (auto dest!: require_authorization_frame)
  then show ?thesis using delete_kept [of "cx\<lparr>ac_used_authorizations := u\<rparr>" a n pid p adb en cx'] assms(2)
    by (simp add: ram_kept_used)
qed

lemma initialize_account_ram:
  assumes "initialize_account rl a = Inr rl'" "idx_ok (rl_usage rl)"
  shows "ram_of rl' b = ram_of rl b" "idx_ok (rl_usage rl')"
  using assms by (auto simp: initialize_account_def idx_create_Inr_iff ram_of_def idx_simps new_resource_usage_def)

lemma billed_accounts_put:
  "idx_ok t \<Longrightarrow> idx_find t a = None \<Longrightarrow>
    billed_accounts (idx_put a x t) b = billed_accounts t b + (if b = a then account_bytes x else 0)"
  by (simp add: billed_accounts_def index.total_put)

lemma create_account_bill:
  assumes "create_account en cx create = Inr c" "db_ok cx" "na_name create \<noteq> 0"
  shows "db_ok c" "ram_of (db_rl c) b = ram_of (db_rl cx) b"
    "billed en c b = billed en cx b + (if b = na_name create then 2 * 1024
       + uint (auth_size en (na_owner create)) + uint (auth_size en (na_active create)) else 0)"
proof -
  let ?a = "new_account_object\<lparr>ao_creation_date := block_timestamp_of_time_point (ad_pending_block_time (db_auth cx))\<rparr>"
  have a: "account_bytes ?a = 2 * 1024" by (simp add: account_bytes_def new_account_object_def)
  obtain seqs adb1 opid adb pid rl where
    acc: "idx_find (db_accounts cx) (na_name create) = None"
    and own: "create_permission (db_auth cx) (na_name create) owner_name 0 (na_owner create) 0 = Inr (adb1, opid)"
    and act: "create_permission adb1 (na_name create) active_name opid (na_active create) 0 = Inr (adb, pid)"
    and rl: "initialize_account (db_rl cx) (na_name create) = Inr rl"
    and c: "c = cx\<lparr>db_accounts := idx_put (na_name create) ?a (db_accounts cx), db_sequences := seqs,
              db_auth := adb, db_rl := rl\<rparr>"
    using assms(1) unfolding create_account_def Let_def
    by (auto simp: idx_create_Inr_iff)
  have n: "owner_name \<noteq> 0" "active_name \<noteq> 0" by (simp_all add: owner_name_value active_name_value)
  note wf = db_ok_perm [OF assms(2)]
  obtain q where q: "idx_find (ad_permissions (db_auth cx)) 0 = Some q" by (rule perm_wf_reserved [OF wf])
  have wf1: "perm_wf (ad_permissions adb1) (ad_next_permission adb1)"
    by (rule perm_wf_create_permission(1) [OF wf own assms(3) n(1) q]) simp
  obtain p where p: "idx_find (ad_permissions adb1) opid = Some p" "po_owner p = na_name create"
    using perm_wf_create_permission(2) [OF wf own assms(3) n(1) q] by auto
  have wf2: "perm_wf (ad_permissions adb) (ad_next_permission adb)"
    by (rule perm_wf_create_permission(1) [OF wf1 act assms(3) n(2) p(1)]) (simp add: p(2))
  note b1 = create_permission_bill [OF own wf] and b2 = create_permission_bill [OF act wf1]
  note u = db_ok_usage [OF assms(2)]
  show "ram_of (db_rl c) b = ram_of (db_rl cx) b" using initialize_account_ram(1) [OF rl u] by (simp add: c)
  show "db_ok c" using assms(2,3) wf2 b1(2,3) b2(2,3) initialize_account_ram(2) [OF rl u]
    by (simp add: c db_ok_def idx_simps)
  show "billed en c b = billed en cx b + (if b = na_name create then 2 * 1024
       + uint (auth_size en (na_owner create)) + uint (auth_size en (na_active create)) else 0)"
    using assms(2) acc a by (simp add: c billed_def b1 b2 billed_accounts_put db_ok_def)
qed

lemma newaccount_kept:
  assumes "apply_snax_newaccount en cx = Inr cx'" "db_ok cx"
  shows "ram_kept en cx cx'"
proof -
  obtain create u c where name: "na_name create \<noteq> 0"
    and cr: "create_account en (cx\<lparr>ac_used_authorizations := u\<rparr>) create = Inr c"
    and r: "add_ram_usage c (na_name create) (sint (2 * 1024 + 2 * permission_object_size
          + get_billable_size (en_pack_key_size en) (na_owner create)
          + get_billable_size (en_pack_key_size en) (na_active create))) = Inr cx'"
    using assms(1) unfolding apply_snax_newaccount_def Let_def by (auto dest!: require_authorization_frame)
  have ok: "db_ok (cx\<lparr>ac_used_authorizations := u\<rparr>)" using assms(2) by simp
  note b = create_account_bill [OF cr ok name]
  have "ram_kept en (cx\<lparr>ac_used_authorizations := u\<rparr>) cx'"
    by (rule add_ram_kept [OF r b(1,2)]) (simp add: b(3) auth_size_def)
  then show ?thesis by (simp add: ram_kept_used)
qed

lemmas native_kept = newaccount_kept setcode_kept setabi_kept updateauth_kept deleteauth_kept linkauth_kept
  unlinkauth_kept canceldelay_kept

subsection \<open>Runs of native actions\<close>

text \<open>A run: the handler of the current action is applied, or a context is set up for another action.\<close>

inductive native_step :: "'k::linorder chain_env \<Rightarrow> 'k apply_context \<Rightarrow> 'k apply_context \<Rightarrow> bool" for en where
  handle: "find_apply_handler en (ac_receiver cx) (act_account (ac_act cx)) (act_name (ac_act cx)) = Some h \<Longrightarrow>
    h cx = Inr cx' \<Longrightarrow> native_step en cx cx'"
| next_action: "native_step en cx (cx\<lparr>ac_act := a, ac_receiver := act_account a,
    ac_used_authorizations := replicate (length (act_authorization a)) False, ac_account_ram_deltas := []\<rparr>)"

lemma handler_kept:
  assumes "find_apply_handler en r s a = Some h" "h cx = Inr cx'" "db_ok cx"
  shows "ram_kept en cx cx'"
proof -
  have "(a, h) \<in> set (apply_handlers en)"
    using assms(1) by (auto simp: find_apply_handler_def dest: map_of_SomeD split: if_splits)
  then have "h = apply_snax_newaccount en \<or> h = apply_snax_setcode en \<or> h = apply_snax_setabi en
      \<or> h = apply_snax_updateauth en \<or> h = apply_snax_deleteauth en \<or> h = apply_snax_linkauth en
      \<or> h = apply_snax_unlinkauth en \<or> h = apply_snax_canceldelay en"
    by (auto simp: apply_handlers_def)
  then show ?thesis using assms(2,3) by (elim disjE) (simp_all add: native_kept)
qed

lemma native_step_kept:
  assumes "native_step en cx cx'" "db_ok cx"
  shows "ram_kept en cx cx'"
  using assms
proof cases
  case (handle h)
  then show ?thesis using handler_kept assms(2) by blast
next
  case (next_action a)
  then show ?thesis using assms(2) by (simp add: ram_kept_def db_ok_def unbilled_def billed_def)
qed

lemma native_run_kept:
  assumes "(native_step en)\<^sup>*\<^sup>* cx cx'" "db_ok cx"
  shows "ram_kept en cx cx'"
  using assms
proof (induction rule: rtranclp_induct)
  case base
  then show ?case by (simp add: ram_kept_def)
next
  case (step c c')
  then show ?case using native_step_kept [OF step.hyps(2)] by (simp add: ram_kept_def)
qed

text \<open>C34. Every run of native actions keeps the RAM books: for every account, the recorded usage minus
  the billable size of everything the account pays for in the database stays what it was.\<close>

theorem native_ram_exact:
  assumes "(native_step en)\<^sup>*\<^sup>* cx cx'" "db_ok cx"
  shows "unbilled en cx' b = unbilled en cx b"
  using native_run_kept [OF assms] by (simp add: ram_kept_def)

text \<open>C35. Every run of native actions keeps the permission table a forest: ids are unique per owner and
  name, every permission has an existing parent with a smaller id that belongs to the same owner.\<close>

theorem native_permission_tree:
  assumes "(native_step en)\<^sup>*\<^sup>* cx cx'" "db_ok cx"
  shows "perm_wf (ad_permissions (db_auth cx')) (ad_next_permission (db_auth cx'))"
  using native_run_kept [OF assms] by (simp add: ram_kept_def db_ok_def)

subsection \<open>A link to a permission of another account\<close>

lemma link_size_positive: "0 < sint permission_link_object_size"
  by code_simp

text \<open>Charging an account that exists and has room succeeds.\<close>

lemma add_ram_usage_accepted:
  assumes "idx_find (rl_usage (db_rl cx)) a = Some u" "0 < d" "word_of_int d \<le> - 1 - ram_usage u"
  shows "\<exists>cx'. add_ram_usage cx a d = Inr cx'"
  using assms by (simp add: add_ram_usage_def trx_add_ram_usage_def add_pending_ram_usage_def idx_get_def SNAX_ASSERT_def)

lemma require_authorization_accepted:
  assumes "has_authorization cx a"
  shows "\<exists>u. require_authorization cx a = Inr (cx\<lparr>ac_used_authorizations := u\<rparr>)"
proof -
  have "list_ex P xs \<Longrightarrow> find_position P xs \<noteq> None" for P and xs :: "permission_level list"
    by (induction xs) auto
  with assms obtain i where "find_position (\<lambda>p. fst p = a) (act_authorization (ac_act cx)) = Some i"
    unfolding has_authorization_def by blast
  then show ?thesis by (auto simp: require_authorization_def mark_authorization_def)
qed

lemma unlinkauth_without_permission:
  assumes "idx_find (ad_links db) (account, code, type) = Some r" "find_by_owner (ad_permissions db) account r = None"
    "r \<noteq> snax_any_name"
  shows "isl (check_unlinkauth_authorization db \<lparr>ul_account = account, ul_code = code, ul_type = type\<rparr> auths)"
  using assms
  by (cases "check_unlinkauth_authorization db \<lparr>ul_account = account, ul_code = code, ul_type = type\<rparr> auths")
    (auto simp: check_unlinkauth_authorization_def lookup_linked_permission_def get_permission_def Let_def)

text \<open>C36. \<^verbatim>\<open>linkauth\<close> looks for the required permission by its name among the permissions of all accounts.
  An account that has no permission of that name, while some other account has one, can store a new link to it: the action is accepted,
  the link is in the table and no permission is added. In every state in which this link is stored and the account has no
  permission of that name, the check of the authorization of \<^verbatim>\<open>unlinkauth\<close> for the link fails, whatever
  authorizations are declared.\<close>

theorem linkauth_foreign_permission:
  assumes "data_as (N ''linkauth'') (as_linkauth (en_codec en)) (ac_act cx) = Inr link" "db_ok cx"
    "has_authorization cx (la_account link)" "is_account cx (la_account link)" "is_account cx (la_code link)"
    "la_requirement link \<noteq> 0" "la_requirement link \<noteq> snax_any_name"
    "exists_by_name (db_auth cx) (la_requirement link)"
    "find_by_owner (ad_permissions (db_auth cx)) (la_account link) (la_requirement link) = None"
    "idx_find (ad_links (db_auth cx)) (la_account link, la_code link, la_type link) = None"
    "idx_find (rl_usage (db_rl cx)) (la_account link) = Some u" "permission_link_object_size \<le> - 1 - ram_usage u"
  shows "\<exists>cx'. apply_snax_linkauth en cx = Inr cx'
    \<and> idx_find (ad_links (db_auth cx')) (la_account link, la_code link, la_type link) = Some (la_requirement link)
    \<and> ad_permissions (db_auth cx') = ad_permissions (db_auth cx)
    \<and> (\<forall>db auths. idx_find (ad_links db) (la_account link, la_code link, la_type link) = Some (la_requirement link)
         \<longrightarrow> find_by_owner (ad_permissions db) (la_account link) (la_requirement link) = None
         \<longrightarrow> isl (check_unlinkauth_authorization db
               \<lparr>ul_account = la_account link, ul_code = la_code link, ul_type = la_type link\<rparr> auths))"
proof -
  let ?k = "(la_account link, la_code link, la_type link)"
  obtain ua where ua: "require_authorization cx (la_account link) = Inr (cx\<lparr>ac_used_authorizations := ua\<rparr>)"
    using require_authorization_accepted [OF assms(3)] by blast
  let ?c = "with_auth ((db_auth cx)\<lparr>ad_links := idx_put ?k (la_requirement link) (ad_links (db_auth cx))\<rparr>)
    (cx\<lparr>ac_used_authorizations := ua\<rparr>)"
  have ok: "idx_ok (ad_links (db_auth cx))" "idx_ok (rl_usage (db_rl ?c))" using assms(2) by (simp_all add: db_ok_def with_auth_def)
  obtain cx' where r: "add_ram_usage ?c (la_account link) (sint permission_link_object_size) = Inr cx'"
    using add_ram_usage_accepted [of ?c "la_account link" u "sint permission_link_object_size"] assms(11,12)
    by (auto simp: with_auth_def link_size_positive)
  have "apply_snax_linkauth en cx = Inr cx'"
    using assms(1,4-8,10) ua r by (simp add: apply_snax_linkauth_def store_link_def idx_create_def SNAX_ASSERT_def is_account_def)
  moreover have "db_auth cx' = db_auth ?c" by (rule add_ram_usage_frame [OF r ok(2)]) simp
  ultimately show ?thesis using ok(1) assms(7)
    by (intro exI [of _ cx']) (simp add: with_auth_def idx_find_put unlinkauth_without_permission)
qed

subsection \<open>A database with two accounts\<close>

definition demo_limits :: trx_limits where
  "demo_limits = \<lparr>tl_start = 0, tl_deadline = 1000000, tl_leeway = 3000, tl_billed_cpu_time_us = 0,
     tl_explicit_billed_cpu_time = False, tl_net_limit = 1000, tl_net_limit_due_to_block = True,
     tl_net_limit_due_to_greylist = False, tl_eager_net_limit = 1000, tl_net_usage = 0,
     tl_cpu_limit_due_to_greylist = False, tl_initial_objective_duration_limit = 100000,
     tl_objective_duration_limit = 100000, tl_current_deadline = 100000,
     tl_deadline_exception_code = block_cpu_code, tl_billing_timer_exception_code = block_cpu_code,
     tl_pseudo_start = 0, tl_billed_time = 0, tl_billing_timer_duration_limit = 100000\<rparr>"

definition demo_link :: linkauth where
  "demo_link = \<lparr>la_account = 5, la_code = 7, la_type = 8, la_requirement = 9\<rparr>"

definition demo_link_action :: action where
  "demo_link_action = \<lparr>act_account = system_account_name, act_name = N ''linkauth'',
     act_authorization = [(5, active_name)], act_data = []\<rparr>"

definition demo_view :: "nat controller_view" where
  "demo_view = \<lparr>cv_conf = demo_controller_config, cv_pending = Some incomplete,
     cv_in_trx_requiring_checks = False, cv_trusted_producer_light_validation = False\<rparr>"

definition demo_env :: "nat chain_env" where
  "demo_env = \<lparr>en_view = demo_view, en_codec = demo_codec\<lparr>as_linkauth := (\<lambda>_. Inr demo_link)\<rparr>,
     en_pack_transaction = (\<lambda>_. []), en_transaction_id = (\<lambda>_. zero_digest), en_pack_key_size = (\<lambda>_. 34),
     en_endian_reverse_u32 = (\<lambda>x. x), en_head_block_id = zero_digest, en_sha256 = (\<lambda>_. zero_digest),
     en_validate_wasm = (\<lambda>_. Inr ())\<rparr>"

definition demo_usage :: resource_usage_object where
  "demo_usage = new_resource_usage\<lparr>ram_usage := 4096\<rparr>"

definition demo_context :: "nat apply_context" where
  "demo_context = \<lparr>
     db_auth = demo_auth_db\<lparr>ad_permissions := ad_permissions demo_auth_db @
       [(3, \<lparr>po_usage_id = 2, po_parent = 0, po_owner = 7, po_name = 9, po_last_updated = 0,
            po_auth = demo_key_authority 12\<rparr>)], ad_next_permission := 4\<rparr>,
     db_accounts = [(5, new_account_object), (7, new_account_object)],
     db_sequences = [(5, new_account_sequence_object), (7, new_account_sequence_object)],
     db_rl = initialize_database\<lparr>rl_usage := [(5, demo_usage), (7, demo_usage)]\<rparr>,
     db_tables = [], db_next_table = 0, db_key_values = [], db_next_key_value = 0,
     db_global_action_sequence = 0, db_transactions = [], db_config = initial_configuration,
     tc_trx = \<lparr>th_expiration = 0, th_ref_block_num = 0, th_ref_block_prefix = 0, th_max_net_usage_words = 0,
       th_max_cpu_usage_ms = 0, th_delay_sec = 0, tx_context_free_actions = [], tx_actions = [demo_link_action],
       tx_transaction_extensions = []\<rparr>,
     tc_id = zero_digest, tc_published = 0, tc_bill_to_accounts = [5], tc_validate_ram_usage = [],
     tc_delay = 0, tc_is_input = True, tc_apply_context_free = True, tc_enforce_whiteblacklist = True,
     tc_is_initialized = True, tc_limits = demo_limits,
     ac_act = demo_link_action, ac_receiver = system_account_name, ac_used_authorizations = [False],
     ac_recurse_depth = 0, ac_privileged = False, ac_context_free = False,
     ac_keyval_cache = new_iterator_cache, ac_notified = [], ac_inline_actions = [],
     ac_cfa_inline_actions = [], ac_account_ram_deltas = []\<rparr>"

definition demo_linked :: "nat apply_context" where
  "demo_linked = projr (apply_snax_linkauth demo_env demo_context)"

lemma demo_context_ok: "db_ok demo_context"
proof -
  have n: "owner_name \<noteq> 0" "active_name \<noteq> 0" "owner_name \<noteq> active_name"
    by (simp_all add: owner_name_value active_name_value)
  have "perm_wf (ad_permissions (db_auth demo_context)) (ad_next_permission (db_auth demo_context))"
    unfolding perm_wf_def using n
    by (auto simp: demo_context_def demo_auth_db_def idx_ok_def idx_find_def reserved_permission_def split: if_splits)
  then show ?thesis
    by (simp add: db_ok_def demo_context_def demo_auth_db_def auth_initialize_database_def idx_ok_def idx_find_def)
qed

lemma demo_link_runs: "apply_snax_linkauth demo_env demo_context = Inr demo_linked"
proof -
  have "\<not> isl (apply_snax_linkauth demo_env demo_context)" by code_simp
  then show ?thesis by (simp add: demo_linked_def)
qed

lemma demo_link_handler:
  "find_apply_handler demo_env (ac_receiver demo_context) (act_account (ac_act demo_context))
     (act_name (ac_act demo_context)) = Some (apply_snax_linkauth demo_env)"
proof -
  have "N ''newaccount'' \<noteq> N ''linkauth''" "N ''setcode'' \<noteq> N ''linkauth''" "N ''setabi'' \<noteq> N ''linkauth''"
    "N ''updateauth'' \<noteq> N ''linkauth''" "N ''deleteauth'' \<noteq> N ''linkauth''" by code_simp+
  then show ?thesis
    by (simp add: find_apply_handler_def apply_handlers_def demo_context_def demo_link_action_def)
qed

lemma demo_run: "(native_step demo_env)\<^sup>*\<^sup>* demo_context demo_linked"
  by (rule r_into_rtranclp, rule native_step.handle [OF demo_link_handler demo_link_runs])

theorem native_ram_exact_witness: "unbilled demo_env demo_linked 5 = unbilled demo_env demo_context 5"
  by (rule native_ram_exact [OF demo_run demo_context_ok])

theorem native_permission_tree_witness:
  "perm_wf (ad_permissions (db_auth demo_linked)) (ad_next_permission (db_auth demo_linked))"
  by (rule native_permission_tree [OF demo_run demo_context_ok])

theorem linkauth_foreign_permission_witness:
  "\<exists>cx'. apply_snax_linkauth demo_env demo_context = Inr cx' \<and> idx_find (ad_links (db_auth cx')) (5, 7, 8) = Some 9
     \<and> isl (check_unlinkauth_authorization (db_auth cx') \<lparr>ul_account = 5, ul_code = 7, ul_type = 8\<rparr> [(5, owner_name)])"
proof -
  have d: "data_as (N ''linkauth'') (as_linkauth (en_codec demo_env)) (ac_act demo_context) = Inr demo_link"
    by (simp add: data_as_def demo_env_def demo_context_def demo_link_action_def SNAX_ASSERT_def)
  have h: "has_authorization demo_context 5" "is_account demo_context 5" "is_account demo_context 7" "(9 :: account_name) \<noteq> 0"
    "(9 :: account_name) \<noteq> snax_any_name" "exists_by_name (db_auth demo_context) 9"
    "find_by_owner (ad_permissions (db_auth demo_context)) 5 9 = None" "idx_find (ad_links (db_auth demo_context)) (5, 7, 8) = None"
    "idx_find (rl_usage (db_rl demo_context)) 5 = Some demo_usage" "permission_link_object_size \<le> - 1 - ram_usage demo_usage"
    by code_simp+
  have l: "la_account demo_link = 5" "la_code demo_link = 7" "la_type demo_link = 8" "la_requirement demo_link = 9"
    by (simp_all add: demo_link_def)
  show ?thesis
    using linkauth_foreign_permission [OF d demo_context_ok, unfolded l, OF h] h(7) by fastforce
qed

end
