(* ===== verification/Contract_Tables.thy ===== *)
theory Contract_Tables
  imports Ram_Accounting
begin

text \<open>
  The tables of contracts (\<^verbatim>\<open>db_*_i64\<close> of \<^verbatim>\<open>apply_context\<close>): the invariant of tables, rows and cached
  iterators, its preservation by every operation, the exactness of the RAM charged, and the
  refinement of an abstract map from table names and keys to rows.
\<close>

section \<open>Handles\<close>

text \<open>The contract of the iterator cache towards the tables: an object has one handle, a handle is
  good until its object is removed, and is never given to another object.\<close>

locale handle_cache =
  fixes ok :: "'c \<Rightarrow> bool"
    and live :: "'c \<Rightarrow> 'o \<Rightarrow> int option"
    and get :: "'c \<Rightarrow> int \<Rightarrow> 'o result"
    and add :: "'c \<Rightarrow> 'o \<Rightarrow> 'c \<times> int"
    and remove :: "'c \<Rightarrow> int \<Rightarrow> 'c result"
  assumes get_iff: "ok c \<Longrightarrow> get c i = Inr x \<longleftrightarrow> live c x = Some i"
    and add_ok: "ok c \<Longrightarrow> ok (fst (add c x))"
    and add_live: "ok c \<Longrightarrow> live (fst (add c x)) = (live c)(x \<mapsto> snd (add c x))"
    and add_same: "ok c \<Longrightarrow> live c x = Some i \<Longrightarrow> snd (add c x) = i"
    and remove_live: "ok c \<Longrightarrow> live c x = Some i \<Longrightarrow>
      \<exists>c'. remove c i = Inr c' \<and> ok c' \<and> live c' = (live c)(x := None)"
begin

lemma live_inj: "ok c \<Longrightarrow> live c x = Some i \<Longrightarrow> live c y = Some i \<Longrightarrow> x = y"
  using get_iff [of c i x] get_iff [of c i y] by simp

lemma get_add: "ok c \<Longrightarrow> get (fst (add c x)) (snd (add c x)) = Inr x"
  by (simp add: get_iff add_ok add_live)

lemma add_keeps: "ok c \<Longrightarrow> get c i = Inr y \<Longrightarrow> get (fst (add c x)) i = Inr y"
  using add_same [of c x i] by (auto simp: get_iff add_ok add_live)

lemma add_fresh: "ok c \<Longrightarrow> live c x = None \<Longrightarrow> live c y \<noteq> Some (snd (add c x))"
  using live_inj [OF add_ok, of c x x "snd (add c x)" y] by (cases "x = y") (auto simp: add_live)

lemma get_removed:
  assumes "ok c" "get c i = Inr x" "remove c i = Inr c'"
  shows "get c' i \<noteq> Inr y"
proof -
  have l: "live c x = Some i" using assms(1,2) by (simp add: get_iff)
  obtain c2 where "remove c i = Inr c2" "ok c2" "live c2 = (live c)(x := None)"
    using remove_live [OF assms(1) l] by blast
  then show ?thesis using assms(1,3) l live_inj [OF assms(1) l, of y] by (auto simp: get_iff)
qed

end

definition cache_ok :: "'o::linorder iterator_cache \<Rightarrow> bool" where
  "cache_ok ic \<longleftrightarrow> idx_ok (ic_table_cache ic) \<and> idx_ok (ic_object_to_iterator ic)
     \<and> (\<forall>t ei. idx_find (ic_table_cache ic) t = Some ei \<longleftrightarrow>
          (\<exists>i < length (ic_end_iterator_to_table ic). ei = index_to_end_iterator i \<and> ic_end_iterator_to_table ic ! i = t))
     \<and> (\<forall>x i. idx_find (ic_object_to_iterator ic) x = Some i \<longleftrightarrow>
          (\<exists>j < length (ic_iterator_to_object ic). i = int j \<and> ic_iterator_to_object ic ! j = Some x))"

definition cache_live :: "'o iterator_cache \<Rightarrow> 'o \<Rightarrow> int option" where
  "cache_live ic = idx_find (ic_object_to_iterator ic)"

lemma cache_ok_new [simp]: "cache_ok new_iterator_cache"
  by (simp add: cache_ok_def new_iterator_cache_def)

lemma cache_okD:
  assumes "cache_ok ic"
  shows "idx_ok (ic_table_cache ic)" "idx_ok (ic_object_to_iterator ic)"
    "idx_find (ic_table_cache ic) t = Some ei \<longleftrightarrow>
      (\<exists>i < length (ic_end_iterator_to_table ic). ei = index_to_end_iterator i \<and> ic_end_iterator_to_table ic ! i = t)"
    "idx_find (ic_object_to_iterator ic) x = Some i \<longleftrightarrow>
      (\<exists>j < length (ic_iterator_to_object ic). i = int j \<and> ic_iterator_to_object ic ! j = Some x)"
  using assms unfolding cache_ok_def by blast+

lemma cache_get_iff:
  assumes "cache_ok ic"
  shows "cache_get ic i = Inr x \<longleftrightarrow> cache_live ic x = Some i"
proof
  assume "cache_get ic i = Inr x"
  then show "cache_live ic x = Some i"
    unfolding cache_live_def cache_okD(4) [OF assms]
    by (intro exI [of _ "nat i"]) (auto simp: cache_get_def split: option.splits)
next
  assume "cache_live ic x = Some i"
  then show "cache_get ic i = Inr x"
    unfolding cache_live_def cache_okD(4) [OF assms] by (auto simp: cache_get_def)
qed

lemma cache_add_live:
  assumes "cache_ok ic"
  shows "cache_live (fst (cache_add ic x)) = (cache_live ic)(x \<mapsto> snd (cache_add ic x))"
  using cache_okD(2) [OF assms]
  by (auto simp: cache_add_def cache_live_def idx_find_put Let_def fun_eq_iff split: option.splits)

lemma cache_add_ok:
  assumes "cache_ok ic"
  shows "cache_ok (fst (cache_add ic x))"
proof (cases "idx_find (ic_object_to_iterator ic) x")
  case (Some i)
  with assms show ?thesis by (simp add: cache_add_def)
next
  case None
  let ?n = "length (ic_iterator_to_object ic)"
  have inj: "idx_find (idx_put x (int ?n) (ic_object_to_iterator ic)) y = Some i \<longleftrightarrow>
     (\<exists>j < Suc ?n. i = int j \<and> (ic_iterator_to_object ic @ [Some x]) ! j = Some y)" for y i
  proof (cases "y = x")
    case True
    have "\<not> (\<exists>j < ?n. i = int j \<and> ic_iterator_to_object ic ! j = Some x)"
      using None cache_okD(4) [OF assms, of x i] by simp
    then show ?thesis using True cache_okD(2) [OF assms]
      by (auto simp: idx_find_put nth_append less_Suc_eq)
  next
    case False
    then show ?thesis using cache_okD(2) [OF assms] cache_okD(4) [OF assms, of y i]
      by (auto simp: idx_find_put nth_append less_Suc_eq)
  qed
  show ?thesis unfolding cache_ok_def using None inj cache_okD [OF assms]
    by (simp add: cache_add_def Let_def idx_ok_put)
qed

lemma cache_remove_live:
  assumes "cache_ok ic" "cache_live ic x = Some i"
  shows "\<exists>ic'. cache_remove ic i = Inr ic' \<and> cache_ok ic' \<and> cache_live ic' = (cache_live ic)(x := None)"
proof -
  obtain j where j: "j < length (ic_iterator_to_object ic)" "i = int j" "ic_iterator_to_object ic ! j = Some x"
    using assms cache_okD(4) [OF assms(1), of x i] by (auto simp: cache_live_def)
  let ?ic = "ic\<lparr>ic_iterator_to_object := (ic_iterator_to_object ic)[j := None],
                 ic_object_to_iterator := idx_remove x (ic_object_to_iterator ic)\<rparr>"
  have "cache_remove ic i = Inr ?ic" using j by (simp add: cache_remove_def)
  moreover have "cache_live ?ic = (cache_live ic)(x := None)" by (simp add: cache_live_def idx_find_remove)
  moreover have "idx_find (idx_remove x (ic_object_to_iterator ic)) y = Some m \<longleftrightarrow>
     (\<exists>l < length (ic_iterator_to_object ic). m = int l \<and> (ic_iterator_to_object ic)[j := None] ! l = Some y)" for y m
  proof (cases "y = x")
    case True
    have "l = j" if "l < length (ic_iterator_to_object ic)" "ic_iterator_to_object ic ! l = Some x" for l
      using that j assms(2) cache_okD(4) [OF assms(1), of x "int l"] by (simp add: cache_live_def)
    then have "(ic_iterator_to_object ic)[j := None] ! l \<noteq> Some x" if "l < length (ic_iterator_to_object ic)" for l
      using that by (cases "l = j") auto
    then show ?thesis using True by (auto simp: idx_find_remove)
  next
    case False
    then have "(ic_iterator_to_object ic)[j := None] ! l = Some y \<longleftrightarrow> ic_iterator_to_object ic ! l = Some y" for l
      using j(1,3) by (cases "l = j") auto
    then show ?thesis using False cache_okD(4) [OF assms(1), of y m] by (simp add: idx_find_remove)
  qed
  ultimately show ?thesis using cache_okD [OF assms(1)] by (auto simp: cache_ok_def idx_ok_remove)
qed

interpretation handles: handle_cache cache_ok cache_live cache_get "cache_add :: _ \<Rightarrow> 'o::linorder \<Rightarrow> _" cache_remove
proof
  fix c :: "'o iterator_cache" and x i
  show "cache_ok c \<Longrightarrow> cache_live c x = Some i \<Longrightarrow> snd (cache_add c x) = i"
    by (simp add: cache_live_def cache_add_def)
qed (simp_all add: cache_get_iff cache_add_ok cache_add_live cache_remove_live)

text \<open>The ends of tables.\<close>

lemma cache_table_live [simp]: "cache_live (fst (cache_table ic t)) = cache_live ic"
  by (auto simp: cache_table_def cache_live_def Let_def split: option.split)

lemma cache_table_find:
  assumes "cache_ok ic"
  shows "idx_find (ic_table_cache (fst (cache_table ic t))) = (idx_find (ic_table_cache ic))(t \<mapsto> snd (cache_table ic t))"
  using cache_okD(1) [OF assms]
  by (auto simp: cache_table_def idx_find_put Let_def fun_eq_iff split: option.splits)

lemma cache_table_ok:
  assumes "cache_ok ic"
  shows "cache_ok (fst (cache_table ic t))"
proof (cases "idx_find (ic_table_cache ic) t")
  case (Some i)
  with assms show ?thesis by (simp add: cache_table_def)
next
  case None
  let ?n = "length (ic_end_iterator_to_table ic)"
  have "idx_find (idx_put t (index_to_end_iterator ?n) (ic_table_cache ic)) y = Some ei \<longleftrightarrow>
     (\<exists>i < Suc ?n. ei = index_to_end_iterator i \<and> (ic_end_iterator_to_table ic @ [t]) ! i = y)" for y ei
  proof (cases "y = t")
    case True
    have "\<not> (\<exists>i < ?n. ei = index_to_end_iterator i \<and> ic_end_iterator_to_table ic ! i = t)"
      using None cache_okD(3) [OF assms, of t ei] by simp
    then show ?thesis using True cache_okD(1) [OF assms]
      by (auto simp: idx_find_put nth_append less_Suc_eq)
  next
    case False
    then show ?thesis using cache_okD(1) [OF assms] cache_okD(3) [OF assms, of y ei]
      by (auto simp: idx_find_put nth_append less_Suc_eq)
  qed
  then show ?thesis unfolding cache_ok_def using None cache_okD [OF assms]
    by (simp add: cache_table_def Let_def idx_ok_put)
qed

lemma cache_add_table_cache [simp]: "ic_table_cache (fst (cache_add ic x)) = ic_table_cache ic"
  by (auto simp: cache_add_def Let_def split: option.split)

lemma cache_remove_table_cache: "cache_remove ic i = Inr ic' \<Longrightarrow> ic_table_cache ic' = ic_table_cache ic"
  by (auto simp: cache_remove_def split: option.splits)

section \<open>Tables and their rows\<close>

type_synonym table_index = "(nat, table_id_object) index"
type_synonym row_index = "(nat \<times> u64, key_value_object) index"

definition table_name :: "table_id_object \<Rightarrow> account_name \<times> account_name \<times> account_name" where
  "table_name x = (ti_code x, ti_scope x, ti_table x)"

definition table_rows :: "row_index \<Rightarrow> nat \<Rightarrow> int" where
  "table_rows rs tid = index.total (\<lambda>k r. if fst k = tid then 1 else 0) rs"

text \<open>Every row belongs to a table, a table counts its rows, only the tables in \<open>E\<close> may be empty, and
  no two tables have the same name.  The count is a 32-bit number; that there are fewer than
  \<open>2 ^ 32\<close> rows keeps it exact.\<close>

definition rows_wf :: "nat set \<Rightarrow> table_index \<Rightarrow> nat \<Rightarrow> row_index \<Rightarrow> bool" where
  "rows_wf E ts nt rs \<longleftrightarrow> idx_ok ts \<and> idx_ok rs \<and> length rs < 2 ^ 32
     \<and> (\<forall>tid x. idx_find ts tid = Some x \<longrightarrow> tid < nt \<and> ti_count x = word_of_int (table_rows rs tid)
          \<and> (tid \<in> E \<or> 0 < table_rows rs tid))
     \<and> (\<forall>tid tid' x x'. idx_find ts tid = Some x \<longrightarrow> idx_find ts tid' = Some x' \<longrightarrow>
          table_name x = table_name x' \<longrightarrow> tid = tid')
     \<and> (\<forall>k r. idx_find rs k = Some r \<longrightarrow> idx_find ts (fst k) \<noteq> None)"

lemma rows_wfD:
  assumes "rows_wf E ts nt rs"
  shows "idx_ok ts" "idx_ok rs" "length rs < 2 ^ 32"
    "\<And>tid x. idx_find ts tid = Some x \<Longrightarrow> tid < nt \<and> ti_count x = word_of_int (table_rows rs tid)
      \<and> (tid \<in> E \<or> 0 < table_rows rs tid)"
    "\<And>tid tid' x x'. idx_find ts tid = Some x \<Longrightarrow> idx_find ts tid' = Some x' \<Longrightarrow>
      table_name x = table_name x' \<Longrightarrow> tid = tid'"
    "\<And>k r. idx_find rs k = Some r \<Longrightarrow> idx_find ts (fst k) \<noteq> None"
  using assms unfolding rows_wf_def by blast+

lemma rows_wfI:
  assumes "idx_ok ts" "idx_ok rs" "length rs < 2 ^ 32"
    "\<And>tid x. idx_find ts tid = Some x \<Longrightarrow> tid < nt \<and> ti_count x = word_of_int (table_rows rs tid)
      \<and> (tid \<in> E \<or> 0 < table_rows rs tid)"
    "\<And>tid tid' x x'. idx_find ts tid = Some x \<Longrightarrow> idx_find ts tid' = Some x' \<Longrightarrow>
      table_name x = table_name x' \<Longrightarrow> tid = tid'"
    "\<And>k r. idx_find rs k = Some r \<Longrightarrow> idx_find ts (fst k) \<noteq> None"
  shows "rows_wf E ts nt rs"
  using assms unfolding rows_wf_def by blast

lemma table_rows_nonneg: "idx_ok rs \<Longrightarrow> 0 \<le> table_rows rs tid"
  by (simp add: table_rows_def index.total_nonneg)

lemma table_rows_length: "table_rows rs tid \<le> int (length rs)"
  by (induction rs) (auto simp: table_rows_def index.total_def idx_rows_def)

lemma table_rows_zero: "idx_ok rs \<Longrightarrow> (\<And>key. idx_find rs (tid, key) = None) \<Longrightarrow> table_rows rs tid = 0"
  unfolding table_rows_def by (subst index.total_eq_sum, assumption, rule sum.neutral) (auto simp: split_paired_all)

lemma table_rows_put:
  "idx_ok rs \<Longrightarrow> idx_find rs k = None \<Longrightarrow> table_rows (idx_put k r rs) tid = table_rows rs tid + (if fst k = tid then 1 else 0)"
  by (simp add: table_rows_def index.total_put)

lemma table_rows_remove:
  "idx_ok rs \<Longrightarrow> idx_find rs k = Some r \<Longrightarrow> table_rows (idx_remove k rs) tid = table_rows rs tid - (if fst k = tid then 1 else 0)"
  by (simp add: table_rows_def index.total_remove)

lemma table_rows_modify:
  "idx_ok rs \<Longrightarrow> idx_find rs k = Some r \<Longrightarrow> table_rows (idx_modify k f rs) tid = table_rows rs tid"
  by (simp add: table_rows_def idx_total_modify)

lemma length_idx_put: "length (idx_put k v t) \<le> Suc (length t)"
  by (induction k v t rule: idx_put.induct) auto

lemma length_idx_put_old: "idx_ok t \<Longrightarrow> idx_find t k = Some v0 \<Longrightarrow> length (idx_put k v t) = length t"
proof (induction k v t rule: idx_put.induct)
  case (2 k v k' v' t)
  have "k < k' \<Longrightarrow> False" using 2(2,3) by (fastforce simp: idx_ok_def idx_find_def dest: map_of_SomeD split: if_splits)
  then show ?case using 2 by (auto simp: idx_ok_def idx_find_def)
qed (simp add: idx_find_def)

lemma rows_wf_mono: "rows_wf E ts nt rs \<Longrightarrow> E \<subseteq> F \<Longrightarrow> rows_wf F ts nt rs"
  unfolding rows_wf_def by blast

lemma rows_wf_create:
  assumes wf: "rows_wf {} ts nt rs" and "\<And>tid x. idx_find ts tid = Some x \<Longrightarrow> table_name x \<noteq> table_name t"
    "ti_count t = 0"
  shows "rows_wf {nt} (idx_put nt t ts) (nt + 1) rs"
proof (rule rows_wfI)
  note D = rows_wfD [OF wf]
  have "idx_find rs (nt, key) = None" for key
    using D(4) D(6) [of "(nt, key)"] by (cases "idx_find rs (nt, key)") auto
  then have z: "table_rows rs nt = 0" by (rule table_rows_zero [OF D(2)])
  show "tid < nt + 1 \<and> ti_count x = word_of_int (table_rows rs tid) \<and> (tid \<in> {nt} \<or> 0 < table_rows rs tid)"
    if "idx_find (idx_put nt t ts) tid = Some x" for tid x
    using that D(1) D(4) [of tid x] z assms(3) by (cases "tid = nt") (auto simp: idx_find_put)
  show "tid = tid'" if "idx_find (idx_put nt t ts) tid = Some x" "idx_find (idx_put nt t ts) tid' = Some x'"
    "table_name x = table_name x'" for tid tid' x x'
    using that D(1) D(5) [of tid x tid' x'] assms(2) [of tid x] assms(2) [of tid' x']
    by (auto simp: idx_find_put split: if_splits)
  show "idx_find (idx_put nt t ts) (fst k) \<noteq> None" if "idx_find rs k = Some r" for k r
    using D(1) D(6) [OF that] by (simp add: idx_find_put)
qed (use rows_wfD [OF wf] in \<open>simp_all add: idx_ok_put\<close>)

lemma table_name_count [simp]: "table_name (x\<lparr>ti_count := n\<rparr>) = table_name x"
  by (simp add: table_name_def)

lemma rows_wf_recount:
  assumes wf: "rows_wf E ts nt rs" and t: "idx_find ts tid = Some t"
    and rs: "idx_ok rs'" "length rs' < 2 ^ 32"
    and others: "\<And>tid'. tid' \<noteq> tid \<Longrightarrow> table_rows rs' tid' = table_rows rs tid'"
    and own: "ti_count (f t) = word_of_int (table_rows rs' tid)" "tid \<in> F \<or> 0 < table_rows rs' tid"
      "table_name (f t) = table_name t"
    and E: "E \<subseteq> {tid} \<union> F" and k: "\<And>k r. idx_find rs' k = Some r \<Longrightarrow> fst k = tid \<or> idx_find rs k \<noteq> None"
  shows "rows_wf F (idx_modify tid f ts) nt rs'"
proof (rule rows_wfI)
  note D = rows_wfD [OF wf]
  show "tid' < nt \<and> ti_count x = word_of_int (table_rows rs' tid') \<and> (tid' \<in> F \<or> 0 < table_rows rs' tid')"
    if "idx_find (idx_modify tid f ts) tid' = Some x" for tid' x
    using that own(1,2) t D(4) [of tid' x] D(4) [OF t] others [of tid'] E D(1)
    by (cases "tid' = tid") (auto simp: idx_find_modify)
  have m: "\<exists>y. idx_find ts i = Some y \<and> table_name y = table_name x" if "idx_find (idx_modify tid f ts) i = Some x" for i x
    using that own(3) t D(1) by (cases "i = tid") (auto simp: idx_find_modify)
  show "i = j" if "idx_find (idx_modify tid f ts) i = Some x" "idx_find (idx_modify tid f ts) j = Some x'"
    "table_name x = table_name x'" for i j x x'
    using m [OF that(1)] m [OF that(2)] that(3) D(5) [of i _ j] by metis
  show "idx_find (idx_modify tid f ts) (fst k') \<noteq> None" if "idx_find rs' k' = Some r" for k' r
    using k [OF that] D(1) D(6) [of k'] t by (auto simp: idx_find_modify)
qed (use rows_wfD(1) [OF wf] rs in \<open>simp_all add: idx_ok_modify\<close>)

lemma rows_wf_put:
  assumes wf: "rows_wf {tid} ts nt rs" and t: "idx_find ts tid = Some t"
    and r: "idx_find rs (tid, key) = None" "length rs + 1 < 2 ^ 32"
  shows "rows_wf {} (idx_modify tid (\<lambda>t. t\<lparr>ti_count := ti_count t + 1\<rparr>) ts) nt (idx_put (tid, key) r rs)"
proof (rule rows_wf_recount [OF wf t])
  note D = rows_wfD [OF wf]
  show "length (idx_put (tid, key) r rs) < 2 ^ 32" using length_idx_put [of "(tid, key)" r rs] r(2) by simp
  show "ti_count (t\<lparr>ti_count := ti_count t + 1\<rparr>) = word_of_int (table_rows (idx_put (tid, key) r rs) tid)"
    using D(4) [OF t] D(2) r(1) by (simp add: table_rows_put)
  show "tid \<in> {} \<or> 0 < table_rows (idx_put (tid, key) r rs) tid"
    using D(2) r(1) table_rows_nonneg [OF D(2), of tid] by (simp add: table_rows_put)
qed (use rows_wfD(2) [OF wf] r(1) in \<open>auto simp: idx_ok_put table_rows_put idx_find_put split: if_splits\<close>)

lemma rows_wf_remove:
  assumes wf: "rows_wf {} ts nt rs" and t: "idx_find ts tid = Some t" and r: "idx_find rs (tid, key) = Some r"
  shows "rows_wf {tid} (idx_modify tid (\<lambda>t. t\<lparr>ti_count := ti_count t - 1\<rparr>) ts) nt (idx_remove (tid, key) rs)"
proof (rule rows_wf_recount [OF wf t])
  note D = rows_wfD [OF wf]
  show "length (idx_remove (tid, key) rs) < 2 ^ 32"
    unfolding idx_remove_def by (rule le_less_trans [OF length_filter_le D(3)])
  show "ti_count (t\<lparr>ti_count := ti_count t - 1\<rparr>) = word_of_int (table_rows (idx_remove (tid, key) rs) tid)"
    using D(4) [OF t] D(2) r by (simp add: table_rows_remove)
qed (use rows_wfD(2) [OF wf] r in \<open>auto simp: idx_ok_remove table_rows_remove idx_find_remove split: if_splits\<close>)

lemma rows_wf_modify:
  assumes wf: "rows_wf E ts nt rs" and r: "idx_find rs k = Some r"
  shows "rows_wf E ts nt (idx_modify k f rs)"
proof (rule rows_wfI)
  note D = rows_wfD [OF wf]
  show "length (idx_modify k f rs) < 2 ^ 32"
    using D(2,3) r length_idx_put_old [OF D(2) r, of "f r"] by (simp add: idx_modify_def)
  show "idx_find ts (fst k') \<noteq> None" if "idx_find (idx_modify k f rs) k' = Some r'" for k' r'
    using that D(2) D(6) [of k'] r D(6) [OF r] by (auto simp: idx_find_modify split: if_splits)
qed (use rows_wfD [OF wf] r in \<open>simp_all add: idx_ok_modify table_rows_modify\<close>)

lemma rows_wf_drop:
  assumes wf: "rows_wf {tid} ts nt rs" and "table_rows rs tid = 0"
  shows "rows_wf {} (idx_remove tid ts) nt rs"
proof (rule rows_wfI)
  note D = rows_wfD [OF wf]
  show "idx_find (idx_remove tid ts) (fst k) \<noteq> None" if "idx_find rs k = Some r" for k r
  proof -
    have "1 \<le> table_rows rs (fst k)" unfolding table_rows_def
      using index.total_ge_row [OF D(2) that, of "\<lambda>k' r. if fst k' = fst k then 1 else 0"] by simp
    with assms(2) D(6) [OF that] show ?thesis by (auto simp: idx_find_remove)
  qed
qed (use rows_wfD [OF wf] in \<open>auto simp: idx_ok_remove idx_find_remove split: if_splits\<close>)

lemma rows_wf_nonempty: "rows_wf {tid} ts nt rs \<Longrightarrow> table_rows rs tid \<noteq> 0 \<Longrightarrow> rows_wf {} ts nt rs"
  using table_rows_nonneg [of rs tid] unfolding rows_wf_def by (auto simp: order_le_less)

text \<open>The 32-bit count is zero exactly when no row is left.\<close>

lemma count_zero_iff:
  assumes "rows_wf E ts nt rs" "idx_find ts tid = Some t"
  shows "ti_count t = 0 \<longleftrightarrow> table_rows rs tid = 0"
proof -
  note D = rows_wfD [OF assms(1)]
  have "0 \<le> table_rows rs tid" "table_rows rs tid < 2 ^ 32"
    using table_rows_nonneg [OF D(2)] table_rows_length [of rs tid] D(3) by auto
  then have "uint (word_of_int (table_rows rs tid) :: u32) = table_rows rs tid"
    by (simp add: uint_word_of_int)
  then show ?thesis using D(4) [OF assms(2)] by (metis uint_0_iff)
qed

section \<open>The invariant of a context\<close>

text \<open>Every handle in the cache points to a row that is there, and the end of its table is cached.\<close>

definition cache_wf :: "row_index \<Rightarrow> kv_ptr iterator_cache \<Rightarrow> bool" where
  "cache_wf rs ic \<longleftrightarrow> cache_ok ic \<and> (\<forall>tid key i h. cache_live ic (tid, key, i) = Some h \<longrightarrow>
     (\<exists>r. idx_find rs (tid, key) = Some r \<and> kv_id r = i) \<and> idx_find (ic_table_cache ic) tid \<noteq> None)"

definition tables_ok :: "'k apply_context \<Rightarrow> bool" where
  "tables_ok cx \<longleftrightarrow> rows_wf {} (db_tables cx) (db_next_table cx) (db_key_values cx)
     \<and> cache_wf (db_key_values cx) (ac_keyval_cache cx)
     \<and> (\<forall>tid e. idx_find (ic_table_cache (ac_keyval_cache cx)) tid = Some e \<longrightarrow> tid < db_next_table cx)"

lemma cache_wfD:
  assumes "cache_wf rs ic"
  shows "cache_ok ic" "cache_live ic (tid, key, i) = Some h \<Longrightarrow> \<exists>r. idx_find rs (tid, key) = Some r \<and> kv_id r = i"
    "cache_live ic (tid, key, i) = Some h \<Longrightarrow> \<exists>ei. idx_find (ic_table_cache ic) tid = Some ei"
  using assms unfolding cache_wf_def by blast+

lemma cache_wf_table: "cache_wf rs ic \<Longrightarrow> cache_wf rs (fst (cache_table ic tid))"
  unfolding cache_wf_def by (simp add: cache_table_ok cache_table_find) blast

lemma cache_wf_add:
  assumes "cache_wf rs ic" "idx_find rs (tid, key) = Some r" "kv_id r = i" "idx_find (ic_table_cache ic) tid \<noteq> None"
  shows "cache_wf rs (fst (cache_add ic (tid, key, i)))"
  using assms unfolding cache_wf_def by (auto simp: cache_add_ok cache_add_live)

lemma cache_wf_rows:
  assumes "cache_wf rs ic"
    "\<And>tid key r. idx_find rs (tid, key) = Some r \<Longrightarrow> \<exists>r'. idx_find rs' (tid, key) = Some r' \<and> kv_id r' = kv_id r"
  shows "cache_wf rs' ic"
  using assms unfolding cache_wf_def by metis

lemma cache_wf_remove:
  assumes "cache_wf rs ic" "cache_live ic (tid, key, i) = Some h" "idx_ok rs"
  shows "\<exists>ic'. cache_remove ic h = Inr ic' \<and> cache_wf (idx_remove (tid, key) rs) ic'
    \<and> cache_live ic' = (cache_live ic)((tid, key, i) := None) \<and> ic_end_iterator_to_table ic' = ic_end_iterator_to_table ic"
proof -
  obtain ic' where ic': "cache_remove ic h = Inr ic'" "cache_ok ic'" "cache_live ic' = (cache_live ic)((tid, key, i) := None)"
    using cache_remove_live [OF cache_wfD(1) [OF assms(1)] assms(2)] by blast
  have e: "ic_end_iterator_to_table ic' = ic_end_iterator_to_table ic"
    using ic'(1) by (auto simp: cache_remove_def split: option.splits)
  obtain r where r: "idx_find rs (tid, key) = Some r" "kv_id r = i" using cache_wfD(2) [OF assms(1,2)] by blast
  have "cache_wf (idx_remove (tid, key) rs) ic'"
    unfolding cache_wf_def
  proof (intro conjI allI impI)
    fix tid' key' i' h' assume "cache_live ic' (tid', key', i') = Some h'"
    then have l: "cache_live ic (tid', key', i') = Some h'" "(tid', key', i') \<noteq> (tid, key, i)"
      by (auto simp: ic'(3) split: if_splits)
    then show "\<exists>r. idx_find (idx_remove (tid, key) rs) (tid', key') = Some r \<and> kv_id r = i'"
      using cache_wfD(2) [OF assms(1) l(1)] r by (auto simp: idx_find_remove)
    show "idx_find (ic_table_cache ic') tid' \<noteq> None"
      using cache_wfD(3) [OF assms(1) l(1)] cache_remove_table_cache [OF ic'(1)] by auto
  qed (rule ic'(2))
  then show ?thesis using ic' e by blast
qed

section \<open>The abstract tables\<close>

text \<open>What a contract may rely on: a map from the names of rows to payer and value, the rows its
  iterators stand for, and the tables its end iterators stand for.\<close>

type_synonym tname = "account_name \<times> account_name \<times> account_name"

record table_spec =
  sp_rows :: "tname \<times> u64 \<Rightarrow> (account_name \<times> bytes) option"
  sp_handle :: "int \<Rightarrow> (tname \<times> u64) option"
  sp_end :: "int \<Rightarrow> tname option"

text \<open>An iterator that is given out is new or already stands for what it is given out for: no other iterator is
  changed.\<close>

definition free_for :: "(int \<Rightarrow> 'a option) \<Rightarrow> int \<Rightarrow> 'a \<Rightarrow> bool" where
  "free_for m i v \<longleftrightarrow> m i = None \<or> m i = Some v"

text \<open>Looking for the first key with a property among the keys of a table: \<open>- 1\<close> when there is no
  table, the end of the table when there is no such key.\<close>

inductive spec_seek :: "table_spec \<Rightarrow> tname \<Rightarrow> (u64 \<Rightarrow> bool) \<Rightarrow> int \<Rightarrow> table_spec \<Rightarrow> bool" where
  no_table: "(\<And>k. sp_rows s (tn, k) = None) \<Longrightarrow> spec_seek s tn P (- 1) s"
| no_row: "sp_rows s (tn, k0) \<noteq> None \<Longrightarrow> (\<And>k. sp_rows s (tn, k) \<noteq> None \<Longrightarrow> \<not> P k) \<Longrightarrow> i < - 1 \<Longrightarrow>
    free_for (sp_end s) i tn \<Longrightarrow>
    spec_seek s tn P i (s\<lparr>sp_end := (sp_end s)(i \<mapsto> tn)\<rparr>)"
| row: "sp_rows s (tn, k) \<noteq> None \<Longrightarrow> P k \<Longrightarrow> (\<And>k'. sp_rows s (tn, k') \<noteq> None \<Longrightarrow> P k' \<Longrightarrow> k \<le> k') \<Longrightarrow> i \<ge> 0 \<Longrightarrow>
    free_for (sp_handle s) i (tn, k) \<Longrightarrow> e < - 1 \<Longrightarrow> free_for (sp_end s) e tn \<Longrightarrow>
    spec_seek s tn P i (s\<lparr>sp_handle := (sp_handle s)(i \<mapsto> (tn, k)), sp_end := (sp_end s)(e \<mapsto> tn)\<rparr>)"

datatype table_op =
    Store account_name account_name account_name u64 bytes
  | Update int account_name bytes
  | Remove int
  | Get int nat
  | Find tname u64
  | Lower tname u64
  | Upper tname u64
  | End tname
  | Next int
  | Previous int

text \<open>What an operation gives back: the returned number, the key written to the output parameter
  \<^verbatim>\<open>primary\<close> if it is written, and the bytes copied to the buffer.\<close>

type_synonym op_output = "int \<times> u64 option \<times> bytes"

abbreviation (input) number :: "int \<Rightarrow> op_output" where "number i \<equiv> (i, None, [])"

inductive spec_step :: "account_name \<Rightarrow> table_spec \<Rightarrow> table_op \<Rightarrow> op_output \<Rightarrow> table_spec \<Rightarrow> bool" for receiver where
  store: "sp_rows s ((receiver, scope, table), k) = None \<Longrightarrow> payer \<noteq> 0 \<Longrightarrow> sp_handle s i = None \<Longrightarrow> i \<ge> 0 \<Longrightarrow>
    e < - 1 \<Longrightarrow> free_for (sp_end s) e (receiver, scope, table) \<Longrightarrow>
    spec_step receiver s (Store scope table payer k v) (number i)
      (s\<lparr>sp_rows := (sp_rows s)(((receiver, scope, table), k) \<mapsto> (payer, v)),
         sp_handle := (sp_handle s)(i \<mapsto> ((receiver, scope, table), k)),
         sp_end := (sp_end s)(e \<mapsto> (receiver, scope, table))\<rparr>)"
| update: "sp_handle s i = Some (tn, k) \<Longrightarrow> fst tn = receiver \<Longrightarrow> sp_rows s (tn, k) = Some (p0, v0) \<Longrightarrow>
    spec_step receiver s (Update i payer v) (number 0)
      (s\<lparr>sp_rows := (sp_rows s)((tn, k) \<mapsto> (if payer = 0 then p0 else payer, v))\<rparr>)"
| remove: "sp_handle s i = Some (tn, k) \<Longrightarrow> fst tn = receiver \<Longrightarrow> rows = (sp_rows s)((tn, k) := None) \<Longrightarrow>
    spec_step receiver s (Remove i) (number 0)
      (s\<lparr>sp_rows := rows, sp_handle := (sp_handle s)(i := None),
         sp_end := (\<lambda>e. if sp_end s e = Some tn \<and> (\<forall>k'. rows (tn, k') = None) then None else sp_end s e)\<rparr>)"
| get_size: "sp_handle s j = Some n \<Longrightarrow> sp_rows s n = Some (p, v) \<Longrightarrow>
    spec_step receiver s (Get j 0) (number (int_of_size (length v))) s"
| get: "sp_handle s j = Some n \<Longrightarrow> sp_rows s n = Some (p, v) \<Longrightarrow> 0 < sz \<Longrightarrow>
    spec_step receiver s (Get j sz) (int_of_size (min sz (length v)), None, take sz v) s"
| find: "spec_seek s tn (\<lambda>k'. k' = k) i s' \<Longrightarrow> spec_step receiver s (Find tn k) (number i) s'"
| lower: "spec_seek s tn (\<lambda>k'. k \<le> k') i s' \<Longrightarrow> spec_step receiver s (Lower tn k) (number i) s'"
| upper: "spec_seek s tn (\<lambda>k'. k < k') i s' \<Longrightarrow> spec_step receiver s (Upper tn k) (number i) s'"
| table_end: "spec_seek s tn (\<lambda>k'. False) i s' \<Longrightarrow> spec_step receiver s (End tn) (number i) s'"
| next_end: "j < - 1 \<Longrightarrow> spec_step receiver s (Next j) (number (- 1)) s"
| next_none: "sp_handle s j = Some (tn, k) \<Longrightarrow> (\<And>k'. sp_rows s (tn, k') \<noteq> None \<Longrightarrow> k' \<le> k) \<Longrightarrow>
    sp_end s i = Some tn \<Longrightarrow> spec_step receiver s (Next j) (number i) s"
| next_row: "sp_handle s j = Some (tn, k) \<Longrightarrow> sp_rows s (tn, k1) \<noteq> None \<Longrightarrow> k < k1 \<Longrightarrow>
    (\<And>k'. sp_rows s (tn, k') \<noteq> None \<Longrightarrow> k < k' \<Longrightarrow> k1 \<le> k') \<Longrightarrow> i \<ge> 0 \<Longrightarrow> free_for (sp_handle s) i (tn, k1) \<Longrightarrow>
    spec_step receiver s (Next j) (i, Some k1, []) (s\<lparr>sp_handle := (sp_handle s)(i \<mapsto> (tn, k1))\<rparr>)"
| previous_none: "sp_handle s j = Some (tn, k) \<Longrightarrow> (\<And>k'. sp_rows s (tn, k') \<noteq> None \<Longrightarrow> k \<le> k') \<Longrightarrow>
    spec_step receiver s (Previous j) (number (- 1)) s"
| previous_row: "sp_handle s j = Some (tn, k) \<Longrightarrow> sp_rows s (tn, k1) \<noteq> None \<Longrightarrow> k1 < k \<Longrightarrow>
    (\<And>k'. sp_rows s (tn, k') \<noteq> None \<Longrightarrow> k' < k \<Longrightarrow> k' \<le> k1) \<Longrightarrow> i \<ge> 0 \<Longrightarrow> free_for (sp_handle s) i (tn, k1) \<Longrightarrow>
    spec_step receiver s (Previous j) (i, Some k1, []) (s\<lparr>sp_handle := (sp_handle s)(i \<mapsto> (tn, k1))\<rparr>)"
| previous_end: "sp_end s j = Some tn \<Longrightarrow> sp_rows s (tn, k1) \<noteq> None \<Longrightarrow>
    (\<And>k'. sp_rows s (tn, k') \<noteq> None \<Longrightarrow> k' \<le> k1) \<Longrightarrow> i \<ge> 0 \<Longrightarrow> free_for (sp_handle s) i (tn, k1) \<Longrightarrow>
    spec_step receiver s (Previous j) (i, Some k1, []) (s\<lparr>sp_handle := (sp_handle s)(i \<mapsto> (tn, k1))\<rparr>)"

subsection \<open>The operations of the code\<close>

definition run_op :: "'k controller_view \<Rightarrow> 'k apply_context \<Rightarrow> table_op \<Rightarrow> ('k apply_context \<times> op_output) result" where
  "run_op cv cx op = (case op of
      Store scope table payer k v \<Rightarrow> ebind (db_store cv cx scope table payer k v) (\<lambda>(cx, i). Inr (cx, number i))
    | Update i payer v \<Rightarrow> ebind (db_update_i64 cv cx i payer v) (\<lambda>cx. Inr (cx, number 0))
    | Remove i \<Rightarrow> ebind (db_remove_i64 cv cx i) (\<lambda>cx. Inr (cx, number 0))
    | Get i buffer_size \<Rightarrow> ebind (db_get_i64 cx i buffer_size) (\<lambda>(n, bs). Inr (cx, n, None, bs))
    | Next i \<Rightarrow> ebind (db_next_i64 cx i) (\<lambda>(cx, j, primary). Inr (cx, j, primary, []))
    | Previous i \<Rightarrow> ebind (db_previous_i64 cx i) (\<lambda>(cx, j, primary). Inr (cx, j, primary, []))
    | Find (c, s, t) k \<Rightarrow> (let (cx, i) = db_find_i64 cx c s t k in Inr (cx, number i))
    | Lower (c, s, t) k \<Rightarrow> (let (cx, i) = db_lowerbound_i64 cx c s t k in Inr (cx, number i))
    | Upper (c, s, t) k \<Rightarrow> (let (cx, i) = db_upperbound_i64 cx c s t k in Inr (cx, number i))
    | End (c, s, t) \<Rightarrow> (let (cx, i) = db_end_i64 cx c s t in Inr (cx, number i)))"

definition table_id :: "table_index \<Rightarrow> tname \<Rightarrow> nat option" where
  "table_id ts tn = map_option fst (List.find (\<lambda>r. table_name (snd r) = tn) (idx_rows ts))"

definition abs_rows :: "table_index \<Rightarrow> row_index \<Rightarrow> tname \<times> u64 \<Rightarrow> (account_name \<times> bytes) option" where
  "abs_rows ts rs n = (case table_id ts (fst n) of None \<Rightarrow> None
     | Some tid \<Rightarrow> map_option (\<lambda>r. (kv_payer r, kv_value r)) (idx_find rs (tid, snd n)))"

definition abs_handle :: "table_index \<Rightarrow> kv_ptr iterator_cache \<Rightarrow> int \<Rightarrow> (tname \<times> u64) option" where
  "abs_handle ts ic i = (case cache_get ic i of Inl _ \<Rightarrow> None
     | Inr (tid, k, _) \<Rightarrow> map_option (\<lambda>x. (table_name x, k)) (idx_find ts tid))"

definition abs_end :: "table_index \<Rightarrow> kv_ptr iterator_cache \<Rightarrow> int \<Rightarrow> tname option" where
  "abs_end ts ic i = (case find_table_by_end_iterator ic i of
       Inr (Some tid) \<Rightarrow> map_option table_name (idx_find ts tid) | _ \<Rightarrow> None)"

definition abs_tables :: "'k apply_context \<Rightarrow> table_spec" where
  "abs_tables cx = \<lparr>sp_rows = abs_rows (db_tables cx) (db_key_values cx),
     sp_handle = abs_handle (db_tables cx) (ac_keyval_cache cx), sp_end = abs_end (db_tables cx) (ac_keyval_cache cx)\<rparr>"

lemma find_table_id: "find_table cx c s t = table_id (db_tables cx) (c, s, t)"
  by (simp add: find_table_def table_id_def table_name_def)

lemma table_id_iff:
  assumes "rows_wf E ts nt rs"
  shows "table_id ts tn = Some tid \<longleftrightarrow> (\<exists>x. idx_find ts tid = Some x \<and> table_name x = tn)"
proof
  assume "table_id ts tn = Some tid"
  then obtain x where "List.find (\<lambda>r. table_name (snd r) = tn) (idx_rows ts) = Some (tid, x)"
    by (auto simp: table_id_def)
  from find_Some_mem [OF this] show "\<exists>x. idx_find ts tid = Some x \<and> table_name x = tn"
    using idx_rows_find [OF rows_wfD(1) [OF assms], of tid x] by auto
next
  assume "\<exists>x. idx_find ts tid = Some x \<and> table_name x = tn"
  then obtain x where x: "idx_find ts tid = Some x" "table_name x = tn" by blast
  then have "(tid, x) \<in> set (idx_rows ts)" using idx_rows_find [OF rows_wfD(1) [OF assms]] by blast
  then have "List.find (\<lambda>r. table_name (snd r) = tn) (idx_rows ts) \<noteq> None"
    using x(2) by (auto simp: find_None_iff)
  then obtain r where r: "List.find (\<lambda>r. table_name (snd r) = tn) (idx_rows ts) = Some r" by blast
  then have "idx_find ts (fst r) = Some (snd r)" "table_name (snd r) = tn"
    using find_Some_mem [OF r] idx_rows_find [OF rows_wfD(1) [OF assms], of "fst r" "snd r"] by simp_all
  then have "fst r = tid" using rows_wfD(5) [OF assms _ x(1)] x(2) by simp
  then show "table_id ts tn = Some tid" using r by (simp add: table_id_def)
qed

lemma table_id_None:
  assumes "rows_wf E ts nt rs"
  shows "table_id ts tn = None \<longleftrightarrow> (\<forall>tid x. idx_find ts tid = Some x \<longrightarrow> table_name x \<noteq> tn)"
proof -
  have "table_id ts tn = None \<longleftrightarrow> (\<forall>tid. table_id ts tn \<noteq> Some tid)" by auto
  then show ?thesis unfolding table_id_iff [OF assms] by blast
qed

lemma abs_rows_Some:
  assumes "rows_wf E ts nt rs"
  shows "abs_rows ts rs (tn, k) = Some pv \<longleftrightarrow> (\<exists>tid x r. idx_find ts tid = Some x \<and> table_name x = tn
    \<and> idx_find rs (tid, k) = Some r \<and> pv = (kv_payer r, kv_value r))"
proof -
  have "abs_rows ts rs (tn, k) = Some pv \<longleftrightarrow>
      (\<exists>tid r. table_id ts tn = Some tid \<and> idx_find rs (tid, k) = Some r \<and> pv = (kv_payer r, kv_value r))"
    by (auto simp: abs_rows_def split: option.split)
  then show ?thesis unfolding table_id_iff [OF assms] by blast
qed

lemma abs_rows_table:
  assumes "rows_wf E ts nt rs" "idx_find ts tid = Some x"
  shows "abs_rows ts rs (table_name x, k) = map_option (\<lambda>r. (kv_payer r, kv_value r)) (idx_find rs (tid, k))"
  using table_id_iff [OF assms(1), of "table_name x" tid] assms(2) by (simp add: abs_rows_def)

lemma abs_handle_Some:
  assumes "cache_ok ic"
  shows "abs_handle ts ic h = Some n \<longleftrightarrow>
    (\<exists>tid k i x. cache_live ic (tid, k, i) = Some h \<and> idx_find ts tid = Some x \<and> n = (table_name x, k))"
proof -
  have "abs_handle ts ic h = Some n \<longleftrightarrow>
      (\<exists>tid k i x. cache_get ic h = Inr (tid, k, i) \<and> idx_find ts tid = Some x \<and> n = (table_name x, k))"
    by (auto simp: abs_handle_def split: sum.split)
  then show ?thesis unfolding cache_get_iff [OF assms] .
qed

lemma find_end_iff:
  assumes "cache_ok ic"
  shows "find_table_by_end_iterator ic e = Inr (Some tid) \<longleftrightarrow> idx_find (ic_table_cache ic) tid = Some e"
proof
  assume "find_table_by_end_iterator ic e = Inr (Some tid)"
  then show "idx_find (ic_table_cache ic) tid = Some e" unfolding cache_okD(3) [OF assms]
    by (intro exI [of _ "end_iterator_to_index e"])
      (auto simp: find_table_by_end_iterator_def end_iterator_to_index_def index_to_end_iterator_def Let_def split: if_splits)
next
  assume "idx_find (ic_table_cache ic) tid = Some e"
  then show "find_table_by_end_iterator ic e = Inr (Some tid)" unfolding cache_okD(3) [OF assms]
    by (auto simp: find_table_by_end_iterator_def end_iterator_to_index_def index_to_end_iterator_def)
qed

lemma abs_end_Some:
  assumes "cache_ok ic"
  shows "abs_end ts ic e = Some tn \<longleftrightarrow>
    (\<exists>tid x. idx_find (ic_table_cache ic) tid = Some e \<and> idx_find ts tid = Some x \<and> tn = table_name x)"
proof -
  have "abs_end ts ic e = Some tn \<longleftrightarrow>
      (\<exists>tid x. find_table_by_end_iterator ic e = Inr (Some tid) \<and> idx_find ts tid = Some x \<and> tn = table_name x)"
    by (auto simp: abs_end_def split: sum.split option.split)
  then show ?thesis unfolding find_end_iff [OF assms] .
qed

subsection \<open>The abstraction under changes of the cache\<close>

lemma map_eqI: "(\<And>x y. f x = Some y \<longleftrightarrow> g x = Some y) \<Longrightarrow> f = g"
  by (rule ext) (metis not_None_eq)

lemma table_cache_inj:
  "cache_ok ic \<Longrightarrow> idx_find (ic_table_cache ic) t = Some e \<Longrightarrow> idx_find (ic_table_cache ic) t' = Some e \<Longrightarrow> t = t'"
  by (auto simp: cache_okD(3) index_to_end_iterator_def)

lemma cache_table_end: "cache_ok ic \<Longrightarrow> snd (cache_table ic t) < - 1"
  using cache_okD(3) [OF cache_table_ok, of ic t t "snd (cache_table ic t)"]
  by (auto simp: cache_table_find index_to_end_iterator_def)

lemma cache_add_handle: "cache_ok ic \<Longrightarrow> snd (cache_add ic x) \<ge> 0"
  using cache_okD(4) [OF cache_add_ok, of ic x x "snd (cache_add ic x)"]
  by (auto simp: cache_add_live [unfolded cache_live_def])

lemma abs_handle_table: "cache_ok ic \<Longrightarrow> abs_handle ts (fst (cache_table ic tid)) = abs_handle ts ic"
  by (rule map_eqI) (simp add: abs_handle_Some cache_table_ok)

lemma abs_end_add: "cache_ok ic \<Longrightarrow> abs_end ts (fst (cache_add ic x)) = abs_end ts ic"
  by (rule map_eqI) (simp add: abs_end_Some cache_add_ok)

lemma abs_end_table:
  assumes "cache_ok ic" "idx_find ts tid = Some x"
  shows "abs_end ts (fst (cache_table ic tid)) = (abs_end ts ic)(snd (cache_table ic tid) \<mapsto> table_name x)"
proof (rule map_eqI)
  fix e n
  let ?ic = "fst (cache_table ic tid)" and ?e = "snd (cache_table ic tid)"
  note ok = cache_table_ok [OF assms(1), of tid]
  have own: "idx_find (ic_table_cache ?ic) tid = Some ?e" by (simp add: cache_table_find assms(1))
  have "(\<exists>t y. idx_find (ic_table_cache ?ic) t = Some e \<and> idx_find ts t = Some y \<and> n = table_name y) \<longleftrightarrow>
    (if e = ?e then n = table_name x
     else (\<exists>t y. idx_find (ic_table_cache ic) t = Some e \<and> idx_find ts t = Some y \<and> n = table_name y))"
  proof (cases "e = ?e")
    case True
    have "idx_find (ic_table_cache ?ic) t = Some ?e \<longleftrightarrow> t = tid" for t
      using own table_cache_inj [OF ok _ own, of t] by blast
    then show ?thesis using True assms(2) by simp
  next
    case False
    have "idx_find (ic_table_cache ?ic) t = Some e \<longleftrightarrow> idx_find (ic_table_cache ic) t = Some e" for t
    proof (cases "t = tid")
      case True
      have "idx_find (ic_table_cache ic) tid \<noteq> Some e"
      proof
        assume "idx_find (ic_table_cache ic) tid = Some e"
        then have "?e = e" by (simp add: cache_table_def)
        with False show False by simp
      qed
      then show ?thesis using True own False by simp
    next
      case False
      then show ?thesis by (simp add: cache_table_find assms(1))
    qed
    then show ?thesis using False by simp
  qed
  then show "abs_end ts ?ic e = Some n \<longleftrightarrow> ((abs_end ts ic)(?e \<mapsto> table_name x)) e = Some n"
    unfolding abs_end_Some [OF ok] using abs_end_Some [OF assms(1), of ts e n] by auto
qed

lemma abs_handle_add:
  assumes "cache_ok ic" "idx_find ts tid = Some x"
  shows "abs_handle ts (fst (cache_add ic (tid, k, i))) = (abs_handle ts ic)(snd (cache_add ic (tid, k, i)) \<mapsto> (table_name x, k))"
proof (rule map_eqI)
  fix h n
  let ?ic = "fst (cache_add ic (tid, k, i))" and ?h = "snd (cache_add ic (tid, k, i))"
  note ok = cache_add_ok [OF assms(1), of "(tid, k, i)"] and live = cache_add_live [OF assms(1), of "(tid, k, i)"]
  have own: "cache_live ?ic (tid, k, i) = Some ?h" by (simp add: live)
  have "(\<exists>t k' i' y. cache_live ?ic (t, k', i') = Some h \<and> idx_find ts t = Some y \<and> n = (table_name y, k')) \<longleftrightarrow>
    (if h = ?h then n = (table_name x, k)
     else (\<exists>t k' i' y. cache_live ic (t, k', i') = Some h \<and> idx_find ts t = Some y \<and> n = (table_name y, k')))"
  proof (cases "h = ?h")
    case True
    have "cache_live ?ic p = Some ?h \<longleftrightarrow> p = (tid, k, i)" for p
      using own handles.live_inj [OF ok _ own, of p] by blast
    then show ?thesis using True assms(2) by simp
  next
    case False
    have "cache_live ?ic p = Some h \<longleftrightarrow> cache_live ic p = Some h" for p
      using False handles.add_same [OF assms(1), of "(tid, k, i)" h] by (auto simp: live)
    then show ?thesis using False by simp
  qed
  then show "abs_handle ts ?ic h = Some n \<longleftrightarrow> ((abs_handle ts ic)(?h \<mapsto> (table_name x, k))) h = Some n"
    unfolding abs_handle_Some [OF ok] using abs_handle_Some [OF assms(1), of ts h n] by auto
qed

lemma abs_end_free:
  assumes ok: "cache_ok ic" and x: "idx_find ts tid = Some x"
  shows "free_for (abs_end ts ic) (snd (cache_table ic tid)) (table_name x)"
proof (cases "abs_end ts ic (snd (cache_table ic tid))")
  case (Some n)
  then obtain t y where t: "idx_find (ic_table_cache ic) t = Some (snd (cache_table ic tid))" "idx_find ts t = Some y" "n = table_name y"
    using abs_end_Some [OF ok] by blast
  have "t = tid"
    by (rule table_cache_inj [OF cache_table_ok [OF ok, of tid]]) (use t(1) in \<open>simp_all add: cache_table_find ok\<close>)
  then show ?thesis using Some t x by (simp add: free_for_def)
qed (simp add: free_for_def)

lemma abs_handle_free:
  assumes ok: "cache_ok ic" and x: "idx_find ts tid = Some x"
  shows "free_for (abs_handle ts ic) (snd (cache_add ic (tid, k, i))) (table_name x, k)"
proof (cases "abs_handle ts ic (snd (cache_add ic (tid, k, i)))")
  case (Some n)
  then obtain t k' i' y where t: "cache_live ic (t, k', i') = Some (snd (cache_add ic (tid, k, i)))"
    "idx_find ts t = Some y" "n = (table_name y, k')"
    using abs_handle_Some [OF ok] by blast
  have "(t, k', i') = (tid, k, i)"
    by (rule handles.live_inj [OF cache_add_ok [OF ok, of "(tid, k, i)"]]) (use t(1) in \<open>simp_all add: cache_add_live ok\<close>)
  then show ?thesis using Some t x by (simp add: free_for_def)
qed (simp add: free_for_def)

lemmas abs_cache = abs_handle_table abs_end_add abs_end_table abs_handle_add cache_table_ok cache_add_ok

subsection \<open>Searching rows in order\<close>

lemma rows_from_first:
  assumes ok: "idx_ok rs" and down: "\<forall>k k'. below k' \<longrightarrow> k \<le> k' \<longrightarrow> below k"
  shows "dropWhile (\<lambda>r. below (fst r)) rs = [] \<Longrightarrow> idx_find rs k = Some r \<Longrightarrow> below k"
    "dropWhile (\<lambda>r. below (fst r)) rs = p # ps \<Longrightarrow> idx_find rs (fst p) = Some (snd p) \<and> \<not> below (fst p)
      \<and> (\<forall>k r. idx_find rs k = Some r \<longrightarrow> \<not> below k \<longrightarrow> fst p \<le> k)"
proof -
  have mem: "idx_find rs k = Some r \<longleftrightarrow> (k, r) \<in> set rs" for k r
    using idx_rows_find [OF ok] by (simp add: idx_rows_def)
  show "dropWhile (\<lambda>r. below (fst r)) rs = [] \<Longrightarrow> idx_find rs k = Some r \<Longrightarrow> below k"
    by (auto simp: mem)
  assume d: "dropWhile (\<lambda>r. below (fst r)) rs = p # ps"
  have app: "rs = takeWhile (\<lambda>r. below (fst r)) rs @ p # ps"
    using takeWhile_dropWhile_id [of "\<lambda>r. below (fst r)" rs] d by simp
  have s: "sorted_wrt (<) (map fst (p # ps))"
    using ok app by (metis idx_ok_def map_append sorted_wrt_append)
  have "p \<in> set rs" using app by (metis in_set_conv_decomp)
  moreover have "\<not> below (fst p)" using hd_dropWhile [of "\<lambda>r. below (fst r)" rs] d by simp
  moreover have "fst p \<le> k" if "(k, r) \<in> set rs" "\<not> below k" for k r
  proof -
    have "(k, r) \<in> set (takeWhile (\<lambda>r. below (fst r)) rs) \<or> (k, r) \<in> set (p # ps)"
      using that(1) app by (metis Un_iff set_append)
    then have "(k, r) \<in> set (p # ps)" using that(2) by (auto dest: set_takeWhileD)
    then show ?thesis using s by (auto simp: less_imp_le)
  qed
  ultimately show "idx_find rs (fst p) = Some (snd p) \<and> \<not> below (fst p)
      \<and> (\<forall>k r. idx_find rs k = Some r \<longrightarrow> \<not> below k \<longrightarrow> fst p \<le> k)" by (simp add: mem)
qed

lemma rows_before_last:
  assumes ok: "idx_ok rs" and down: "\<forall>k k'. below k' \<longrightarrow> k \<le> k' \<longrightarrow> below k"
  shows "takeWhile (\<lambda>r. below (fst r)) rs = [] \<Longrightarrow> idx_find rs k = Some r \<Longrightarrow> \<not> below k"
    "takeWhile (\<lambda>r. below (fst r)) rs \<noteq> [] \<Longrightarrow> p = last (takeWhile (\<lambda>r. below (fst r)) rs) \<Longrightarrow>
      idx_find rs (fst p) = Some (snd p) \<and> below (fst p) \<and> (\<forall>k r. idx_find rs k = Some r \<longrightarrow> below k \<longrightarrow> k \<le> fst p)"
proof -
  let ?T = "takeWhile (\<lambda>r. below (fst r)) rs" and ?D = "dropWhile (\<lambda>r. below (fst r)) rs"
  have mem: "idx_find rs k = Some r \<longleftrightarrow> (k, r) \<in> set rs" for k r
    using idx_rows_find [OF ok] by (simp add: idx_rows_def)
  have inT: "(k, r) \<in> set ?T" if "(k, r) \<in> set rs" "below k" for k r
  proof (cases ?D)
    case Nil
    then have "?T = rs" using takeWhile_dropWhile_id [of "\<lambda>r. below (fst r)" rs] by (simp only: append_Nil2)
    with that(1) show ?thesis by (simp only:)
  next
    case (Cons q qs)
    have "(k, r) \<in> set ?T \<or> (k, r) \<in> set ?D"
      using that(1) takeWhile_dropWhile_id [of "\<lambda>r. below (fst r)" rs] by (metis Un_iff set_append)
    moreover have "(k, r) \<notin> set ?D"
    proof
      assume m: "(k, r) \<in> set ?D"
      have "sorted_wrt (<) (map fst ?D)"
        using ok takeWhile_dropWhile_id [of "\<lambda>r. below (fst r)" rs] by (metis idx_ok_def map_append sorted_wrt_append)
      then have "fst q \<le> k" using m Cons by (auto simp: less_imp_le)
      moreover have "\<not> below (fst q)" using hd_dropWhile [of "\<lambda>r. below (fst r)" rs] Cons by simp
      ultimately show False using down that(2) by blast
    qed
    ultimately show ?thesis by blast
  qed
  show "?T = [] \<Longrightarrow> idx_find rs k = Some r \<Longrightarrow> \<not> below k" using inT [of k r] by (auto simp: mem)
  assume T: "?T \<noteq> []" and p: "p = last ?T"
  have "p \<in> set ?T" using T p by simp
  then have "p \<in> set rs" "below (fst p)" by (auto dest: set_takeWhileD)
  moreover have "k \<le> fst p" if "(k, r) \<in> set rs" "below k" for k r
  proof -
    have "sorted_wrt (<) (map fst ?T)"
      using ok takeWhile_dropWhile_id [of "\<lambda>r. below (fst r)" rs] by (metis idx_ok_def map_append sorted_wrt_append)
    moreover have "?T = butlast ?T @ [p]" using T p by simp
    ultimately have "\<forall>q\<in>set (butlast ?T). fst q < fst p"
      by (metis (mono_tags, lifting) list.set_intros(1) list.set_map image_eqI map_append list.simps(9) sorted_wrt_append)
    moreover have "(k, r) \<in> set (butlast ?T @ [p])" using inT [OF that] \<open>?T = butlast ?T @ [p]\<close> by simp
    ultimately show ?thesis by (auto simp: less_imp_le)
  qed
  ultimately show "idx_find rs (fst p) = Some (snd p) \<and> below (fst p) \<and>
      (\<forall>k r. idx_find rs k = Some r \<longrightarrow> below k \<longrightarrow> k \<le> fst p)" by (simp add: mem)
qed

subsection \<open>Operations that only move\<close>

lemma tables_okD:
  assumes "tables_ok cx"
  shows "rows_wf {} (db_tables cx) (db_next_table cx) (db_key_values cx)"
    "cache_wf (db_key_values cx) (ac_keyval_cache cx)" "cache_ok (ac_keyval_cache cx)"
    "idx_ok (db_tables cx)" "idx_ok (db_key_values cx)"
    "idx_find (ic_table_cache (ac_keyval_cache cx)) tid = Some e \<Longrightarrow> tid < db_next_table cx"
  using assms rows_wfD(1,2) cache_wfD(1) unfolding tables_ok_def by blast+

lemma keyval_cache_table_eq:
  "keyval_cache_table cx tid = (cx\<lparr>ac_keyval_cache := fst (cache_table (ac_keyval_cache cx) tid)\<rparr>,
     snd (cache_table (ac_keyval_cache cx) tid))"
  by (simp add: keyval_cache_table_def Let_def case_prod_beta)

lemma keyval_add_eq:
  "keyval_add cx p = (cx\<lparr>ac_keyval_cache := fst (cache_add (ac_keyval_cache cx) p)\<rparr>, snd (cache_add (ac_keyval_cache cx) p))"
  by (simp add: keyval_add_def Let_def case_prod_beta)

lemmas keyval_eqs = keyval_cache_table_eq keyval_add_eq

lemma abs_rows_Some_table:
  assumes "tables_ok cx" "idx_find (db_tables cx) tid = Some x"
  shows "sp_rows (abs_tables cx) (table_name x, k) \<noteq> None \<longleftrightarrow> (\<exists>r. idx_find (db_key_values cx) (tid, k) = Some r)"
  using abs_rows_table [OF tables_okD(1) [OF assms(1)] assms(2), of k] by (simp add: abs_tables_def)

lemma table_nonempty:
  assumes "tables_ok cx" "idx_find (db_tables cx) tid = Some x"
  shows "\<exists>k. sp_rows (abs_tables cx) (table_name x, k) \<noteq> None"
proof -
  note wf = tables_okD(1) [OF assms(1)]
  have "table_rows (db_key_values cx) tid \<noteq> 0" using rows_wfD(4) [OF wf assms(2)] by auto
  then obtain k where "idx_find (db_key_values cx) (tid, k) \<noteq> None"
    using table_rows_zero [OF rows_wfD(2) [OF wf], of tid] by blast
  then show ?thesis using abs_rows_Some_table [OF assms] by auto
qed

lemma no_table_rows:
  assumes "tables_ok cx" "table_id (db_tables cx) tn = None"
  shows "sp_rows (abs_tables cx) (tn, k) = None"
  using assms(2) by (simp add: abs_tables_def abs_rows_def)

lemma tables_ok_cache_table:
  assumes "tables_ok cx" "idx_find (db_tables cx) tid = Some x"
  shows "tables_ok (cx\<lparr>ac_keyval_cache := fst (cache_table (ac_keyval_cache cx) tid)\<rparr>)"
  using assms rows_wfD(4) [OF tables_okD(1) [OF assms(1)] assms(2)] cache_table_find [OF tables_okD(3) [OF assms(1)], of tid]
  by (simp add: tables_ok_def cache_wf_table)

lemma seek_no_row:
  assumes "tables_ok cx" "idx_find (db_tables cx) tid = Some x"
    "\<And>k r. idx_find (db_key_values cx) (tid, k) = Some r \<Longrightarrow> \<not> P k"
  shows "tables_ok (fst (keyval_cache_table cx tid)) \<and> spec_seek (abs_tables cx) (table_name x) P
    (snd (keyval_cache_table cx tid)) (abs_tables (fst (keyval_cache_table cx tid)))"
proof -
  note ok = tables_okD(3) [OF assms(1)]
  obtain k0 where k0: "sp_rows (abs_tables cx) (table_name x, k0) \<noteq> None" using table_nonempty [OF assms(1,2)] by blast
  have none: "\<not> P k" if "sp_rows (abs_tables cx) (table_name x, k) \<noteq> None" for k
    using that assms(3) abs_rows_Some_table [OF assms(1,2)] by blast
  have e: "abs_tables (fst (keyval_cache_table cx tid)) =
      (abs_tables cx)\<lparr>sp_end := (sp_end (abs_tables cx))(snd (keyval_cache_table cx tid) \<mapsto> table_name x)\<rparr>"
    using ok assms(2) by (simp add: abs_tables_def keyval_eqs abs_cache)
  show ?thesis unfolding e
    using spec_seek.no_row [OF k0 none cache_table_end [OF ok, of tid]] abs_end_free [OF ok assms(2)] tables_ok_cache_table [OF assms(1,2)]
    by (simp add: keyval_eqs) (simp add: abs_tables_def)
qed

lemma keyval_add_row:
  assumes "tables_ok cx" "idx_find (db_tables cx) tid = Some x" "idx_find (db_key_values cx) (tid, k) = Some r"
    "idx_find (ic_table_cache (ac_keyval_cache cx)) tid \<noteq> None"
  shows "tables_ok (fst (keyval_add cx (tid, k, kv_id r)))"
    "abs_tables (fst (keyval_add cx (tid, k, kv_id r))) = (abs_tables cx)\<lparr>sp_handle :=
       (sp_handle (abs_tables cx))(snd (keyval_add cx (tid, k, kv_id r)) \<mapsto> (table_name x, k))\<rparr>"
    "snd (keyval_add cx (tid, k, kv_id r)) \<ge> 0"
    "free_for (sp_handle (abs_tables cx)) (snd (keyval_add cx (tid, k, kv_id r))) (table_name x, k)"
proof -
  note ok = tables_okD(3) [OF assms(1)]
  show "tables_ok (fst (keyval_add cx (tid, k, kv_id r)))"
    using assms cache_wf_add [OF _ assms(3) refl assms(4)] by (simp add: tables_ok_def keyval_eqs)
  show "abs_tables (fst (keyval_add cx (tid, k, kv_id r))) = (abs_tables cx)\<lparr>sp_handle :=
       (sp_handle (abs_tables cx))(snd (keyval_add cx (tid, k, kv_id r)) \<mapsto> (table_name x, k))\<rparr>"
    using ok assms(2) by (simp add: abs_tables_def keyval_eqs abs_cache)
  show "snd (keyval_add cx (tid, k, kv_id r)) \<ge> 0" using cache_add_handle [OF ok] by (simp add: keyval_eqs)
  show "free_for (sp_handle (abs_tables cx)) (snd (keyval_add cx (tid, k, kv_id r))) (table_name x, k)"
    using abs_handle_free [OF ok assms(2)] by (simp add: keyval_eqs abs_tables_def)
qed

lemma seek_row:
  assumes "tables_ok cx" "idx_find (db_tables cx) tid = Some x"
    "idx_find (db_key_values cx) (tid, k) = Some r" "P k"
    "\<And>k' r'. idx_find (db_key_values cx) (tid, k') = Some r' \<Longrightarrow> P k' \<Longrightarrow> k \<le> k'"
    "c = keyval_add (fst (keyval_cache_table cx tid)) (tid, k, kv_id r)"
  shows "tables_ok (fst c) \<and> spec_seek (abs_tables cx) (table_name x) P (snd c) (abs_tables (fst c))"
proof -
  note ok = tables_okD(3) [OF assms(1)]
  let ?cx = "fst (keyval_cache_table cx tid)"
  have cx: "tables_ok ?cx" using tables_ok_cache_table [OF assms(1,2)] by (simp add: keyval_eqs)
  have f: "db_tables ?cx = db_tables cx" "db_key_values ?cx = db_key_values cx"
    "idx_find (ic_table_cache (ac_keyval_cache ?cx)) tid \<noteq> None"
    using ok by (simp_all add: keyval_eqs cache_table_find)
  note add = keyval_add_row [OF cx, unfolded f(1,2), OF assms(2,3) f(3), folded assms(6)]
  have e: "abs_tables (fst c) = (abs_tables cx)\<lparr>sp_handle := (sp_handle (abs_tables cx))(snd c \<mapsto> (table_name x, k)),
      sp_end := (sp_end (abs_tables cx))(snd (keyval_cache_table cx tid) \<mapsto> table_name x)\<rparr>"
    unfolding add(2) using ok assms(2) by (simp add: abs_tables_def keyval_eqs abs_cache)
  have row: "sp_rows (abs_tables cx) (table_name x, k) \<noteq> None" using assms(3) abs_rows_Some_table [OF assms(1,2)] by blast
  have least: "k \<le> k'" if "sp_rows (abs_tables cx) (table_name x, k') \<noteq> None" "P k'" for k'
    using that assms(5) abs_rows_Some_table [OF assms(1,2)] by blast
  have h: "free_for (sp_handle (abs_tables cx)) (snd c) (table_name x, k)"
    using add(4) ok by (simp add: abs_tables_def keyval_eqs abs_cache)
  have n: "snd (keyval_cache_table cx tid) < - 1"
    "free_for (sp_end (abs_tables cx)) (snd (keyval_cache_table cx tid)) (table_name x)"
    using cache_table_end [OF ok] abs_end_free [OF ok assms(2)] by (simp_all add: keyval_eqs abs_tables_def)
  show ?thesis unfolding e
    using add(1) spec_seek.row [of "abs_tables cx" "table_name x" k P, OF row assms(4) least add(3) h n] by simp
qed

lemma db_seek_refines:
  assumes ok: "tables_ok cx" and down: "\<And>tid. \<forall>k k'. below tid k' \<longrightarrow> k \<le> k' \<longrightarrow> below tid k"
    and P: "\<And>tid k. below tid (tid, k) \<longleftrightarrow> \<not> P k" and above: "\<And>tid k. tid < fst k \<Longrightarrow> \<not> below tid k"
    and less: "\<And>tid k. fst k < tid \<Longrightarrow> below tid k"
    and c: "c = db_seek cx code scope table below"
  shows "tables_ok (fst c) \<and> spec_seek (abs_tables cx) (code, scope, table) P (snd c) (abs_tables (fst c))"
proof (cases "table_id (db_tables cx) (code, scope, table)")
  case None
  then have "c = (cx, - 1)" by (simp add: c db_seek_def find_table_id)
  then show ?thesis using ok spec_seek.no_table [OF no_table_rows [OF ok None]] by simp
next
  case (Some tid)
  then obtain x where x: "idx_find (db_tables cx) tid = Some x" "table_name x = (code, scope, table)"
    using table_id_iff [OF tables_okD(1) [OF ok]] by blast
  let ?rs = "dropWhile (\<lambda>r. below tid (fst r)) (db_key_values cx)"
  have rf: "rows_from (fst (keyval_cache_table cx tid)) (below tid) = ?rs"
    by (simp add: rows_from_def keyval_eqs idx_rows_def)
  note first = rows_from_first [OF tables_okD(5) [OF ok], of "below tid", OF down]
  show ?thesis
  proof (cases ?rs)
    case Nil
    have "c = keyval_cache_table cx tid"
      using rf [unfolded Nil] by (simp add: c db_seek_def find_table_id Some case_prod_beta Let_def)
    moreover have "\<not> P k" if "idx_find (db_key_values cx) (tid, k) = Some r" for k r
      using first(1) [OF Nil that] P by simp
    ultimately show ?thesis using seek_no_row [OF ok x(1), of P] x(2) by simp
  next
    case (Cons p ps)
    note f = first(2) [OF Cons]
    obtain t k r where p: "p = ((t, k), r)" by (metis prod.collapse)
    have "t \<ge> tid" using less [of "fst p" tid] f p by (simp add: not_less [symmetric]) blast
    show ?thesis
    proof (cases "t = tid")
      case True
      then have c': "c = keyval_add (fst (keyval_cache_table cx tid)) (tid, k, kv_id r)"
        using rf [unfolded Cons] p by (simp add: c db_seek_def find_table_id Some case_prod_beta Let_def row_ptr_def)
      have least: "k \<le> k'" if "idx_find (db_key_values cx) (tid, k') = Some r'" "P k'" for k' r'
      proof -
        have "fst p \<le> (tid, k')" using f that P [of tid k'] by blast
        with p True show ?thesis by simp
      qed
      have "idx_find (db_key_values cx) (tid, k) = Some r" "P k" using f p True P by auto
      then show ?thesis using seek_row [OF ok x(1) _ _ least c'] x(2) by simp
    next
      case False
      then have "c = keyval_cache_table cx tid"
        using rf [unfolded Cons] p by (simp add: c db_seek_def find_table_id Some case_prod_beta Let_def)
      moreover have "\<not> P k'" if "idx_find (db_key_values cx) (tid, k') = Some r'" for k' r'
      proof
        assume "P k'"
        then have "(t, k) \<le> (tid, k')" using f p P that by auto
        with False \<open>t \<ge> tid\<close> show False by simp
      qed
      ultimately show ?thesis using seek_no_row [OF ok x(1), of P] x(2) by simp
    qed
  qed
qed

lemma db_lowerbound_refines:
  assumes "tables_ok cx" "c = db_lowerbound_i64 cx code scope table key"
  shows "tables_ok (fst c) \<and> spec_seek (abs_tables cx) (code, scope, table) (\<lambda>k. key \<le> k) (snd c) (abs_tables (fst c))"
  by (rule db_seek_refines [OF assms(1) _ _ _ _ assms(2) [unfolded db_lowerbound_i64_def]]) auto

lemma db_upperbound_refines:
  assumes "tables_ok cx" "c = db_upperbound_i64 cx code scope table key"
  shows "tables_ok (fst c) \<and> spec_seek (abs_tables cx) (code, scope, table) (\<lambda>k. key < k) (snd c) (abs_tables (fst c))"
  by (rule db_seek_refines [OF assms(1) _ _ _ _ assms(2) [unfolded db_upperbound_i64_def]]) auto

lemma db_find_refines:
  assumes ok: "tables_ok cx" and c: "c = db_find_i64 cx code scope table key"
  shows "tables_ok (fst c) \<and> spec_seek (abs_tables cx) (code, scope, table) (\<lambda>k. k = key) (snd c) (abs_tables (fst c))"
proof (cases "table_id (db_tables cx) (code, scope, table)")
  case None
  then have "c = (cx, - 1)" by (simp add: c db_find_i64_def find_table_id)
  then show ?thesis using ok spec_seek.no_table [OF no_table_rows [OF ok None]] by simp
next
  case (Some tid)
  then obtain x where x: "idx_find (db_tables cx) tid = Some x" "table_name x = (code, scope, table)"
    using table_id_iff [OF tables_okD(1) [OF ok]] by blast
  have rs: "db_key_values (fst (keyval_cache_table cx tid)) = db_key_values cx" by (simp add: keyval_eqs)
  show ?thesis
  proof (cases "idx_find (db_key_values cx) (tid, key)")
    case None
    then have "c = keyval_cache_table cx tid"
      using rs by (simp add: c db_find_i64_def find_table_id Some case_prod_beta Let_def)
    moreover have "k \<noteq> key" if "idx_find (db_key_values cx) (tid, k) = Some r" for k r using that None by auto
    ultimately show ?thesis using seek_no_row [OF ok x(1), of "\<lambda>k. k = key"] x(2) by simp
  next
    case r: (Some r)
    then have c': "c = keyval_add (fst (keyval_cache_table cx tid)) (tid, key, kv_id r)"
      using rs by (simp add: c db_find_i64_def find_table_id Some case_prod_beta Let_def)
    show ?thesis unfolding x(2) [symmetric] by (rule seek_row [OF ok x(1) r _ _ c']) auto
  qed
qed

lemma db_end_refines:
  assumes ok: "tables_ok cx" and c: "c = db_end_i64 cx code scope table"
  shows "tables_ok (fst c) \<and> spec_seek (abs_tables cx) (code, scope, table) (\<lambda>k. False) (snd c) (abs_tables (fst c))"
proof (cases "table_id (db_tables cx) (code, scope, table)")
  case None
  then have "c = (cx, - 1)" by (simp add: c db_end_i64_def find_table_id)
  then show ?thesis using ok spec_seek.no_table [OF no_table_rows [OF ok None]] by simp
next
  case (Some tid)
  then obtain x where x: "idx_find (db_tables cx) tid = Some x" "table_name x = (code, scope, table)"
    using table_id_iff [OF tables_okD(1) [OF ok]] by blast
  have "c = keyval_cache_table cx tid" by (simp add: c db_end_i64_def find_table_id Some)
  then show ?thesis using seek_no_row [OF ok x(1), of "\<lambda>k. False"] x(2) by simp
qed

lemma live_handle:
  assumes "tables_ok cx" "cache_get (ac_keyval_cache cx) j = Inr (tid, k, i)"
  obtains r x e where "idx_find (db_key_values cx) (tid, k) = Some r" "kv_id r = i"
    "idx_find (db_tables cx) tid = Some x" "idx_find (ic_table_cache (ac_keyval_cache cx)) tid = Some e"
    "sp_handle (abs_tables cx) j = Some (table_name x, k)" "sp_end (abs_tables cx) e = Some (table_name x)"
    "cache_live (ac_keyval_cache cx) (tid, k, i) = Some j"
proof -
  note D = tables_okD [OF assms(1)]
  have l: "cache_live (ac_keyval_cache cx) (tid, k, i) = Some j" using assms(2) by (simp add: cache_get_iff [OF D(3)])
  obtain r where r: "idx_find (db_key_values cx) (tid, k) = Some r" "kv_id r = i" using cache_wfD(2) [OF D(2) l] by blast
  obtain e where e: "idx_find (ic_table_cache (ac_keyval_cache cx)) tid = Some e" using cache_wfD(3) [OF D(2) l] by blast
  obtain x where x: "idx_find (db_tables cx) tid = Some x" using rows_wfD(6) [OF D(1) r(1)] by auto
  have h: "sp_handle (abs_tables cx) j = Some (table_name x, k)"
    using l x by (auto simp: abs_tables_def abs_handle_Some [OF D(3)])
  have "sp_end (abs_tables cx) e = Some (table_name x)" using e x by (auto simp: abs_tables_def abs_end_Some [OF D(3)])
  with r e x h l show thesis by (auto intro: that)
qed

text \<open>The next row in the order of the index is in the same table, or the end of the table is reached.\<close>

lemma next_row:
  assumes ok: "tables_ok cx" and x: "idx_find (db_tables cx) tid = Some x"
    and d: "rows_from cx (\<lambda>k'. k' \<le> (tid, k)) = ps"
  shows "case ps of
      [] \<Rightarrow> \<forall>k'. sp_rows (abs_tables cx) (table_name x, k') \<noteq> None \<longrightarrow> k' \<le> k
    | p # _ \<Rightarrow> if fst (fst p) = tid
        then idx_find (db_key_values cx) (fst p) = Some (snd p) \<and> k < snd (fst p)
          \<and> (\<forall>k'. sp_rows (abs_tables cx) (table_name x, k') \<noteq> None \<longrightarrow> k < k' \<longrightarrow> snd (fst p) \<le> k')
        else \<forall>k'. sp_rows (abs_tables cx) (table_name x, k') \<noteq> None \<longrightarrow> k' \<le> k"
proof -
  have down: "\<forall>a b. b \<le> (tid, k) \<longrightarrow> a \<le> b \<longrightarrow> a \<le> (tid, k)" using order_trans by blast
  note first = rows_from_first [OF tables_okD(5) [OF ok] down]
  have d': "dropWhile (\<lambda>r. fst r \<le> (tid, k)) (db_key_values cx) = ps"
    using d by (simp add: rows_from_def idx_rows_def)
  note rows = abs_rows_Some_table [OF ok x]
  show ?thesis
  proof (cases ps)
    case Nil
    then show ?thesis using first(1) [OF d' [unfolded Nil]] rows by fastforce
  next
    case (Cons p qs)
    note f = first(2) [OF d' [unfolded Cons]]
    have le: "fst p \<le> (tid, k')" if "sp_rows (abs_tables cx) (table_name x, k') \<noteq> None" "k < k'" for k'
      using f that(2) rows [of k'] that(1) by auto
    obtain t k1 r1 where p: "p = ((t, k1), r1)" by (metis prod.collapse)
    have "tid \<le> t" using f p by auto
    show ?thesis
    proof (cases "t = tid")
      case True
      then show ?thesis using Cons f p le by auto
    next
      case False
      have "k' \<le> k" if "sp_rows (abs_tables cx) (table_name x, k') \<noteq> None" for k'
        using le [OF that] p False \<open>tid \<le> t\<close> by (simp add: not_le [symmetric]) fastforce
      then show ?thesis using Cons p False by simp
    qed
  qed
qed

lemma db_next_refines:
  assumes ok: "tables_ok cx" and n: "db_next_i64 cx j = Inr (cx', i, ko)"
  shows "tables_ok cx' \<and> spec_step receiver (abs_tables cx) (Next j) (i, ko, []) (abs_tables cx')"
proof (cases "j < - 1")
  case True
  then show ?thesis using ok n by (auto simp: db_next_i64_def intro: spec_step.next_end)
next
  case False
  then obtain tid k rid where g: "cache_get (ac_keyval_cache cx) j = Inr (tid, k, rid)"
    using n by (auto simp: db_next_i64_def)
  obtain r x e where h: "idx_find (db_key_values cx) (tid, k) = Some r" "kv_id r = rid"
    "idx_find (db_tables cx) tid = Some x" "idx_find (ic_table_cache (ac_keyval_cache cx)) tid = Some e"
    "sp_handle (abs_tables cx) j = Some (table_name x, k)" "sp_end (abs_tables cx) e = Some (table_name x)"
    by (rule live_handle [OF ok g])
  define ps where "ps = rows_from cx (\<lambda>k'. k' \<le> (tid, k))"
  note nr = next_row [OF ok h(3) ps_def [symmetric]]
  show ?thesis
  proof (cases "ps \<noteq> [] \<and> fst (fst (hd ps)) = tid")
    case True
    then obtain k1 r1 qs where ps: "ps = ((tid, k1), r1) # qs" by (cases ps) auto
    then have c: "(cx', i) = keyval_add cx (tid, k1, kv_id r1)" and ko: "ko = Some k1"
      using n False g h(1,2) ps_def
      by (auto simp: db_next_i64_def row_ptr_def Let_def case_prod_beta dest: sym)
    have row: "idx_find (db_key_values cx) (tid, k1) = Some r1" "k < k1"
      "\<And>k'. sp_rows (abs_tables cx) (table_name x, k') \<noteq> None \<Longrightarrow> k < k' \<Longrightarrow> k1 \<le> k'"
      using nr ps by auto
    have tc: "idx_find (ic_table_cache (ac_keyval_cache cx)) tid \<noteq> None" using h(4) by simp
    note add = keyval_add_row [OF ok h(3) row(1) tc, folded c, simplified]
    have r1: "sp_rows (abs_tables cx) (table_name x, k1) \<noteq> None" using row(1) abs_rows_Some_table [OF ok h(3)] by blast
    show ?thesis unfolding add(2) ko using add(1) spec_step.next_row [OF h(5) r1 row(2,3) add(3,4)] by blast
  next
    case stop: False
    then have "cx' = cx" "i = e" "ko = None"
      using n False g h(1,2,4) ps_def
      by (auto simp: db_next_i64_def get_end_iterator_by_table_id_def split: list.splits)
    moreover have "k' \<le> k" if "sp_rows (abs_tables cx) (table_name x, k') \<noteq> None" for k'
      using nr stop that by (cases ps) auto
    ultimately show ?thesis using ok spec_step.next_none [OF h(5) _ h(6)] by blast
  qed
qed

lemma previous_row:
  assumes ok: "tables_ok cx" and x: "idx_find (db_tables cx) tid = Some x"
    and down: "\<forall>a b. below b \<longrightarrow> a \<le> b \<longrightarrow> below a" and B: "\<And>k. below (tid, k) \<longleftrightarrow> P k" "\<And>k. tid < fst k \<Longrightarrow> \<not> below k"
    and d: "rows_before cx below = ps"
  shows "if ps \<noteq> [] \<and> fst (fst (last ps)) = tid
      then idx_find (db_key_values cx) (fst (last ps)) = Some (snd (last ps)) \<and> P (snd (fst (last ps)))
        \<and> (\<forall>k'. sp_rows (abs_tables cx) (table_name x, k') \<noteq> None \<longrightarrow> P k' \<longrightarrow> k' \<le> snd (fst (last ps)))
      else \<forall>k'. sp_rows (abs_tables cx) (table_name x, k') \<noteq> None \<longrightarrow> \<not> P k'"
proof -
  note lst = rows_before_last [OF tables_okD(5) [OF ok] down]
  have d': "takeWhile (\<lambda>r. below (fst r)) (db_key_values cx) = ps"
    using d by (simp add: rows_before_def idx_rows_def)
  note rows = abs_rows_Some_table [OF ok x]
  show ?thesis
  proof (cases "ps = []")
    case True
    have "\<not> P k'" if "sp_rows (abs_tables cx) (table_name x, k') \<noteq> None" for k'
      using lst(1) [OF d' [unfolded True], of "(tid, k')"] rows [of k'] that B(1) [of k'] by blast
    then show ?thesis using True by simp
  next
    case False
    obtain t k1 r1 where p: "last ps = ((t, k1), r1)" by (metis prod.collapse)
    note f = lst(2) [unfolded d', OF False refl]
    have le: "(tid, k') \<le> (t, k1)" if "sp_rows (abs_tables cx) (table_name x, k') \<noteq> None" "P k'" for k'
      using f p that(2) rows [of k'] that(1) B(1) by auto
    have "t \<le> tid" using f p B(2) [of "(t, k1)"] by (simp add: not_less [symmetric]) blast
    show ?thesis
    proof (cases "t = tid")
      case True
      then show ?thesis using False f p le B(1) by auto
    next
      case t: False
      have "\<not> P k'" if "sp_rows (abs_tables cx) (table_name x, k') \<noteq> None" for k'
        using le [OF that] t \<open>t \<le> tid\<close> by auto
      then show ?thesis using p t by simp
    qed
  qed
qed

lemma step_back_eq:
  "step_back cx tid ps = (if ps \<noteq> [] \<and> fst (fst (last ps)) = tid
     then (fst (keyval_add cx (row_ptr (last ps))), snd (keyval_add cx (row_ptr (last ps))), Some (snd (fst (last ps))))
     else (cx, - 1, None))"
  by (simp add: step_back_def Let_def case_prod_beta)

lemma step_back_refines:
  assumes ok: "tables_ok cx" and x: "idx_find (db_tables cx) tid = Some x"
    and e: "idx_find (ic_table_cache (ac_keyval_cache cx)) tid = Some e"
    and down: "\<forall>a b. below b \<longrightarrow> a \<le> b \<longrightarrow> below a" and B: "\<And>k. below (tid, k) \<longleftrightarrow> P k" "\<And>k. tid < fst k \<Longrightarrow> \<not> below k"
    and s: "step_back cx tid (rows_before cx below) = (cx', i, ko)"
  shows "tables_ok cx' \<and> (cx' = cx \<and> i = - 1 \<and> ko = None \<and> (\<forall>k'. sp_rows (abs_tables cx) (table_name x, k') \<noteq> None \<longrightarrow> \<not> P k') \<or>
    (\<exists>k1. sp_rows (abs_tables cx) (table_name x, k1) \<noteq> None \<and> P k1 \<and> i \<ge> 0 \<and> ko = Some k1
      \<and> free_for (sp_handle (abs_tables cx)) i (table_name x, k1)
      \<and> (\<forall>k'. sp_rows (abs_tables cx) (table_name x, k') \<noteq> None \<longrightarrow> P k' \<longrightarrow> k' \<le> k1)
      \<and> abs_tables cx' = (abs_tables cx)\<lparr>sp_handle := (sp_handle (abs_tables cx))(i \<mapsto> (table_name x, k1))\<rparr>))"
proof -
  define ps where "ps = rows_before cx below"
  note pr = previous_row [OF ok x down B ps_def [symmetric]]
  show ?thesis
  proof (cases "ps \<noteq> [] \<and> fst (fst (last ps)) = tid")
    case True
    obtain k1 r1 where l: "last ps = ((tid, k1), r1)" using True by (cases "last ps") auto
    have c: "(cx', i) = keyval_add cx (tid, k1, kv_id r1)" and ko: "ko = Some k1"
      using s True l unfolding ps_def [symmetric] step_back_eq by (auto simp: row_ptr_def)
    have row: "idx_find (db_key_values cx) (tid, k1) = Some r1" "P k1"
      "\<And>k'. sp_rows (abs_tables cx) (table_name x, k') \<noteq> None \<Longrightarrow> P k' \<Longrightarrow> k' \<le> k1"
      using pr True l by auto
    have tc: "idx_find (ic_table_cache (ac_keyval_cache cx)) tid \<noteq> None" using e by simp
    note add = keyval_add_row [OF ok x row(1) tc, folded c, simplified]
    have "sp_rows (abs_tables cx) (table_name x, k1) \<noteq> None" using row(1) abs_rows_Some_table [OF ok x] by blast
    then show ?thesis using add row(2,3) ko by blast
  next
    case False
    then have "cx' = cx" "i = - 1" "ko = None" using s unfolding ps_def [symmetric] step_back_eq by auto
    then show ?thesis using ok pr False by simp
  qed
qed

lemma db_previous_refines:
  assumes ok: "tables_ok cx" and n: "db_previous_i64 cx j = Inr (cx', i, ko)"
  shows "tables_ok cx' \<and> spec_step receiver (abs_tables cx) (Previous j) (i, ko, []) (abs_tables cx')"
proof (cases "j < - 1")
  case True
  then obtain tid x where f: "find_table_by_end_iterator (ac_keyval_cache cx) j = Inr (Some tid)"
    and x: "idx_find (db_tables cx) tid = Some x"
    and s: "step_back cx tid (rows_before cx (\<lambda>k. fst k \<le> tid)) = (cx', i, ko)"
    using n by (auto simp: db_previous_i64_def deref_table_def split: option.splits)
  have se: "sp_end (abs_tables cx) j = Some (table_name x)" using f x by (simp add: abs_tables_def abs_end_def)
  have e: "idx_find (ic_table_cache (ac_keyval_cache cx)) tid = Some j"
    using f find_end_iff [OF tables_okD(3) [OF ok]] by blast
  have b: "\<forall>a b. fst b \<le> tid \<longrightarrow> a \<le> b \<longrightarrow> fst a \<le> tid" by auto
  note sb = step_back_refines [OF ok x e b _ _ s, of "\<lambda>_. True", simplified]
  obtain k where "sp_rows (abs_tables cx) (table_name x, k) \<noteq> None" using table_nonempty [OF ok x] by blast
  then obtain k1 where k1: "sp_rows (abs_tables cx) (table_name x, k1) \<noteq> None" "i \<ge> 0" "ko = Some k1" "free_for (sp_handle (abs_tables cx)) i (table_name x, k1)"
      "\<And>k'. sp_rows (abs_tables cx) (table_name x, k') \<noteq> None \<Longrightarrow> k' \<le> k1"
    and a: "abs_tables cx' = (abs_tables cx)\<lparr>sp_handle := (sp_handle (abs_tables cx))(i \<mapsto> (table_name x, k1))\<rparr>"
    using sb by auto
  show ?thesis unfolding a k1(3) using sb spec_step.previous_end [OF se k1(1,5,2,4)] by blast
next
  case False
  then obtain tid k rid where g: "cache_get (ac_keyval_cache cx) j = Inr (tid, k, rid)"
    and s: "step_back cx tid (rows_before cx (\<lambda>k'. k' < (tid, k))) = (cx', i, ko)"
    using n by (auto simp: db_previous_i64_def)
  obtain r x e where h: "idx_find (db_tables cx) tid = Some x"
    "idx_find (ic_table_cache (ac_keyval_cache cx)) tid = Some e"
    "sp_handle (abs_tables cx) j = Some (table_name x, k)"
    by (rule live_handle [OF ok g])
  have b: "\<forall>a b. b < (tid, k) \<longrightarrow> a \<le> b \<longrightarrow> a < (tid, k)" using le_less_trans by blast
  have B: "(tid, k') < (tid, k) \<longleftrightarrow> k' < k" for k' by simp
  have B': "tid < fst p \<Longrightarrow> \<not> p < (tid, k)" for p by (cases p) auto
  note sb = step_back_refines [OF ok h(1,2) b B B' s]
  show ?thesis
  proof (cases "cx' = cx \<and> i = - 1 \<and> ko = None \<and> (\<forall>k'. sp_rows (abs_tables cx) (table_name x, k') \<noteq> None \<longrightarrow> \<not> k' < k)")
    case True
    have "k \<le> k'" if "sp_rows (abs_tables cx) (table_name x, k') \<noteq> None" for k' using True that by (simp add: not_less)
    with ok True show ?thesis using spec_step.previous_none [OF h(3)] by blast
  next
    case False
    then obtain k1 where k1: "sp_rows (abs_tables cx) (table_name x, k1) \<noteq> None" "k1 < k"
        "\<And>k'. sp_rows (abs_tables cx) (table_name x, k') \<noteq> None \<Longrightarrow> k' < k \<Longrightarrow> k' \<le> k1" "i \<ge> 0" "free_for (sp_handle (abs_tables cx)) i (table_name x, k1)" "ko = Some k1"
      and a: "abs_tables cx' = (abs_tables cx)\<lparr>sp_handle := (sp_handle (abs_tables cx))(i \<mapsto> (table_name x, k1))\<rparr>"
      using sb by blast
    show ?thesis unfolding a k1(6) using sb spec_step.previous_row [OF h(3) k1(1,2) k1(3,4,5)] by blast
  qed
qed

subsection \<open>Operations that change rows\<close>

lemma abs_names:
  assumes "cache_ok ic" "\<And>tid. map_option table_name (idx_find ts tid) = map_option table_name (idx_find ts' tid)"
  shows "abs_handle ts ic = abs_handle ts' ic" "abs_end ts ic = abs_end ts' ic"
proof -
  have n: "(\<exists>x. idx_find ts tid = Some x \<and> Q (table_name x)) \<longleftrightarrow> (\<exists>x. idx_find ts' tid = Some x \<and> Q (table_name x))" for tid Q
    using assms(2) [of tid] by (cases "idx_find ts tid"; cases "idx_find ts' tid") auto
  show "abs_handle ts ic = abs_handle ts' ic"
    by (rule map_eqI, unfold abs_handle_Some [OF assms(1)]) (use n in blast)
  show "abs_end ts ic = abs_end ts' ic"
    by (rule map_eqI, unfold abs_end_Some [OF assms(1)]) (use n in blast)
qed

lemma update_db_usage_frame:
  assumes "update_db_usage cv cx p d = Inr c" "idx_ok (rl_usage (db_rl cx))"
  obtains rl v u ds where "c = cx\<lparr>ac_used_authorizations := u, db_rl := rl, tc_validate_ram_usage := v,
      ac_account_ram_deltas := ds\<rparr>" "idx_ok (rl_usage rl)"
    "\<And>b. ram_of rl b = ram_of (db_rl cx) b + (if b = p then word_of_int d else 0)"
proof -
  obtain u where r: "add_ram_usage (cx\<lparr>ac_used_authorizations := u\<rparr>) p d = Inr c"
  proof (cases "d > 0 \<and> \<not> (ac_privileged cx \<or> p = ac_receiver cx)")
    case True
    with assms(1) obtain c1 where "require_authorization cx p = Inr c1" "add_ram_usage c1 p d = Inr c"
      by (auto simp: update_db_usage_def)
    with require_authorization_frame [OF this(1)] show thesis by (auto intro: that)
  next
    case False
    with assms(1) that [of "ac_used_authorizations cx"] show thesis by (auto simp: update_db_usage_def)
  qed
  show thesis
    by (rule add_ram_usage_frame [OF r]) (use assms(2) in \<open>auto intro!: that\<close>)
qed

lemma billed_tables_simps:
  assumes "idx_ok t"
  shows "idx_find t k = None \<Longrightarrow>
      billed_tables (idx_put k x t) b = billed_tables t b + (if b = ti_payer x then uint table_id_object_size else 0)"
    "idx_find t k = Some x0 \<Longrightarrow>
      billed_tables (idx_remove k t) b = billed_tables t b - (if b = ti_payer x0 then uint table_id_object_size else 0)"
    "billed_tables (idx_modify k (\<lambda>x. x\<lparr>ti_count := f x\<rparr>) t) b = billed_tables t b"
  using assms idx_total_modify [of t k]
  by (auto simp: billed_tables_def index.total_put index.total_remove idx_modify_def split: option.split)

lemma billed_rows_simps:
  assumes "idx_ok t"
  shows "idx_find t k = None \<Longrightarrow>
      billed_rows (idx_put k r t) b = billed_rows t b + (if b = kv_payer r then uint (row_bytes (kv_value r)) else 0)"
    "idx_find t k = Some r0 \<Longrightarrow>
      billed_rows (idx_remove k t) b = billed_rows t b - (if b = kv_payer r0 then uint (row_bytes (kv_value r0)) else 0)"
    "idx_find t k = Some r0 \<Longrightarrow> billed_rows (idx_modify k f t) b = billed_rows t b
        - (if b = kv_payer r0 then uint (row_bytes (kv_value r0)) else 0)
        + (if b = kv_payer (f r0) then uint (row_bytes (kv_value (f r0))) else 0)"
  using assms by (auto simp: billed_rows_def index.total_put index.total_remove idx_total_modify)

lemma table_kept:
  assumes "db_ok cx" "idx_ok (rl_usage (db_rl cx'))" "db_auth cx' = db_auth cx" "db_accounts cx' = db_accounts cx"
    "idx_ok (db_tables cx')" "idx_ok (db_key_values cx')"
    "\<And>b. ram_of (db_rl cx') b = ram_of (db_rl cx) b
       + word_of_int (billed_tables (db_tables cx') b - billed_tables (db_tables cx) b)
       + word_of_int (billed_rows (db_key_values cx') b - billed_rows (db_key_values cx) b)"
  shows "ram_kept en cx cx'"
proof -
  have "unbilled en cx' b = unbilled en cx b" for b
    unfolding unbilled_def billed_def using assms(3,4) assms(7) [of b] by simp
  moreover have "db_ok cx'" using assms(1-6) by (simp add: db_ok_def)
  ultimately show ?thesis by (simp add: ram_kept_def)
qed

lemma find_or_create_effect:
  assumes f: "find_or_create_table cv cx code scope table payer = Inr (cx1, tid)"
    and ok: "tables_ok cx" "idx_ok (rl_usage (db_rl cx))"
  obtains rl v u ds ts nt x where "cx1 = cx\<lparr>ac_used_authorizations := u, db_rl := rl, tc_validate_ram_usage := v,
      ac_account_ram_deltas := ds, db_tables := ts, db_next_table := nt\<rparr>" "idx_ok (rl_usage rl)" "db_next_table cx \<le> nt"
    "rows_wf {tid} ts nt (db_key_values cx)" "idx_find ts tid = Some x" "table_name x = (code, scope, table)"
    "\<And>b. ram_of rl b = ram_of (db_rl cx) b + word_of_int (billed_tables ts b - billed_tables (db_tables cx) b)"
    "abs_rows ts (db_key_values cx) = abs_rows (db_tables cx) (db_key_values cx)"
    "abs_handle ts (ac_keyval_cache cx) = abs_handle (db_tables cx) (ac_keyval_cache cx)"
    "abs_end ts (ac_keyval_cache cx) = abs_end (db_tables cx) (ac_keyval_cache cx)"
proof (cases "table_id (db_tables cx) (code, scope, table)")
  case (Some t)
  then have cx1: "cx1 = cx" "tid = t" using f by (simp_all add: find_or_create_table_def find_table_id)
  obtain x where "idx_find (db_tables cx) tid = Some x" "table_name x = (code, scope, table)"
    using Some cx1 table_id_iff [OF tables_okD(1) [OF ok(1)]] by blast
  then show thesis using ok(2) rows_wf_mono [OF tables_okD(1) [OF ok(1)], of "{tid}"]
    by (intro that [where rl = "db_rl cx" and v = "tc_validate_ram_usage cx" and u = "ac_used_authorizations cx"
        and ds = "ac_account_ram_deltas cx" and ts = "db_tables cx" and nt = "db_next_table cx" and x = x]) (simp_all add: cx1)
next
  case None
  let ?x = "\<lparr>ti_code = code, ti_scope = scope, ti_table = table, ti_payer = payer, ti_count = 0\<rparr>"
  let ?nt = "db_next_table cx" and ?ts = "idx_put (db_next_table cx) ?x (db_tables cx)"
  note wf = tables_okD(1) [OF ok(1)]
  note D = rows_wfD [OF wf] and cok = tables_okD(3) [OF ok(1)]
  obtain c where u: "update_db_usage cv cx payer (sint table_id_object_size) = Inr c"
    and n: "idx_find (db_tables c) (db_next_table c) = None" "tid = db_next_table c"
    and cx1: "cx1 = c\<lparr>db_tables := idx_put (db_next_table c) ?x (db_tables c), db_next_table := db_next_table c + 1\<rparr>"
    using f None by (auto simp: find_or_create_table_def find_table_id idx_create_Inr_iff Let_def)
  obtain rl v ua ds where c: "c = cx\<lparr>ac_used_authorizations := ua, db_rl := rl, tc_validate_ram_usage := v,
      ac_account_ram_deltas := ds\<rparr>" "idx_ok (rl_usage rl)"
    "\<And>b. ram_of rl b = ram_of (db_rl cx) b + (if b = payer then word_of_int (sint table_id_object_size) else 0)"
    by (rule update_db_usage_frame [OF u ok(2)], rule that)
  have fresh: "idx_find (db_tables cx) ?nt = None" using n(1) c(1) by simp
  have wf': "rows_wf {?nt} ?ts (?nt + 1) (db_key_values cx)"
    by (rule rows_wf_create [OF wf]) (use None table_id_None [OF wf] in \<open>auto simp: table_name_def\<close>)
  have find: "idx_find ?ts t = (if t = ?nt then Some ?x else idx_find (db_tables cx) t)" for t
    using D(1) by (simp add: idx_find_put)
  have rows: "idx_find (db_key_values cx) (?nt, k) = None" for k
    using fresh D(6) [of "(?nt, k)"] by (cases "idx_find (db_key_values cx) (?nt, k)") auto
  have "abs_rows ?ts (db_key_values cx) = abs_rows (db_tables cx) (db_key_values cx)"
  proof (rule map_eqI, unfold split_paired_all)
    show "abs_rows ?ts (db_key_values cx) (a, b) = Some (c', d) \<longleftrightarrow>
        abs_rows (db_tables cx) (db_key_values cx) (a, b) = Some (c', d)" for a b c' d
      unfolding abs_rows_Some [OF wf] abs_rows_Some [OF wf'] find using rows fresh by (metis option.distinct(1))
  qed
  moreover have "abs_handle ?ts (ac_keyval_cache cx) = abs_handle (db_tables cx) (ac_keyval_cache cx)"
  proof (rule map_eqI, unfold abs_handle_Some [OF cok] find)
    have "t \<noteq> ?nt" if "cache_live (ac_keyval_cache cx) (t, k, i) = Some h" for t k i h
      using cache_wfD(2) [OF tables_okD(2) [OF ok(1)] that] rows by auto
    then show "(\<exists>t k i x. cache_live (ac_keyval_cache cx) (t, k, i) = Some h \<and>
        (if t = ?nt then Some ?x else idx_find (db_tables cx) t) = Some x \<and> n = (table_name x, k)) \<longleftrightarrow>
      (\<exists>t k i x. cache_live (ac_keyval_cache cx) (t, k, i) = Some h \<and> idx_find (db_tables cx) t = Some x \<and>
        n = (table_name x, k))" for h n by metis
  qed
  moreover have "abs_end ?ts (ac_keyval_cache cx) = abs_end (db_tables cx) (ac_keyval_cache cx)"
  proof (rule map_eqI, unfold abs_end_Some [OF cok] find)
    have "t \<noteq> ?nt" if "idx_find (ic_table_cache (ac_keyval_cache cx)) t = Some e" for t e
      using tables_okD(6) [OF ok(1) that] by simp
    then show "(\<exists>t x. idx_find (ic_table_cache (ac_keyval_cache cx)) t = Some e \<and>
        (if t = ?nt then Some ?x else idx_find (db_tables cx) t) = Some x \<and> n = table_name x) \<longleftrightarrow>
      (\<exists>t x. idx_find (ic_table_cache (ac_keyval_cache cx)) t = Some e \<and> idx_find (db_tables cx) t = Some x \<and>
        n = table_name x)" for e n by metis
  qed
  ultimately show thesis
    using c(2,3) wf' find [of ?nt] billed_tables_simps(1) [OF D(1) fresh, of ?x]
    by (intro that [where rl = rl and v = v and u = ua and ds = ds and ts = ?ts and nt = "?nt + 1" and x = ?x]) (simp_all add: cx1 c(1) n(2) table_name_def)
qed

lemma abs_rows_change:
  assumes wf: "rows_wf E ts nt rs" and wf': "rows_wf F ts' nt' rs'" and t: "idx_find ts tid = Some t"
    and others: "\<And>t'. t' \<noteq> tid \<Longrightarrow> idx_find ts' t' = idx_find ts t'"
    and own: "\<And>t'. idx_find ts' tid = Some t' \<Longrightarrow> table_name t' = table_name t"
    and rows: "idx_find rs' = (idx_find rs)((tid, key) := r)" and r: "r \<noteq> None \<Longrightarrow> idx_find ts' tid \<noteq> None"
    and gone: "idx_find ts' tid = None \<Longrightarrow> (\<And>k. idx_find rs' (tid, k) = None)"
  shows "abs_rows ts' rs' = (abs_rows ts rs)((table_name t, key) := map_option (\<lambda>r. (kv_payer r, kv_value r)) r)"
proof (rule map_eqI)
  fix n :: "tname \<times> u64" and pv
  obtain tn k where n: "n = (tn, k)" by (cases n)
  show "abs_rows ts' rs' n = Some pv \<longleftrightarrow>
      ((abs_rows ts rs)((table_name t, key) := map_option (\<lambda>r. (kv_payer r, kv_value r)) r)) n = Some pv"
  proof (cases "tn = table_name t")
    case True
    have "abs_rows ts' rs' (table_name t, k) = map_option (\<lambda>r. (kv_payer r, kv_value r)) (idx_find rs' (tid, k))"
    proof (cases "idx_find ts' tid")
      case (Some t')
      then show ?thesis using abs_rows_table [OF wf' Some, of k] own by simp
    next
      case None
      have "abs_rows ts' rs' (table_name t, k) \<noteq> Some q" for q
      proof
        assume "abs_rows ts' rs' (table_name t, k) = Some q"
        then obtain t1 x where "idx_find ts' t1 = Some x" "table_name x = table_name t"
          using abs_rows_Some [OF wf'] by blast
        moreover have "t1 \<noteq> tid" using calculation None by auto
        ultimately show False using others [of t1] rows_wfD(5) [OF wf _ t, of t1 x] by simp
      qed
      then show ?thesis using gone [OF None] by (cases "abs_rows ts' rs' (table_name t, k)") auto
    qed
    then show ?thesis using True n rows abs_rows_table [OF wf t, of k] by simp
  next
    case False
    have tab: "idx_find ts' t1 = Some x \<and> table_name x = tn \<longleftrightarrow> idx_find ts t1 = Some x \<and> table_name x = tn" for t1 x
      using False others [of t1] own t by (cases "t1 = tid") auto
    have row: "idx_find rs' (t1, k) = idx_find rs (t1, k)" if "idx_find ts t1 = Some x" "table_name x = tn" for t1 x
      using that False t rows by (cases "t1 = tid") auto
    have "idx_find ts' t1 = Some x \<and> table_name x = tn \<and> idx_find rs' (t1, k) = Some r1 \<and> pv = q \<longleftrightarrow>
        idx_find ts t1 = Some x \<and> table_name x = tn \<and> idx_find rs (t1, k) = Some r1 \<and> pv = q" for t1 x r1 q
      using tab [of t1 x] row [of t1 x] by auto
    then have "abs_rows ts' rs' (tn, k) = Some pv \<longleftrightarrow> abs_rows ts rs (tn, k) = Some pv"
      unfolding abs_rows_Some [OF wf] abs_rows_Some [OF wf'] by (simp only:)
    then show ?thesis using False n by simp
  qed
qed

text \<open>The table part of storing a row: the count of the table, the row, and the two entries of the cache.\<close>

lemma store_row:
  assumes wf: "rows_wf {tid} ts nt rs" and x: "idx_find ts tid = Some x" and none: "idx_find rs (tid, key) = None"
    and bound: "length rs + 1 < 2 ^ 32" and cwf: "cache_wf rs ic"
    and ts': "ts' = idx_modify tid (\<lambda>t. t\<lparr>ti_count := ti_count t + 1\<rparr>) ts"
    and rs': "rs' = idx_put (tid, key) r rs"
    and ic': "ic' = fst (cache_add (fst (cache_table ic tid)) (tid, key, kv_id r))"
    and i: "i = snd (cache_add (fst (cache_table ic tid)) (tid, key, kv_id r))"
  shows "rows_wf {} ts' nt rs'" "cache_wf rs' ic'"
    "abs_rows ts' rs' = (abs_rows ts rs)((table_name x, key) \<mapsto> (kv_payer r, kv_value r))"
    "abs_handle ts' ic' = (abs_handle ts ic)(i \<mapsto> (table_name x, key))"
    "abs_end ts' ic' = (abs_end ts ic)(snd (cache_table ic tid) \<mapsto> table_name x)"
    "abs_handle ts ic i = None" "i \<ge> 0"
proof -
  note cok = cache_wfD(1) [OF cwf]
  let ?ic = "fst (cache_table ic tid)"
  note cok1 = cache_table_ok [OF cok, of tid] and oks = rows_wfD(1,2) [OF wf]
  show wf': "rows_wf {} ts' nt rs'" unfolding ts' rs' by (rule rows_wf_put [OF wf x none bound])
  have row: "idx_find rs' (tid, key) = Some r" using oks by (simp add: rs' idx_find_put)
  have "cache_wf rs' ?ic"
    by (rule cache_wf_rows [OF cache_wf_table [OF cwf]]) (use none oks in \<open>auto simp: rs' idx_find_put\<close>)
  then show "cache_wf rs' ic'" unfolding ic'
    by (rule cache_wf_add [OF _ row]) (simp_all add: cache_table_find cok)
  have names: "map_option table_name (idx_find ts' t) = map_option table_name (idx_find ts t)" for t
    using oks(1) by (cases "t = tid"; cases "idx_find ts t") (auto simp: ts' idx_find_modify)
  have x': "idx_find ts' tid = Some (x\<lparr>ti_count := ti_count x + 1\<rparr>)" using oks(1) x by (simp add: ts' idx_find_modify)
  show "abs_rows ts' rs' = (abs_rows ts rs)((table_name x, key) \<mapsto> (kv_payer r, kv_value r))"
    by (subst abs_rows_change [OF wf wf' x, of key "Some r"]) (use oks x' in \<open>auto simp: ts' rs' idx_find_modify idx_find_put\<close>)
  show "abs_handle ts' ic' = (abs_handle ts ic)(i \<mapsto> (table_name x, key))"
    using abs_handle_add [OF cok1 x', of key] abs_names(1) [OF cok names] cok by (simp add: abs_handle_table ic' i)
  show "abs_end ts' ic' = (abs_end ts ic)(snd (cache_table ic tid) \<mapsto> table_name x)"
    using abs_end_add [OF cok1] abs_end_table [OF cok x'] abs_names(2) [OF cok names] by (simp add: ic')
  have notlive: "cache_live ?ic (tid, key, kv_id r) = None"
    using cache_wfD(2) [OF cwf, of tid key] none by (cases "cache_live ic (tid, key, kv_id r)") auto
  have "\<not> (\<exists>n. abs_handle ts ic i = Some n)"
  proof
    assume "\<exists>n. abs_handle ts ic i = Some n"
    then obtain q where "cache_live ic q = Some i" using abs_handle_Some [OF cok] by blast
    then show False using handles.add_fresh [OF cok1 notlive, of q] i by simp
  qed
  then show "abs_handle ts ic i = None" by (metis not_Some_eq)
  show "i \<ge> 0" using cache_add_handle [OF cok1] i by simp
qed

lemma db_store_effect:
  assumes s: "db_store_i64 cv cx code scope table payer key buffer = Inr (cx', i)"
    and ok: "tables_ok cx" "db_ok cx" and bound: "length (db_key_values cx) + 1 < 2 ^ 32"
  shows "tables_ok cx' \<and> ram_kept en cx cx' \<and>
    sp_rows (abs_tables cx) ((code, scope, table), key) = None \<and> payer \<noteq> 0 \<and> sp_handle (abs_tables cx) i = None \<and> i \<ge> 0 \<and>
    (\<exists>e < - 1. free_for (sp_end (abs_tables cx)) e (code, scope, table) \<and> abs_tables cx' = (abs_tables cx)\<lparr>sp_rows := (sp_rows (abs_tables cx))(((code, scope, table), key) \<mapsto> (payer, buffer)),
         sp_handle := (sp_handle (abs_tables cx))(i \<mapsto> ((code, scope, table), key)),
         sp_end := (sp_end (abs_tables cx))(e \<mapsto> (code, scope, table))\<rparr>)"
proof -
  let ?rs = "db_key_values cx" and ?ic = "ac_keyval_cache cx"
  let ?r = "\<lparr>kv_id = db_next_key_value cx, kv_payer = payer, kv_value = buffer\<rparr>"
  obtain cx1 tid where f: "find_or_create_table cv cx code scope table payer = Inr (cx1, tid)"
    using s by (auto simp: db_store_i64_def)
  obtain rl v u ds ts nt x where cx1: "cx1 = cx\<lparr>ac_used_authorizations := u, db_rl := rl, tc_validate_ram_usage := v,
      ac_account_ram_deltas := ds, db_tables := ts, db_next_table := nt\<rparr>" and rl: "idx_ok (rl_usage rl)"
    and nt: "db_next_table cx \<le> nt" and wf: "rows_wf {tid} ts nt ?rs" and x: "idx_find ts tid = Some x"
    and name: "table_name x = (code, scope, table)"
    and ram: "\<And>b. ram_of rl b = ram_of (db_rl cx) b + word_of_int (billed_tables ts b - billed_tables (db_tables cx) b)"
    and abs: "abs_rows ts ?rs = abs_rows (db_tables cx) ?rs" "abs_handle ts ?ic = abs_handle (db_tables cx) ?ic"
      "abs_end ts ?ic = abs_end (db_tables cx) ?ic"
    by (rule find_or_create_effect [OF f ok(1) db_ok_usage [OF ok(2)]], rule that)
  let ?ts = "idx_modify tid (\<lambda>t. t\<lparr>ti_count := ti_count t + 1\<rparr>) ts" and ?rs' = "idx_put (tid, key) ?r ?rs"
  let ?c = "cx1\<lparr>db_key_values := ?rs', db_next_key_value := db_next_key_value cx + 1, db_tables := ?ts\<rparr>"
  obtain c2 where p: "payer \<noteq> 0" and none: "idx_find ?rs (tid, key) = None"
    and u2: "update_db_usage cv ?c payer (sint (of_nat (length buffer) + key_value_object_size)) = Inr c2"
    and fin: "(cx', i) = keyval_add (fst (keyval_cache_table c2 tid)) (tid, key, db_next_key_value cx)"
    using s f by (auto simp: db_store_i64_def cx1 idx_create_Inr_iff Let_def case_prod_beta)
  obtain rl2 v2 ua2 ds2 where c2: "c2 = ?c\<lparr>ac_used_authorizations := ua2, db_rl := rl2, tc_validate_ram_usage := v2,
      ac_account_ram_deltas := ds2\<rparr>" and rl2: "idx_ok (rl_usage rl2)"
    and ram2: "\<And>b. ram_of rl2 b = ram_of (db_rl ?c) b
      + (if b = payer then word_of_int (sint (of_nat (length buffer) + key_value_object_size)) else 0)"
    by (rule update_db_usage_frame [OF u2], simp add: cx1 rl, rule that)
  define ic' where "ic' = fst (cache_add (fst (cache_table ?ic tid)) (tid, key, kv_id ?r))"
  have i: "i = snd (cache_add (fst (cache_table ?ic tid)) (tid, key, kv_id ?r))"
    and db: "db_tables cx' = ?ts" "db_next_table cx' = nt" "db_key_values cx' = ?rs'" "db_rl cx' = rl2"
      "db_auth cx' = db_auth cx" "db_accounts cx' = db_accounts cx" "ac_keyval_cache cx' = ic'"
    using fin by (simp_all add: keyval_eqs c2 cx1 ic'_def)
  note row = store_row [OF wf x none bound tables_okD(2) [OF ok(1)] refl refl ic'_def i]
  have "idx_find (ic_table_cache ic') t = Some e \<Longrightarrow> t < nt" for t e
    using tables_okD(6) [OF ok(1), of t e] nt rows_wfD(4) [OF wf x]
    by (auto simp: ic'_def cache_table_find [OF tables_okD(3) [OF ok(1)]] split: if_splits)
  with row(1,2) have tok: "tables_ok cx'" by (simp add: tables_ok_def db)
  have kept: "ram_kept en cx cx'"
  proof (rule table_kept [OF ok(2)])
    fix b
    show "ram_of (db_rl cx') b = ram_of (db_rl cx) b
       + word_of_int (billed_tables (db_tables cx') b - billed_tables (db_tables cx) b)
       + word_of_int (billed_rows (db_key_values cx') b - billed_rows (db_key_values cx) b)"
      unfolding db ram2 using ram [of b] billed_rows_simps(1) [OF rows_wfD(2) [OF wf] none, of ?r b]
        billed_tables_simps(3) [OF rows_wfD(1) [OF wf]]
      by (simp add: cx1 row_bytes_def)
  qed (use rows_wfD(1,2) [OF row(1)] in \<open>simp_all add: db rl2\<close>)
  have "sp_rows (abs_tables cx) ((code, scope, table), key) = None" "sp_handle (abs_tables cx) i = None"
    using abs_rows_table [OF wf x, of key] none name abs(1,2) row(6) by (simp_all add: abs_tables_def)
  moreover have "abs_tables cx' = (abs_tables cx)\<lparr>sp_rows := (sp_rows (abs_tables cx))(((code, scope, table), key) \<mapsto> (payer, buffer)),
         sp_handle := (sp_handle (abs_tables cx))(i \<mapsto> ((code, scope, table), key)),
         sp_end := (sp_end (abs_tables cx))(snd (cache_table ?ic tid) \<mapsto> (code, scope, table))\<rparr>"
    unfolding abs_tables_def db row(3-5) abs name by simp
  moreover have "snd (cache_table ?ic tid) < - 1" "free_for (sp_end (abs_tables cx)) (snd (cache_table ?ic tid)) (code, scope, table)"
    using cache_table_end [OF tables_okD(3) [OF ok(1)]] abs_end_free [OF tables_okD(3) [OF ok(1)] x] abs(3) name
    by (simp_all add: abs_tables_def)
  ultimately show ?thesis using tok kept p row(7) by blast
qed

lemma rebill_frame:
  assumes "rebill_row cv cx old_payer payer old_size new_size = Inr c" "idx_ok (rl_usage (db_rl cx))"
  obtains rl v u ds where "c = cx\<lparr>ac_used_authorizations := u, db_rl := rl, tc_validate_ram_usage := v,
      ac_account_ram_deltas := ds\<rparr>" "idx_ok (rl_usage rl)"
    "\<And>b. ram_of rl b = ram_of (db_rl cx) b - (if b = old_payer then word_of_int old_size else 0)
       + (if b = payer then word_of_int new_size else 0)"
proof (cases "old_payer = payer")
  case False
  with assms(1) obtain c1 where u1: "update_db_usage cv cx old_payer (wrap_i64 (- old_size)) = Inr c1"
    and u2: "update_db_usage cv c1 payer new_size = Inr c" by (auto simp: rebill_row_def)
  obtain rl v u ds where c1: "c1 = cx\<lparr>ac_used_authorizations := u, db_rl := rl, tc_validate_ram_usage := v,
      ac_account_ram_deltas := ds\<rparr>" "idx_ok (rl_usage rl)"
    "\<And>b. ram_of rl b = ram_of (db_rl cx) b + (if b = old_payer then word_of_int (wrap_i64 (- old_size)) else 0)"
    by (rule update_db_usage_frame [OF u1 assms(2)], rule that)
  have rl1: "idx_ok (rl_usage (db_rl c1))" using c1(1,2) by simp
  obtain rl2 v2 ua2 ds2 where c: "c = c1\<lparr>ac_used_authorizations := ua2, db_rl := rl2, tc_validate_ram_usage := v2,
      ac_account_ram_deltas := ds2\<rparr>" "idx_ok (rl_usage rl2)"
    "\<And>b. ram_of rl2 b = ram_of (db_rl c1) b + (if b = payer then word_of_int new_size else 0)"
    by (rule update_db_usage_frame [OF u2 rl1], rule that)
  show thesis
    by (rule that [where rl = rl2 and v = v2 and u = ua2 and ds = ds2]) (simp_all add: c c1)
next
  case True
  show thesis
  proof (cases "old_size = new_size")
    case True
    with \<open>old_payer = payer\<close> assms show thesis
      by (intro that [where rl = "db_rl cx" and v = "tc_validate_ram_usage cx" and u = "ac_used_authorizations cx"
        and ds = "ac_account_ram_deltas cx"]) (simp_all add: rebill_row_def)
  next
    case False
    with assms(1) True have u: "update_db_usage cv cx payer (wrap_i64 (new_size - old_size)) = Inr c"
      by (simp add: rebill_row_def)
    obtain rl v ua ds where c: "c = cx\<lparr>ac_used_authorizations := ua, db_rl := rl, tc_validate_ram_usage := v,
        ac_account_ram_deltas := ds\<rparr>" "idx_ok (rl_usage rl)"
      "\<And>b. ram_of rl b = ram_of (db_rl cx) b + (if b = payer then word_of_int (wrap_i64 (new_size - old_size)) else 0)"
      by (rule update_db_usage_frame [OF u assms(2)], rule that)
    show thesis by (rule that [where rl = rl and v = v and u = ua and ds = ds]) (simp_all add: c True)
  qed
qed

lemma db_update_frame:
  assumes s: "db_update_i64 cv cx j payer buffer = Inr cx'" and g: "cache_get (ac_keyval_cache cx) j = Inr (tid, k, rid)"
    and h: "idx_find (db_key_values cx) (tid, k) = Some r" "kv_id r = rid" "idx_find (db_tables cx) tid = Some x"
      "idx_find (ic_table_cache (ac_keyval_cache cx)) tid = Some e"
    and ok: "idx_ok (rl_usage (db_rl cx))" and p: "p = (if payer = 0 then kv_payer r else payer)"
  shows "ti_code x = ac_receiver cx" "db_tables cx' = db_tables cx" "db_next_table cx' = db_next_table cx"
    "db_key_values cx' = idx_modify (tid, k) (\<lambda>r. r\<lparr>kv_value := buffer, kv_payer := p\<rparr>) (db_key_values cx)"
    "db_auth cx' = db_auth cx" "db_accounts cx' = db_accounts cx" "idx_ok (rl_usage (db_rl cx'))"
    "ac_keyval_cache cx' = ac_keyval_cache cx"
    "\<And>b. ram_of (db_rl cx') b = ram_of (db_rl cx) b - (if b = kv_payer r then row_bytes (kv_value r) else 0)
       + (if b = p then row_bytes buffer else 0)"
proof -
  obtain c where rec: "ti_code x = ac_receiver cx"
    and b: "rebill_row cv cx (kv_payer r) p (sint (row_bytes (kv_value r))) (sint (row_bytes buffer)) = Inr c"
    and cx': "cx' = c\<lparr>db_key_values := idx_modify (tid, k) (\<lambda>r. r\<lparr>kv_value := buffer, kv_payer := p\<rparr>) (db_key_values c)\<rparr>"
    using s g h by (auto simp: db_update_i64_def cache_get_table_def deref_table_def Let_def p row_bytes_def)
  obtain rl v u ds where c: "c = cx\<lparr>ac_used_authorizations := u, db_rl := rl, tc_validate_ram_usage := v,
      ac_account_ram_deltas := ds\<rparr>" "idx_ok (rl_usage rl)"
    "\<And>b. ram_of rl b = ram_of (db_rl cx) b - (if b = kv_payer r then word_of_int (sint (row_bytes (kv_value r))) else 0)
       + (if b = p then word_of_int (sint (row_bytes buffer)) else 0)"
    by (rule rebill_frame [OF b ok], rule that)
  show "ti_code x = ac_receiver cx" by (rule rec)
  show "db_tables cx' = db_tables cx" "db_next_table cx' = db_next_table cx"
    "db_key_values cx' = idx_modify (tid, k) (\<lambda>r. r\<lparr>kv_value := buffer, kv_payer := p\<rparr>) (db_key_values cx)"
    "db_auth cx' = db_auth cx" "db_accounts cx' = db_accounts cx" "idx_ok (rl_usage (db_rl cx'))"
    "ac_keyval_cache cx' = ac_keyval_cache cx"
    by (simp_all add: cx' c)
  show "ram_of (db_rl cx') b = ram_of (db_rl cx) b - (if b = kv_payer r then row_bytes (kv_value r) else 0)
       + (if b = p then row_bytes buffer else 0)" for b by (simp add: cx' c)
qed

lemma db_update_effect:
  assumes s: "db_update_i64 cv cx j payer buffer = Inr cx'" and ok: "tables_ok cx" "db_ok cx"
  shows "tables_ok cx' \<and> ram_kept en cx cx' \<and> spec_step (ac_receiver cx) (abs_tables cx) (Update j payer buffer) (number 0) (abs_tables cx')"
proof -
  obtain tid k rid where g: "cache_get (ac_keyval_cache cx) j = Inr (tid, k, rid)"
    using s by (auto simp: db_update_i64_def)
  obtain r x e where h: "idx_find (db_key_values cx) (tid, k) = Some r" "kv_id r = rid"
    "idx_find (db_tables cx) tid = Some x" "idx_find (ic_table_cache (ac_keyval_cache cx)) tid = Some e"
    "sp_handle (abs_tables cx) j = Some (table_name x, k)" by (rule live_handle [OF ok(1) g])
  define p where "p = (if payer = 0 then kv_payer r else payer)"
  let ?f = "\<lambda>r. r\<lparr>kv_value := buffer, kv_payer := p\<rparr>"
  note fr = db_update_frame [OF s g h(1-4) db_ok_usage [OF ok(2)] p_def]
  note wf = tables_okD(1) [OF ok(1)]
  note oks = rows_wfD(1,2) [OF wf]
  have wf': "rows_wf {} (db_tables cx) (db_next_table cx) (idx_modify (tid, k) ?f (db_key_values cx))"
    by (rule rows_wf_modify [OF wf h(1)])
  have "cache_wf (idx_modify (tid, k) ?f (db_key_values cx)) (ac_keyval_cache cx)"
    by (rule cache_wf_rows [OF tables_okD(2) [OF ok(1)]]) (use oks h(1) in \<open>auto simp: idx_find_modify\<close>)
  then have tok: "tables_ok cx'" using wf' ok(1) by (simp add: tables_ok_def fr(2-8))
  have kept: "ram_kept en cx cx'"
    by (rule table_kept [OF ok(2)])
      (use oks rows_wfD(2) [OF wf'] billed_rows_simps(3) [OF oks(2) h(1), of ?f] in \<open>simp_all add: fr(2-9)\<close>)
  have abs: "abs_rows (db_tables cx) (idx_modify (tid, k) ?f (db_key_values cx))
      = (abs_rows (db_tables cx) (db_key_values cx))((table_name x, k) \<mapsto> (p, buffer))"
    by (subst abs_rows_change [OF wf wf' h(3), of k "Some (?f r)"]) (use oks h in \<open>auto simp: idx_find_modify\<close>)
  have row: "sp_rows (abs_tables cx) (table_name x, k) = Some (kv_payer r, kv_value r)"
    using abs_rows_table [OF wf h(3), of k] h(1) by (simp add: abs_tables_def)
  have "fst (table_name x) = ac_receiver cx" using fr(1) by (simp add: table_name_def)
  note st = spec_step.update [OF h(5) this row, of payer buffer]
  have "abs_tables cx' = (abs_tables cx)\<lparr>sp_rows := (sp_rows (abs_tables cx))((table_name x, k) \<mapsto> (p, buffer))\<rparr>"
    by (simp add: abs_tables_def fr(2-8) abs)
  then show ?thesis using tok kept st by (simp add: p_def)
qed

text \<open>The table part of removing a row: the table goes with its last row.\<close>

lemma remove_row:
  assumes wf: "rows_wf {} ts nt rs" and x: "idx_find ts tid = Some x" and r: "idx_find rs (tid, key) = Some r"
    and ts1: "ts1 = idx_modify tid (\<lambda>t. t\<lparr>ti_count := ti_count t - 1\<rparr>) ts" and rs': "rs' = idx_remove (tid, key) rs"
    and ts': "ts' = (if ti_count x - 1 = 0 then idx_remove tid ts1 else ts1)"
  shows "rows_wf {} ts' nt rs'" "abs_rows ts' rs' = (abs_rows ts rs)((table_name x, key) := None)"
    "\<And>t. idx_find ts' t = (if t = tid then if \<forall>k. idx_find rs' (tid, k) = None then None
        else Some (x\<lparr>ti_count := ti_count x - 1\<rparr>) else idx_find ts t)"
    "\<And>b. billed_tables ts' b = billed_tables ts b
       - (if ti_count x - 1 = 0 \<and> b = ti_payer x then uint table_id_object_size else 0)"
proof -
  note oks = rows_wfD(1,2) [OF wf]
  have wf1: "rows_wf {tid} ts1 nt rs'" unfolding ts1 rs' by (rule rows_wf_remove [OF wf x r])
  have x1: "idx_find ts1 t = (if t = tid then Some (x\<lparr>ti_count := ti_count x - 1\<rparr>) else idx_find ts t)" for t
    using x oks(1) by (simp add: ts1 idx_find_modify)
  have zero: "ti_count x - 1 = 0 \<longleftrightarrow> table_rows rs' tid = 0"
    using count_zero_iff [OF wf1, of tid] x1 by simp
  show wf': "rows_wf {} ts' nt rs'"
    using rows_wf_drop [OF wf1] rows_wf_nonempty [OF wf1] zero by (simp add: ts')
  have none: "(\<forall>k. idx_find rs' (tid, k) = None) \<longleftrightarrow> ti_count x - 1 = 0"
  proof
    assume "\<forall>k. idx_find rs' (tid, k) = None"
    then show "ti_count x - 1 = 0" using zero table_rows_zero [OF rows_wfD(2) [OF wf1]] by simp
  next
    assume z: "ti_count x - 1 = 0"
    then have "idx_find ts' tid = None" by (simp add: ts' idx_find_remove)
    then show "\<forall>k. idx_find rs' (tid, k) = None" using rows_wfD(6) [OF wf'] by (metis fst_conv not_None_eq)
  qed
  show find: "idx_find ts' t = (if t = tid then if \<forall>k. idx_find rs' (tid, k) = None then None
        else Some (x\<lparr>ti_count := ti_count x - 1\<rparr>) else idx_find ts t)" for t
    unfolding none by (simp add: ts' idx_find_remove x1)
  show "abs_rows ts' rs' = (abs_rows ts rs)((table_name x, key) := None)"
    by (subst abs_rows_change [OF wf wf' x, of key None]) (use find in \<open>auto simp: rs' idx_find_remove split: if_splits\<close>)
  show "billed_tables ts' b = billed_tables ts b
       - (if ti_count x - 1 = 0 \<and> b = ti_payer x then uint table_id_object_size else 0)" for b
    using billed_tables_simps(2) [OF rows_wfD(1) [OF wf1], of tid] billed_tables_simps(3) [OF oks(1)] x1 [of tid]
    by (auto simp: ts' ts1)
qed

lemma remove_table_frame:
  assumes "(if z then remove_table cv cx tid else Inr cx) = Inr c" "idx_ok (rl_usage (db_rl cx))"
    "idx_find (db_tables cx) tid = Some x"
  obtains rl v u ds where "c = cx\<lparr>ac_used_authorizations := u, db_rl := rl, tc_validate_ram_usage := v,
      ac_account_ram_deltas := ds, db_tables := (if z then idx_remove tid (db_tables cx) else db_tables cx)\<rparr>"
    "idx_ok (rl_usage rl)"
    "\<And>b. ram_of rl b = ram_of (db_rl cx) b - (if z \<and> b = ti_payer x then table_id_object_size else 0)"
proof (cases z)
  case False
  with assms show thesis
    by (intro that [where rl = "db_rl cx" and v = "tc_validate_ram_usage cx" and u = "ac_used_authorizations cx"
        and ds = "ac_account_ram_deltas cx"]) simp_all
next
  case True
  with assms(1,3) obtain c1 where u1: "update_db_usage cv cx (ti_payer x) (sint (- table_id_object_size)) = Inr c1"
    and c: "c = c1\<lparr>db_tables := idx_remove tid (db_tables c1)\<rparr>"
    by (auto simp: remove_table_def deref_table_def)
  obtain rl v ua ds where c1: "c1 = cx\<lparr>ac_used_authorizations := ua, db_rl := rl, tc_validate_ram_usage := v,
      ac_account_ram_deltas := ds\<rparr>" "idx_ok (rl_usage rl)"
    "\<And>b. ram_of rl b = ram_of (db_rl cx) b + (if b = ti_payer x then word_of_int (sint (- table_id_object_size)) else 0)"
    by (rule update_db_usage_frame [OF u1 assms(2)], rule that)
  show thesis by (rule that [where rl = rl and v = v and u = ua and ds = ds]) (simp_all add: c c1 True)
qed

lemma remove_cache:
  assumes wf: "rows_wf {} ts nt rs" and cwf: "cache_wf rs ic" and x: "idx_find ts tid = Some x"
    and l: "cache_live ic (tid, key, rid) = Some j" and rm: "cache_remove ic j = Inr ic'"
    and ts': "\<And>t. idx_find ts' t = (if t = tid then if \<forall>k. idx_find (idx_remove (tid, key) rs) (tid, k) = None then None
        else Some (x\<lparr>ti_count := n\<rparr>) else idx_find ts t)"
    and rows: "\<And>k. rows (table_name x, k) = None \<longleftrightarrow> idx_find (idx_remove (tid, key) rs) (tid, k) = None"
  shows "cache_wf (idx_remove (tid, key) rs) ic'" "abs_handle ts' ic' = (abs_handle ts ic)(j := None)"
    "abs_end ts' ic' = (\<lambda>e. if abs_end ts ic e = Some (table_name x) \<and> (\<forall>k'. rows (table_name x, k') = None)
       then None else abs_end ts ic e)"
proof -
  note cok = cache_wfD(1) [OF cwf]
  let ?rs = "idx_remove (tid, key) rs"
  have ic': "cache_wf ?rs ic'" "cache_live ic' = (cache_live ic)((tid, key, rid) := None)"
    using cache_wf_remove [OF cwf l rows_wfD(2) [OF wf]] rm by auto
  then show "cache_wf ?rs ic'" by simp
  note cok' = cache_wfD(1) [OF ic'(1)]
  have tc: "ic_table_cache ic' = ic_table_cache ic" by (rule cache_remove_table_cache [OF rm])
  have live: "cache_live ic' (t, k, i) = Some h \<and> (\<exists>x. idx_find ts' t = Some x \<and> m = (table_name x, k)) \<longleftrightarrow>
      h \<noteq> j \<and> cache_live ic (t, k, i) = Some h \<and> (\<exists>x. idx_find ts t = Some x \<and> m = (table_name x, k))" for t k i h m
  proof (cases "cache_live ic' (t, k, i) = Some h")
    case True
    then have q: "cache_live ic (t, k, i) = Some h" "(t, k, i) \<noteq> (tid, key, rid)"
      by (auto simp: ic'(2) split: if_splits)
    have "h \<noteq> j" using handles.live_inj [OF cok q(1), of "(tid, key, rid)"] l q(2) by auto
    moreover have "idx_find ?rs (t, k) \<noteq> None" using cache_wfD(2) [OF ic'(1) True] by auto
    ultimately show ?thesis using True q(1) x ts' [of t] by (cases "t = tid") auto
  next
    case False
    then have "h = j \<or> cache_live ic (t, k, i) \<noteq> Some h" using l by (auto simp: ic'(2) split: if_splits)
    with False show ?thesis by auto
  qed
  show "abs_handle ts' ic' = (abs_handle ts ic)(j := None)"
  proof (rule map_eqI)
    fix h m
    have "abs_handle ts' ic' h = Some m \<longleftrightarrow> h \<noteq> j \<and> abs_handle ts ic h = Some m"
      unfolding abs_handle_Some [OF cok'] abs_handle_Some [OF cok] using live [of _ _ _ h m] by blast
    then show "abs_handle ts' ic' h = Some m \<longleftrightarrow> ((abs_handle ts ic)(j := None)) h = Some m" by simp
  qed
  let ?gone = "\<forall>k. idx_find ?rs (tid, k) = None"
  show "abs_end ts' ic' = (\<lambda>e. if abs_end ts ic e = Some (table_name x) \<and> (\<forall>k'. rows (table_name x, k') = None)
       then None else abs_end ts ic e)"
  proof (rule map_eqI)
    fix e m
    have t: "(\<exists>y. idx_find ts' t = Some y \<and> m = table_name y) \<longleftrightarrow>
        (\<exists>y. idx_find ts t = Some y \<and> m = table_name y) \<and> \<not> (?gone \<and> m = table_name x)" for t
    proof (cases "t = tid")
      case True
      then show ?thesis using ts' [of t] x by auto
    next
      case False
      have "table_name y \<noteq> table_name x" if "idx_find ts t = Some y" for y
        using rows_wfD(5) [OF wf that x] False by blast
      then show ?thesis using ts' [of t] False by auto
    qed
    have "abs_end ts' ic' e = Some m \<longleftrightarrow> abs_end ts ic e = Some m \<and> \<not> (?gone \<and> m = table_name x)"
      unfolding abs_end_Some [OF cok'] abs_end_Some [OF cok] tc using t by blast
    then show "abs_end ts' ic' e = Some m \<longleftrightarrow>
        (if abs_end ts ic e = Some (table_name x) \<and> (\<forall>k'. rows (table_name x, k') = None)
         then None else abs_end ts ic e) = Some m"
      unfolding rows by auto
  qed
qed

lemma db_remove_frame:
  assumes s: "db_remove_i64 cv cx j = Inr cx'" and g: "cache_get (ac_keyval_cache cx) j = Inr (tid, k, rid)"
    and h: "idx_find (db_key_values cx) (tid, k) = Some r" "kv_id r = rid" "idx_find (db_tables cx) tid = Some x"
      "idx_find (ic_table_cache (ac_keyval_cache cx)) tid = Some e"
    and ok: "idx_ok (db_tables cx)" "idx_ok (rl_usage (db_rl cx))"
    and ts1: "ts1 = idx_modify tid (\<lambda>t. t\<lparr>ti_count := ti_count t - 1\<rparr>) (db_tables cx)"
  shows "ti_code x = ac_receiver cx"
    "db_tables cx' = (if ti_count x - 1 = 0 then idx_remove tid ts1 else ts1)" "db_next_table cx' = db_next_table cx"
    "db_key_values cx' = idx_remove (tid, k) (db_key_values cx)" "db_auth cx' = db_auth cx" "db_accounts cx' = db_accounts cx"
    "idx_ok (rl_usage (db_rl cx'))" "cache_remove (ac_keyval_cache cx) j = Inr (ac_keyval_cache cx')"
    "\<And>b. ram_of (db_rl cx') b = ram_of (db_rl cx) b - (if b = kv_payer r then row_bytes (kv_value r) else 0)
       - (if ti_count x - 1 = 0 \<and> b = ti_payer x then table_id_object_size else 0)"
proof -
  let ?z = "ti_count x - 1 = 0"
  have all: "ti_code x = ac_receiver cx \<and> (\<exists>c1. update_db_usage cv cx (kv_payer r) (sint (- row_bytes (kv_value r))) = Inr c1 \<and>
      (\<exists>c2. (if ?z then remove_table cv (c1\<lparr>db_tables := idx_modify tid (\<lambda>t. t\<lparr>ti_count := ti_count t - 1\<rparr>) (db_tables c1),
          db_key_values := idx_remove (tid, k) (db_key_values c1)\<rparr>) tid
        else Inr (c1\<lparr>db_tables := idx_modify tid (\<lambda>t. t\<lparr>ti_count := ti_count t - 1\<rparr>) (db_tables c1),
          db_key_values := idx_remove (tid, k) (db_key_values c1)\<rparr>)) = Inr c2 \<and>
      (\<exists>ic. cache_remove (ac_keyval_cache c2) j = Inr ic \<and> c2\<lparr>ac_keyval_cache := ic\<rparr> = cx')))"
    using s g h
    by (simp add: db_remove_i64_def cache_get_table_def deref_table_def Let_def row_bytes_def cong: if_cong split del: if_split)
  then show "ti_code x = ac_receiver cx" by blast
  from all obtain c1 c2 ic where u1: "update_db_usage cv cx (kv_payer r) (sint (- row_bytes (kv_value r))) = Inr c1"
    and rt: "(if ?z then remove_table cv (c1\<lparr>db_tables := idx_modify tid (\<lambda>t. t\<lparr>ti_count := ti_count t - 1\<rparr>) (db_tables c1),
        db_key_values := idx_remove (tid, k) (db_key_values c1)\<rparr>) tid
      else Inr (c1\<lparr>db_tables := idx_modify tid (\<lambda>t. t\<lparr>ti_count := ti_count t - 1\<rparr>) (db_tables c1),
        db_key_values := idx_remove (tid, k) (db_key_values c1)\<rparr>)) = Inr c2"
    and rm: "cache_remove (ac_keyval_cache c2) j = Inr ic" and cx': "c2\<lparr>ac_keyval_cache := ic\<rparr> = cx'"
    by (elim conjE exE) (rule that)
  obtain rl v u ds where c1: "c1 = cx\<lparr>ac_used_authorizations := u, db_rl := rl, tc_validate_ram_usage := v,
      ac_account_ram_deltas := ds\<rparr>" "idx_ok (rl_usage rl)"
    "\<And>b. ram_of rl b = ram_of (db_rl cx) b + (if b = kv_payer r then word_of_int (sint (- row_bytes (kv_value r))) else 0)"
    by (rule update_db_usage_frame [OF u1 ok(2)], rule that)
  let ?c = "c1\<lparr>db_tables := ts1, db_key_values := idx_remove (tid, k) (db_key_values cx)\<rparr>"
  have f: "db_tables c1 = db_tables cx" "db_key_values c1 = db_key_values cx" by (simp_all add: c1(1))
  have x1: "idx_find (db_tables ?c) tid = Some (x\<lparr>ti_count := ti_count x - 1\<rparr>)" and rl1: "idx_ok (rl_usage (db_rl ?c))"
    using h(3) ok c1(1,2) by (simp_all add: ts1 idx_find_modify)
  obtain rl2 v2 ua2 ds2 where c2: "c2 = ?c\<lparr>ac_used_authorizations := ua2, db_rl := rl2, tc_validate_ram_usage := v2,
      ac_account_ram_deltas := ds2, db_tables := (if ?z then idx_remove tid (db_tables ?c) else db_tables ?c)\<rparr>"
    "idx_ok (rl_usage rl2)"
    "\<And>b. ram_of rl2 b = ram_of (db_rl ?c) b - (if ?z \<and> b = ti_payer (x\<lparr>ti_count := ti_count x - 1\<rparr>) then table_id_object_size else 0)"
    by (rule remove_table_frame [OF rt [unfolded f, folded ts1] rl1 x1], rule that)
  show "db_tables cx' = (if ti_count x - 1 = 0 then idx_remove tid ts1 else ts1)" "db_next_table cx' = db_next_table cx"
    "db_key_values cx' = idx_remove (tid, k) (db_key_values cx)" "db_auth cx' = db_auth cx" "db_accounts cx' = db_accounts cx"
    "idx_ok (rl_usage (db_rl cx'))" "cache_remove (ac_keyval_cache cx) j = Inr (ac_keyval_cache cx')"
    using rm by (simp_all add: cx' [symmetric] c2 c1)
  show "ram_of (db_rl cx') b = ram_of (db_rl cx) b - (if b = kv_payer r then row_bytes (kv_value r) else 0)
       - (if ti_count x - 1 = 0 \<and> b = ti_payer x then table_id_object_size else 0)" for b
    by (simp add: cx' [symmetric] c2 c1)
qed

lemma db_remove_effect:
  assumes s: "db_remove_i64 cv cx j = Inr cx'" and ok: "tables_ok cx" "db_ok cx"
  shows "tables_ok cx' \<and> ram_kept en cx cx' \<and> spec_step (ac_receiver cx) (abs_tables cx) (Remove j) (number 0) (abs_tables cx')"
proof -
  obtain tid k rid where g: "cache_get (ac_keyval_cache cx) j = Inr (tid, k, rid)"
    using s by (auto simp: db_remove_i64_def)
  obtain r x e where h: "idx_find (db_key_values cx) (tid, k) = Some r" "kv_id r = rid"
    "idx_find (db_tables cx) tid = Some x" "idx_find (ic_table_cache (ac_keyval_cache cx)) tid = Some e"
    "sp_handle (abs_tables cx) j = Some (table_name x, k)" "cache_live (ac_keyval_cache cx) (tid, k, rid) = Some j"
    by (rule live_handle [OF ok(1) g])
  note wf = tables_okD(1) [OF ok(1)]
  define ts' where "ts' = (if ti_count x - 1 = 0
      then idx_remove tid (idx_modify tid (\<lambda>t. t\<lparr>ti_count := ti_count t - 1\<rparr>) (db_tables cx))
      else idx_modify tid (\<lambda>t. t\<lparr>ti_count := ti_count t - 1\<rparr>) (db_tables cx))"
  note fr = db_remove_frame [OF s g h(1-4) rows_wfD(1) [OF wf] db_ok_usage [OF ok(2)] refl, folded ts'_def]
  note row = remove_row [OF wf h(3,1) refl refl refl, folded ts'_def]
  have rows: "((sp_rows (abs_tables cx))((table_name x, k) := None)) (table_name x, k') = None \<longleftrightarrow>
      idx_find (idx_remove (tid, k) (db_key_values cx)) (tid, k') = None" for k'
    using abs_rows_table [OF wf h(3), of k'] by (simp add: abs_tables_def idx_find_remove)
  note cache = remove_cache [OF wf tables_okD(2) [OF ok(1)] h(3,6) fr(8) row(3) rows]
  have tok: "tables_ok cx'"
    using row(1) cache(1) tables_okD(6) [OF ok(1)] cache_remove_table_cache [OF fr(8)] by (simp add: tables_ok_def fr(2-4))
  have kept: "ram_kept en cx cx'"
    by (rule table_kept [OF ok(2)])
      (use fr(7) rows_wfD(1,2) [OF row(1)] row(4) billed_rows_simps(2) [OF rows_wfD(2) [OF wf] h(1)]
        in \<open>simp_all add: fr(2-6,9)\<close>)
  have "fst (table_name x) = ac_receiver cx" using fr(1) by (simp add: table_name_def)
  note st = spec_step.remove [OF h(5) this refl]
  have "abs_tables cx' = (abs_tables cx)\<lparr>sp_rows := (sp_rows (abs_tables cx))((table_name x, k) := None),
      sp_handle := (sp_handle (abs_tables cx))(j := None),
      sp_end := (\<lambda>e. if sp_end (abs_tables cx) e = Some (table_name x)
        \<and> (\<forall>k'. ((sp_rows (abs_tables cx))((table_name x, k) := None)) (table_name x, k') = None)
        then None else sp_end (abs_tables cx) e)\<rparr>"
    unfolding abs_tables_def [of cx'] fr(2,4) cache(2,3) row(2) by (simp add: abs_tables_def cong: if_cong)
  then show ?thesis using tok kept st by simp
qed

subsection \<open>Refinement\<close>

definition same_db :: "'k apply_context \<Rightarrow> 'k apply_context \<Rightarrow> bool" where
  "same_db cx cx' \<longleftrightarrow> (\<exists>ic. cx' = cx\<lparr>ac_keyval_cache := ic\<rparr>)"

lemma same_db_kept: "same_db cx cx' \<Longrightarrow> db_ok cx \<Longrightarrow> ram_kept en cx cx'"
  by (auto simp: same_db_def ram_kept_def db_ok_def unbilled_def billed_def)

lemma same_db_refl: "same_db cx cx"
  unfolding same_db_def by (intro exI [of _ "ac_keyval_cache cx"]) simp

lemma same_db_keyval: "same_db cx (fst (keyval_cache_table cx t))" "same_db cx c \<Longrightarrow> same_db cx (fst (keyval_add c p))"
  by (auto simp: same_db_def keyval_eqs)

lemma same_db_seek:
  "same_db cx (fst (db_find_i64 cx c s t k))" "same_db cx (fst (db_end_i64 cx c s t))"
  "same_db cx (fst (db_lowerbound_i64 cx c s t k))" "same_db cx (fst (db_upperbound_i64 cx c s t k))"
  by (auto simp: db_find_i64_def db_end_i64_def db_lowerbound_i64_def db_upperbound_i64_def db_seek_def Let_def
      case_prod_beta same_db_refl same_db_keyval split: option.split list.split)

lemma same_db_next:
  assumes "db_next_i64 cx j = Inr (cx', i, ko)"
  shows "same_db cx cx'"
proof (cases "j < - 1")
  case True
  with assms show ?thesis by (simp add: db_next_i64_def same_db_refl)
next
  case False
  then obtain tid k rid where g: "cache_get (ac_keyval_cache cx) j = Inr (tid, k, rid)"
    using assms by (auto simp: db_next_i64_def)
  then show ?thesis using assms False same_db_refl same_db_keyval(2) [OF same_db_refl, of cx]
    by (cases "rows_from cx (\<lambda>k'. k' \<le> (tid, k))")
      (auto simp: db_next_i64_def Let_def case_prod_beta row_ptr_def split: if_split_asm)
qed

lemma same_db_previous:
  assumes "db_previous_i64 cx j = Inr (cx', i, ko)"
  shows "same_db cx cx'"
proof -
  obtain t ps where "step_back cx t ps = (cx', i, ko)"
    using assms by (auto simp: db_previous_i64_def split: if_split_asm option.split_asm)
  then show ?thesis
    by (auto simp: step_back_eq same_db_refl split: if_split_asm intro: same_db_keyval(2) [OF same_db_refl])
qed

lemma cache_get_defined: "cache_get ic j \<noteq> Inl undefined_behaviour"
  by (auto simp: cache_get_def SNAX_ASSERT_eq_Inl_iff split: option.split_asm)

lemma handle_cases:
  assumes "tables_ok cx"
  obtains e where "cache_get (ac_keyval_cache cx) j = Inl e" "e \<noteq> undefined_behaviour"
  | tid k r x d where "cache_get (ac_keyval_cache cx) j = Inr (tid, k, kv_id r)"
    "idx_find (db_key_values cx) (tid, k) = Some r" "idx_find (db_tables cx) tid = Some x"
    "idx_find (ic_table_cache (ac_keyval_cache cx)) tid = Some d"
    "sp_handle (abs_tables cx) j = Some (table_name x, k)"
proof (cases "cache_get (ac_keyval_cache cx) j")
  case (Inl e)
  then show thesis using that(1) cache_get_defined by metis
next
  case (Inr p)
  obtain tid k rid where p: "p = (tid, k, rid)" by (cases p)
  show thesis by (rule live_handle [OF assms Inr [unfolded p]]) (use Inr p that(2) in auto)
qed

lemma db_get_handle:
  assumes "tables_ok cx" "sp_handle (abs_tables cx) j = Some n"
  obtains p v where "sp_rows (abs_tables cx) n = Some (p, v)"
    "db_get_i64 cx j sz = Inr (if sz = 0 then (int_of_size (length v), []) else (int_of_size (min sz (length v)), take sz v))"
proof (rule handle_cases [OF assms(1), of j])
  fix e assume "cache_get (ac_keyval_cache cx) j = Inl e"
  then show thesis using assms(2) by (simp add: abs_tables_def abs_handle_def)
next
  fix tid k r x d
  assume h: "cache_get (ac_keyval_cache cx) j = Inr (tid, k, kv_id r)"
    "idx_find (db_key_values cx) (tid, k) = Some r" "idx_find (db_tables cx) tid = Some x"
    "sp_handle (abs_tables cx) j = Some (table_name x, k)"
  show thesis
    by (rule that [of "kv_payer r" "kv_value r"])
      (use h assms(2) abs_rows_table [OF tables_okD(1) [OF assms(1)] h(3), of k] in
        \<open>auto simp: abs_tables_def db_get_i64_def Let_def min_def\<close>)
qed

lemma db_get_refines:
  assumes ok: "tables_ok cx" and g: "db_get_i64 cx j sz = Inr (n, bs)"
  shows "spec_step receiver (abs_tables cx) (Get j sz) (n, None, bs) (abs_tables cx)"
proof -
  obtain m where h: "sp_handle (abs_tables cx) j = Some m"
    by (rule handle_cases [OF ok, of j]) (use g in \<open>auto simp: db_get_i64_def\<close>)
  obtain p v where r: "sp_rows (abs_tables cx) m = Some (p, v)"
    "db_get_i64 cx j sz = Inr (if sz = 0 then (int_of_size (length v), []) else (int_of_size (min sz (length v)), take sz v))"
    by (rule db_get_handle [OF ok h])
  show ?thesis using g r(2) spec_step.get_size [OF h r(1)] spec_step.get [OF h r(1), of sz] by (cases "sz = 0") auto
qed

lemma run_op_effect:
  assumes "run_op cv cx op = Inr (cx', out)" "tables_ok cx" "db_ok cx" "length (db_key_values cx) + 1 < 2 ^ 32"
  shows "tables_ok cx' \<and> ram_kept en cx cx' \<and> spec_step (ac_receiver cx) (abs_tables cx) op out (abs_tables cx')"
proof -
  have seek: "tables_ok cx' \<and> ram_kept en cx cx' \<and> spec_step (ac_receiver cx) (abs_tables cx) op out (abs_tables cx')"
    if "tables_ok (fst c) \<and> spec_seek (abs_tables cx) tn P (snd c) (abs_tables (fst c))" "same_db cx (fst c)" "cx' = fst c" "out = number (snd c)"
      "\<And>i s'. spec_seek (abs_tables cx) tn P i s' \<Longrightarrow> spec_step (ac_receiver cx) (abs_tables cx) op (number i) s'" for c tn P
    using that same_db_kept [OF that(2) assms(3), of en] by simp
  show ?thesis
  proof (cases op)
    case (Store scope table payer k v)
    with assms(1) obtain i where s: "db_store_i64 cv cx (ac_receiver cx) scope table payer k v = Inr (cx', i)"
      and i: "out = number i"
      by (auto simp: run_op_def db_store_def)
    obtain e where n: "e < - 1" "free_for (sp_end (abs_tables cx)) e (ac_receiver cx, scope, table)"
      and e: "abs_tables cx' = (abs_tables cx)\<lparr>sp_rows := (sp_rows (abs_tables cx))(((ac_receiver cx, scope, table), k) \<mapsto> (payer, v)),
         sp_handle := (sp_handle (abs_tables cx))(i \<mapsto> ((ac_receiver cx, scope, table), k)),
         sp_end := (sp_end (abs_tables cx))(e \<mapsto> (ac_receiver cx, scope, table))\<rparr>"
      using db_store_effect [OF s assms(2-4), of en] by blast
    show ?thesis unfolding e Store i using db_store_effect [OF s assms(2-4), of en] n by (auto intro!: spec_step.store)
  next
    case (Update j payer v)
    with assms(1) show ?thesis using db_update_effect [OF _ assms(2,3)] by (auto simp: run_op_def)
  next
    case (Remove j)
    with assms(1) show ?thesis using db_remove_effect [OF _ assms(2,3)] by (auto simp: run_op_def)
  next
    case (Get j sz)
    with assms(1) obtain n bs where g: "db_get_i64 cx j sz = Inr (n, bs)" "cx' = cx" "out = (n, None, bs)"
      by (auto simp: run_op_def)
    show ?thesis
      unfolding Get g(2,3) using db_get_refines [OF assms(2) g(1)] assms(2) same_db_kept [OF same_db_refl assms(3)] by blast
  next
    case (Find tn k)
    obtain c s t where tn: "tn = (c, s, t)" by (cases tn)
    show ?thesis
      by (rule seek [OF db_find_refines [OF assms(2) refl, of c s t k] same_db_seek(1)])
        (use assms(1) Find tn in \<open>auto simp: run_op_def case_prod_beta intro: spec_step.find\<close>)
  next
    case (Lower tn k)
    obtain c s t where tn: "tn = (c, s, t)" by (cases tn)
    show ?thesis
      by (rule seek [OF db_lowerbound_refines [OF assms(2) refl, of c s t k] same_db_seek(3)])
        (use assms(1) Lower tn in \<open>auto simp: run_op_def case_prod_beta intro: spec_step.lower\<close>)
  next
    case (Upper tn k)
    obtain c s t where tn: "tn = (c, s, t)" by (cases tn)
    show ?thesis
      by (rule seek [OF db_upperbound_refines [OF assms(2) refl, of c s t k] same_db_seek(4)])
        (use assms(1) Upper tn in \<open>auto simp: run_op_def case_prod_beta intro: spec_step.upper\<close>)
  next
    case (End tn)
    obtain c s t where tn: "tn = (c, s, t)" by (cases tn)
    show ?thesis
      by (rule seek [OF db_end_refines [OF assms(2) refl, of c s t] same_db_seek(2)])
        (use assms(1) End tn in \<open>auto simp: run_op_def case_prod_beta intro: spec_step.table_end\<close>)
  next
    case (Next j)
    with assms(1) obtain i ko where "db_next_i64 cx j = Inr (cx', i, ko)" "out = (i, ko, [])" by (auto simp: run_op_def)
    with Next show ?thesis using db_next_refines [OF assms(2)] same_db_kept [OF same_db_next assms(3)] by blast
  next
    case (Previous j)
    with assms(1) obtain i ko where "db_previous_i64 cx j = Inr (cx', i, ko)" "out = (i, ko, [])" by (auto simp: run_op_def)
    with Previous show ?thesis using db_previous_refines [OF assms(2)] same_db_kept [OF same_db_previous assms(3)] by blast
  qed
qed

text \<open>C1. Every operation on the primary tables of contracts (the ten \<^verbatim>\<open>db_*_i64\<close> calls of the
  interface) refines the abstract tables: on a map from names of
  rows to payer and value, storing adds a row and gives a new iterator to it, updating and removing change the row the iterator
  stands for, only by the contract that owns the table, reading gives the size of the row of the iterator and, cut to the
  size of the buffer, its bytes, the searches give the least key with their property, and moving
  gives the next key in either direction, as an iterator and as the key itself; an iterator that is given out is new or already stands for
  that row, so no other iterator changes, and the invariant of tables, rows and iterators is kept.\<close>

theorem contract_tables_refine:
  assumes "run_op cv cx op = Inr (cx', out)" "tables_ok cx" "db_ok cx" "length (db_key_values cx) + 1 < 2 ^ 32"
  shows "spec_step (ac_receiver cx) (abs_tables cx) op out (abs_tables cx') \<and> tables_ok cx' \<and> db_ok cx'"
  using run_op_effect [OF assms, of undefined] by (simp add: ram_kept_def)

subsection \<open>Runs\<close>

definition run_ops :: "'k controller_view \<Rightarrow> 'k apply_context \<Rightarrow> table_op list \<Rightarrow> 'k apply_context result" where
  "run_ops cv = efold (\<lambda>cx op. ebind (run_op cv cx op) (\<lambda>(cx, _). Inr cx))"

lemma store_rows_length:
  assumes "db_store_i64 cv cx code scope table payer key buffer = Inr (cx', i)" "tables_ok cx" "db_ok cx"
  shows "length (db_key_values cx') \<le> Suc (length (db_key_values cx))"
proof -
  obtain cx1 tid c2 where f: "find_or_create_table cv cx code scope table payer = Inr (cx1, tid)"
    and u: "update_db_usage cv (cx1\<lparr>db_key_values := idx_put (tid, key)
        \<lparr>kv_id = db_next_key_value cx1, kv_payer = payer, kv_value = buffer\<rparr> (db_key_values cx1),
        db_next_key_value := db_next_key_value cx1 + 1,
        db_tables := idx_modify tid (\<lambda>t. t\<lparr>ti_count := ti_count t + 1\<rparr>) (db_tables cx1)\<rparr>) payer
        (sint (of_nat (length buffer) + key_value_object_size)) = Inr c2"
    and c: "db_key_values cx' = db_key_values c2"
    using assms(1) by (auto simp: db_store_i64_def idx_create_Inr_iff Let_def case_prod_beta keyval_eqs)
  have k1: "db_key_values cx1 = db_key_values cx \<and> idx_ok (rl_usage (db_rl cx1))"
    by (rule find_or_create_effect [OF f assms(2) db_ok_usage [OF assms(3)]]) simp
  have "db_key_values c2 = idx_put (tid, key)
      \<lparr>kv_id = db_next_key_value cx1, kv_payer = payer, kv_value = buffer\<rparr> (db_key_values cx1)"
    by (rule update_db_usage_frame [OF u]) (use k1 in auto)
  then show ?thesis using c k1 by (simp add: length_idx_put)
qed

lemma length_idx_modify: "idx_ok t \<Longrightarrow> length (idx_modify k f t) = length t"
  by (auto simp: idx_modify_def length_idx_put_old split: option.split)

lemma update_rows_length:
  assumes "db_update_i64 cv cx j payer v = Inr cx'" "tables_ok cx" "db_ok cx"
  shows "length (db_key_values cx') = length (db_key_values cx)"
proof -
  obtain tid k rid where g: "cache_get (ac_keyval_cache cx) j = Inr (tid, k, rid)"
    using assms(1) by (auto simp: db_update_i64_def)
  obtain r x e where h: "idx_find (db_key_values cx) (tid, k) = Some r" "kv_id r = rid"
    "idx_find (db_tables cx) tid = Some x" "idx_find (ic_table_cache (ac_keyval_cache cx)) tid = Some e"
    by (rule live_handle [OF assms(2) g])
  show ?thesis
    by (simp add: db_update_frame(4) [OF assms(1) g h db_ok_usage [OF assms(3)] refl] length_idx_modify tables_okD(5) [OF assms(2)])
qed

lemma remove_rows_length:
  assumes "db_remove_i64 cv cx j = Inr cx'" "tables_ok cx" "db_ok cx"
  shows "length (db_key_values cx') \<le> length (db_key_values cx)"
proof -
  obtain tid k rid where g: "cache_get (ac_keyval_cache cx) j = Inr (tid, k, rid)"
    using assms(1) by (auto simp: db_remove_i64_def)
  obtain r x e where h: "idx_find (db_key_values cx) (tid, k) = Some r" "kv_id r = rid"
    "idx_find (db_tables cx) tid = Some x" "idx_find (ic_table_cache (ac_keyval_cache cx)) tid = Some e"
    by (rule live_handle [OF assms(2) g])
  note fr = db_remove_frame(4) [OF assms(1) g h tables_okD(4) [OF assms(2)] db_ok_usage [OF assms(3)] refl]
  show ?thesis unfolding fr idx_remove_def by (rule length_filter_le)
qed

lemma same_db_rows: "same_db cx cx' \<Longrightarrow> db_key_values cx' = db_key_values cx"
  by (auto simp: same_db_def)

lemma run_op_rows_length:
  assumes "run_op cv cx op = Inr (cx', out)" "tables_ok cx" "db_ok cx"
  shows "length (db_key_values cx') \<le> Suc (length (db_key_values cx))"
proof -
  have m: "length (db_key_values cx') \<le> Suc (length (db_key_values cx))" if "same_db cx cx'"
    using same_db_rows [OF that] by simp
  show ?thesis
  proof (cases op)
    case (Store scope table payer k v)
    with assms(1) show ?thesis using store_rows_length [OF _ assms(2,3)] by (auto simp: run_op_def db_store_def)
  next
    case (Update j payer v)
    with assms(1) show ?thesis using update_rows_length [OF _ assms(2,3)] by (auto simp: run_op_def)
  next
    case (Remove j)
    with assms(1) show ?thesis using remove_rows_length [OF _ assms(2,3)] by (auto simp: run_op_def intro: le_SucI)
  next
    case (Get j sz)
    with assms(1) show ?thesis by (auto simp: run_op_def)
  next
    case (Find tn k)
    with assms(1) show ?thesis by (cases tn) (auto simp: run_op_def case_prod_beta same_db_rows [OF same_db_seek(1)])
  next
    case (Lower tn k)
    with assms(1) show ?thesis by (cases tn) (auto simp: run_op_def case_prod_beta same_db_rows [OF same_db_seek(3)])
  next
    case (Upper tn k)
    with assms(1) show ?thesis by (cases tn) (auto simp: run_op_def case_prod_beta same_db_rows [OF same_db_seek(4)])
  next
    case (End tn)
    with assms(1) show ?thesis by (cases tn) (auto simp: run_op_def case_prod_beta same_db_rows [OF same_db_seek(2)])
  next
    case (Next j)
    with assms(1) show ?thesis by (auto simp: run_op_def dest!: same_db_next intro: m)
  next
    case (Previous j)
    with assms(1) show ?thesis by (auto simp: run_op_def dest!: same_db_previous intro: m)
  qed
qed

lemma run_ops_kept:
  assumes "run_ops cv cx ops = Inr cx'" "tables_ok cx" "db_ok cx" "length (db_key_values cx) + length ops < 2 ^ 32"
  shows "tables_ok cx' \<and> ram_kept en cx cx' \<and> length (db_key_values cx') \<le> length (db_key_values cx) + length ops"
  using assms
proof (induction ops arbitrary: cx)
  case Nil
  then show ?case by (simp add: run_ops_def ram_kept_def)
next
  case (Cons op ops)
  obtain c i where c: "run_op cv cx op = Inr (c, i)" "run_ops cv c ops = Inr cx'"
    using Cons.prems(1) by (auto simp: run_ops_def)
  have b: "length (db_key_values cx) + 1 < 2 ^ 32" using Cons.prems(4) by simp
  have e: "tables_ok c" "ram_kept en cx c" using run_op_effect [OF c(1) Cons.prems(2,3) b] by blast+
  have l: "length (db_key_values c) \<le> Suc (length (db_key_values cx))"
    by (rule run_op_rows_length [OF c(1) Cons.prems(2,3)])
  have dc: "db_ok c" using e(2) by (simp add: ram_kept_def)
  have bc: "length (db_key_values c) + length ops < 2 ^ 32" using l Cons.prems(4) by simp
  note ih = Cons.IH [OF c(2) e(1) dc bc]
  then show ?case using e(2) l by (simp add: ram_kept_def)
qed

text \<open>C3. However a contract works on its tables, the RAM charged is exact: after any sequence of operations, for every account, the recorded usage
  minus the billable size of everything the account pays for is what it was.\<close>

theorem contract_ram_exact:
  assumes "run_ops cv cx ops = Inr cx'" "tables_ok cx" "db_ok cx" "length (db_key_values cx) + length ops < 2 ^ 32"
  shows "unbilled en cx' b = unbilled en cx b"
  using run_ops_kept [OF assms, of en] by (simp add: ram_kept_def)

subsection \<open>Dangling pointers\<close>

lemma update_db_usage_defined: "update_db_usage cv cx p d \<noteq> Inl undefined_behaviour"
  by (auto simp: update_db_usage_def ebind_eq_Inl_iff SNAX_ASSERT_eq_Inl_iff require_authorization_def mark_authorization_def
      add_ram_usage_def trx_add_ram_usage_def add_pending_ram_usage_def idx_get_def split: if_split_asm option.split_asm)

lemma find_or_create_defined: "find_or_create_table cv cx c s t p \<noteq> Inl undefined_behaviour"
  by (auto simp: find_or_create_table_def ebind_eq_Inl_iff idx_create_def Let_def update_db_usage_defined split: option.split_asm)

lemma db_store_defined: "db_store_i64 cv cx code scope table payer key buffer \<noteq> Inl undefined_behaviour"
  by (auto simp: db_store_i64_def ebind_eq_Inl_iff SNAX_ASSERT_eq_Inl_iff idx_create_def Let_def case_prod_beta
      update_db_usage_defined find_or_create_defined split: option.split_asm)

lemma rebill_defined: "rebill_row cv cx a b m n \<noteq> Inl undefined_behaviour"
  by (auto simp: rebill_row_def ebind_eq_Inl_iff update_db_usage_defined split: if_split_asm)

lemma remove_table_defined: "idx_find (db_tables cx) tid \<noteq> None \<Longrightarrow> remove_table cv cx tid \<noteq> Inl undefined_behaviour"
  by (auto simp: remove_table_def deref_table_def ebind_eq_Inl_iff update_db_usage_defined)

lemma cache_remove_defined: "cache_remove ic j \<noteq> Inl undefined_behaviour"
  by (auto simp: cache_remove_def SNAX_ASSERT_eq_Inl_iff split: option.split_asm)

lemma db_update_defined: "tables_ok cx \<Longrightarrow> db_update_i64 cv cx j payer buffer \<noteq> Inl undefined_behaviour"
  by (rule handle_cases [of cx j])
    (auto simp: db_update_i64_def SNAX_ASSERT_eq_Inl_iff ebind_eq_Inl_iff Let_def cache_get_table_def deref_table_def rebill_defined)

lemma db_remove_defined:
  assumes "tables_ok cx" "db_ok cx"
  shows "db_remove_i64 cv cx j \<noteq> Inl undefined_behaviour"
proof (rule handle_cases [OF assms(1), of j])
  fix tid k r x d
  assume h: "cache_get (ac_keyval_cache cx) j = Inr (tid, k, kv_id r)"
    "idx_find (db_key_values cx) (tid, k) = Some r" "idx_find (db_tables cx) tid = Some x"
    "idx_find (ic_table_cache (ac_keyval_cache cx)) tid = Some d"
  have t: "idx_find (db_tables c) tid = Some x" "idx_ok (db_tables c)" if "update_db_usage cv cx p n = Inr c" for c p n
    by (rule update_db_usage_frame [OF that db_ok_usage [OF assms(2)]], use h(3) tables_okD(4) [OF assms(1)] in simp)+
  show ?thesis using h
    by (auto simp: db_remove_i64_def SNAX_ASSERT_eq_Inl_iff ebind_eq_Inl_iff Let_def cache_get_table_def deref_table_def
        update_db_usage_defined cache_remove_defined idx_find_modify t split: if_split_asm dest!: remove_table_defined [THEN notE, rotated])
qed (simp add: db_remove_i64_def)

lemma db_next_defined:
  assumes "tables_ok cx"
  shows "db_next_i64 cx j \<noteq> Inl undefined_behaviour"
  by (rule handle_cases [OF assms, of j])
    (auto simp: db_next_i64_def ebind_eq_Inl_iff Let_def get_end_iterator_by_table_id_def case_prod_beta split: list.split)

lemma db_previous_defined_iff:
  assumes "tables_ok cx"
  shows "db_previous_i64 cx j = Inl undefined_behaviour \<longleftrightarrow> (\<exists>tid. j < - 1 \<and>
    find_table_by_end_iterator (ac_keyval_cache cx) j = Inr (Some tid) \<and> idx_find (db_tables cx) tid = None)"
proof (cases "j < - 1")
  case True
  then show ?thesis
    by (auto simp: db_previous_i64_def find_table_by_end_iterator_def Let_def ebind_eq_Inl_iff deref_table_def split: option.split)
next
  case False
  show ?thesis by (rule handle_cases [OF assms, of j]) (use False in \<open>auto simp: db_previous_i64_def ebind_eq_Inl_iff\<close>)
qed

lemma db_get_defined: "tables_ok cx \<Longrightarrow> db_get_i64 cx j sz \<noteq> Inl undefined_behaviour"
  by (rule handle_cases [of cx j]) (auto simp: db_get_i64_def ebind_eq_Inl_iff Let_def)

text \<open>C2. No sequence of operations makes a contract reach a row or a table that is gone through an iterator, with exactly one
  exception: moving back from the end iterator of a table that has been removed since follows a dangling
  pointer.\<close>

theorem contract_iterators_safe:
  assumes "run_ops cv cx ops = Inr cx'" "tables_ok cx" "db_ok cx" "length (db_key_values cx) + length ops < 2 ^ 32"
  shows "db_get_i64 cx' j sz \<noteq> Inl undefined_behaviour \<and>
    (run_op cv cx' op = Inl undefined_behaviour \<longleftrightarrow> (\<exists>i tid. op = Previous i \<and> i < - 1 \<and>
      find_table_by_end_iterator (ac_keyval_cache cx') i = Inr (Some tid) \<and> idx_find (db_tables cx') tid = None))"
proof -
  have ok: "tables_ok cx'" "db_ok cx'" using run_ops_kept [OF assms, of undefined] by (simp_all add: ram_kept_def)
  then have "run_op cv cx' op = Inl undefined_behaviour \<longleftrightarrow> (\<exists>i tid. op = Previous i \<and> i < - 1 \<and>
      find_table_by_end_iterator (ac_keyval_cache cx') i = Inr (Some tid) \<and> idx_find (db_tables cx') tid = None)"
    by (cases op) (auto simp: run_op_def db_store_def ebind_eq_Inl_iff case_prod_beta db_store_defined db_update_defined
        db_remove_defined db_get_defined db_next_defined db_previous_defined_iff)
  then show ?thesis using db_get_defined [OF ok(1)] by blast
qed

lemma find_handle:
  assumes ok: "tables_ok cx" and h: "sp_handle (abs_tables cx) i = Some ((c, s, t), key)"
  shows "snd (db_find_i64 cx c s t key) = i"
proof -
  note cok = tables_okD(3) [OF ok]
  obtain tid rid x where l: "cache_live (ac_keyval_cache cx) (tid, key, rid) = Some i" "idx_find (db_tables cx) tid = Some x"
    "table_name x = (c, s, t)"
    using h by (auto simp: abs_tables_def abs_handle_Some [OF cok])
  obtain r where r: "idx_find (db_key_values cx) (tid, key) = Some r" "kv_id r = rid"
    using cache_wfD(2) [OF tables_okD(2) [OF ok] l(1)] by blast
  have "table_id (db_tables cx) (c, s, t) = Some tid" using table_id_iff [OF tables_okD(1) [OF ok]] l(2,3) by blast
  then show ?thesis
    using r handles.add_same [OF cache_table_ok [OF cok, of tid], of "(tid, key, rid)" i] l(1)
    by (simp add: db_find_i64_def find_table_id Let_def keyval_eqs)
qed

text \<open>A stored row is read back: the iterator the store returns and the iterator a search for its
  key returns are the same, and reading through it gives the stored bytes, cut to the size of the buffer.\<close>

theorem store_find_get:
  assumes "db_store cv cx scope table payer key buffer = Inr (cx', i)" "tables_ok cx" "db_ok cx"
    "length (db_key_values cx) + 1 < 2 ^ 32"
  shows "snd (db_find_i64 cx' (ac_receiver cx) scope table key) = i \<and>
    db_get_i64 cx' i n = Inr (if n = 0 then (int_of_size (length buffer), []) else (int_of_size (min n (length buffer)), take n buffer))"
proof -
  have e: "tables_ok cx'" "sp_handle (abs_tables cx') i = Some ((ac_receiver cx, scope, table), key)"
    "sp_rows (abs_tables cx') ((ac_receiver cx, scope, table), key) = Some (payer, buffer)"
    using db_store_effect [OF assms(1) [unfolded db_store_def] assms(2-4), of undefined] by auto
  show ?thesis
    by (rule db_get_handle [OF e(1,2), of n]) (use e find_handle [OF e(1,2)] in simp)
qed

subsection \<open>A contract at work\<close>

definition demo_contract :: "nat apply_context" where
  "demo_contract = demo_context\<lparr>ac_receiver := 5, db_rl := (db_rl demo_context)\<lparr>rl_usage := [(5, demo_usage), (7, demo_usage)]\<rparr>\<rparr>"

definition demo_ops :: "table_op list" where
  "demo_ops = [Store 1 2 5 10 [7], Store 1 2 5 20 [8, 9], Remove 0, Next 1, Lower (5, 1, 2) 5, Remove 1]"

definition demo_after :: "nat apply_context" where
  "demo_after = projr (run_ops demo_view demo_contract demo_ops)"

lemma demo_contract_ok: "tables_ok demo_contract" "db_ok demo_contract" "length (db_key_values demo_contract) = 0"
proof -
  show "tables_ok demo_contract"
    by (simp add: tables_ok_def rows_wf_def cache_wf_def demo_contract_def demo_context_def cache_live_def new_iterator_cache_def
        cache_ok_def)
  show "db_ok demo_contract" using demo_context_ok by (simp add: demo_contract_def db_ok_def demo_context_def idx_ok_def)
  show "length (db_key_values demo_contract) = 0" by (simp add: demo_contract_def demo_context_def)
qed

lemma demo_ops_run: "run_ops demo_view demo_contract demo_ops = Inr demo_after"
proof -
  have "\<not> isl (run_ops demo_view demo_contract demo_ops)" by code_simp
  then show ?thesis by (simp add: demo_after_def)
qed

theorem contract_ram_exact_witness: "unbilled demo_env demo_after 5 = unbilled demo_env demo_contract 5"
  by (rule contract_ram_exact [OF demo_ops_run demo_contract_ok(1,2)]) (simp add: demo_contract_ok demo_ops_def)

theorem contract_iterators_safe_witness:
  "db_get_i64 demo_after 0 8 \<noteq> Inl undefined_behaviour \<and> run_op demo_view demo_after (Previous (- 2)) = Inl undefined_behaviour"
proof -
  have "find_table_by_end_iterator (ac_keyval_cache demo_after) (- 2) = Inr (Some 0)" "idx_find (db_tables demo_after) 0 = None"
    by code_simp+
  then show ?thesis
    using contract_iterators_safe [OF demo_ops_run demo_contract_ok(1,2), of 0 8 "Previous (- 2)"]
    by (auto simp: demo_contract_ok demo_ops_def)
qed

definition demo_stored :: "nat apply_context" where
  "demo_stored = fst (projr (db_store demo_view demo_contract 1 2 5 10 [7, 8]))"

lemma demo_store_run: "db_store demo_view demo_contract 1 2 5 10 [7, 8] = Inr (demo_stored, 0)"
proof -
  have "\<not> isl (db_store demo_view demo_contract 1 2 5 10 [7, 8]) \<and> snd (projr (db_store demo_view demo_contract 1 2 5 10 [7, 8])) = 0"
    by code_simp
  then show ?thesis unfolding demo_stored_def by (cases "db_store demo_view demo_contract 1 2 5 10 [7, 8]") auto
qed

definition demo_two :: "nat apply_context" where
  "demo_two = projr (run_ops demo_view demo_contract [Store 1 2 5 10 [7], Store 1 2 5 20 [8, 9], Find (5, 1, 2) 10])"

lemma demo_two_ok: "tables_ok demo_two" "db_ok demo_two" "length (db_key_values demo_two) + 1 < 2 ^ 32"
proof -
  have n: "\<not> isl (run_ops demo_view demo_contract [Store 1 2 5 10 [7], Store 1 2 5 20 [8, 9], Find (5, 1, 2) 10])" by code_simp
  have r: "run_ops demo_view demo_contract [Store 1 2 5 10 [7], Store 1 2 5 20 [8, 9], Find (5, 1, 2) 10] = Inr demo_two"
    using n by (simp add: demo_two_def)
  show "tables_ok demo_two" "db_ok demo_two" "length (db_key_values demo_two) + 1 < 2 ^ 32"
    using run_ops_kept [OF r demo_contract_ok(1,2), of undefined] by (simp_all add: demo_contract_ok ram_kept_def)
qed

definition demo_moved :: "nat apply_context" where
  "demo_moved = fst (projr (run_op demo_view demo_two (Next 0)))"

lemma demo_moved_run: "run_op demo_view demo_two (Next 0) = Inr (demo_moved, 1, Some 20, [])"
proof -
  have "\<not> isl (run_op demo_view demo_two (Next 0)) \<and> snd (projr (run_op demo_view demo_two (Next 0))) = (1, Some 20, [])"
    by code_simp
  then show ?thesis unfolding demo_moved_def by (cases "run_op demo_view demo_two (Next 0)") auto
qed

theorem contract_tables_refine_witness:
  "spec_step 5 (abs_tables demo_two) (Next 0) (1, Some 20, []) (abs_tables demo_moved) \<and> tables_ok demo_moved \<and> db_ok demo_moved"
proof -
  have "ac_receiver demo_two = 5" by code_simp
  then show ?thesis using contract_tables_refine [OF demo_moved_run demo_two_ok] by simp
qed

theorem store_find_get_witness:
  "snd (db_find_i64 demo_stored 5 1 2 10) = 0 \<and> db_get_i64 demo_stored 0 1 = Inr (1, [7])"
  using store_find_get [OF demo_store_run demo_contract_ok(1,2), of 1]
  by (simp add: demo_contract_ok) (simp add: demo_contract_def int_of_size_def)

end
