(* ===== verification/Deferred.thy ===== *)
theory Deferred
  imports Ram_Accounting
begin

text \<open>
  Deferred transactions: what sending, replacing and cancelling a deferred transaction does to the
  table of generated transactions and to the RAM charged for it.
\<close>

section \<open>Sending\<close>

definition deferred_form :: "'k chain_env \<Rightarrow> 'k apply_context \<Rightarrow> transaction \<Rightarrow> transaction" where
  "deferred_form en cx trx = trx\<lparr>th_expiration := word_of_int ((ad_pending_block_time (db_auth cx) + 999999) sdiv 1000000),
     th_ref_block_num := ucast (en_endian_reverse_u32 en (ucast (hash_word (en_head_block_id en) 0))),
     th_ref_block_prefix := ucast (hash_word (en_head_block_id en) 1)\<rparr>"

lemma schedule_frame:
  assumes "schedule_deferred_transaction en cx sender_id payer trx rep = Inr cx'"
  obtains l u c where "store_deferred en (cx\<lparr>tc_limits := l, ac_used_authorizations := u\<rparr>) sender_id payer
      (deferred_form en cx trx) rep = Inr c"
    "add_ram_usage c payer (sint (gto_charge (deferred_object en c sender_id payer (deferred_form en cx trx)))) = Inr cx'"
proof -
  let ?t = "deferred_form en cx trx"
  obtain l c1 c where c1: "(if \<not> skip_auth_check (en_view en) \<and> \<not> ac_privileged (cx\<lparr>tc_limits := l\<rparr>) then
        ebind (if payer \<noteq> ac_receiver (cx\<lparr>tc_limits := l\<rparr>) then require_authorization (cx\<lparr>tc_limits := l\<rparr>) payer else Inr (cx\<lparr>tc_limits := l\<rparr>)) (\<lambda>cx.
        ebind (self_authorized (en_view en) (\<forall>act \<in> set (tx_actions ?t). act_account act = ac_receiver cx)
          (check_authorization (en_codec en) (db_auth cx) (tx_actions ?t) []
            [(ac_receiver cx, snax_code_name)] (uint (th_delay_sec ?t) * 1000000) False [])) (\<lambda>_. Inr cx))
      else Inr (cx\<lparr>tc_limits := l\<rparr>)) = Inr c1"
    and c: "store_deferred en c1 sender_id payer ?t rep = Inr c"
      "add_ram_usage c payer (sint (gto_charge (deferred_object en c sender_id payer ?t))) = Inr cx'"
    using assms unfolding schedule_deferred_transaction_def Let_def deferred_form_def [symmetric]
    by (simp only: ebind_eq_Inr_iff SNAX_ASSERT_eq_Inr_iff) blast
  have "\<exists>u. c1 = cx\<lparr>tc_limits := l, ac_used_authorizations := u\<rparr>"
  proof (cases "\<not> skip_auth_check (en_view en) \<and> \<not> ac_privileged cx \<and> payer \<noteq> ac_receiver cx")
    case True
    with c1 have "require_authorization (cx\<lparr>tc_limits := l\<rparr>) payer = Inr c1" by auto
    from require_authorization_frame [OF this] show ?thesis by auto
  next
    case False
    with c1 have "c1 = cx\<lparr>tc_limits := l\<rparr>" by (auto split: if_split_asm)
    then show ?thesis by (intro exI [of _ "ac_used_authorizations cx"]) simp
  qed
  then show thesis using that c by blast
qed

lemma frame_inert:
  "db_ok (cx\<lparr>tc_limits := l\<rparr>) = db_ok cx"
  "ram_kept en (cx\<lparr>tc_limits := l, ac_used_authorizations := u\<rparr>) c = ram_kept en cx c"
  by (simp_all add: db_ok_def ram_kept_def unbilled_def billed_def)

lemma find_by_sender_idD:
  assumes "find_by_sender_id db s i = Some (k, g)" "idx_ok (ad_generated db)"
  shows "idx_find (ad_generated db) k = Some g" "gt_sender g = s" "gt_sender_id g = i"
  using assms unfolding find_by_sender_id_def by (auto dest!: find_Some_mem simp: idx_rows_find)

lemma store_deferred_kept:
  assumes s: "store_deferred en cx sid payer trx rep = Inr c"
    and r: "add_ram_usage c payer (sint (gto_size (deferred_object en c sid payer trx))) = Inr cx'" and ok: "db_ok cx"
  shows "ram_kept en cx cx'"
proof (cases "find_by_sender_id (db_auth cx) (ac_receiver cx) sid")
  case None
  let ?g = "deferred_object en cx sid payer trx"
  have c: "c = set_generated (idx_put (en_transaction_id en trx) ?g (ad_generated (db_auth cx))) cx"
    and n: "idx_find (ad_generated (db_auth cx)) (en_transaction_id en trx) = None"
    using s None by (auto simp: store_deferred_def Let_def idx_create_Inr_iff)
  have g: "deferred_object en c sid payer trx = ?g" by (simp add: c deferred_object_def set_generated_def Let_def)
  show ?thesis
    by (rule add_ram_kept [OF r]) (use ok n in \<open>auto simp: g c set_generated_def db_ok_def idx_ok_put billed_def
        billed_generated_simps deferred_object_def Let_def\<close>)
next
  case (Some kg)
  obtain k old where kg: "kg = (k, old)" by (cases kg)
  let ?g = "deferred_object en cx sid payer trx"
  have og: "idx_ok (ad_generated (db_auth cx))" using ok by (simp add: db_ok_def)
  have old: "idx_find (ad_generated (db_auth cx)) k = Some old" using find_by_sender_idD(1) [OF Some [unfolded kg] og] .
  obtain c1 where c1: "add_ram_usage cx (gt_payer old) (sint (- gto_size old)) = Inr c1"
    and c: "c = set_generated (idx_modify k (\<lambda>_. ?g) (ad_generated (db_auth c1))) c1"
    using s Some kg by (auto simp: store_deferred_def Let_def)
  obtain rl v ds where f: "c1 = cx\<lparr>db_rl := rl, tc_validate_ram_usage := v, ac_account_ram_deltas := ds\<rparr>"
    "idx_ok (rl_usage rl)" "\<And>b. ram_of rl b = ram_of (db_rl cx) b + (if b = gt_payer old then word_of_int (sint (- gto_size old)) else 0)"
    by (rule add_ram_usage_frame [OF c1 db_ok_usage [OF ok]], rule that)
  have okc: "idx_ok (rl_usage (db_rl c))" using f by (simp add: c set_generated_def)
  have g: "deferred_object en c sid payer trx = ?g" by (simp add: c f(1) deferred_object_def set_generated_def Let_def)
  obtain rl2 v2 ds2 where h: "cx' = c\<lparr>db_rl := rl2, tc_validate_ram_usage := v2, ac_account_ram_deltas := ds2\<rparr>"
    "idx_ok (rl_usage rl2)" "\<And>b. ram_of rl2 b = ram_of (db_rl c) b + (if b = payer then word_of_int (sint (gto_size ?g)) else 0)"
    by (rule add_ram_usage_frame [OF r [unfolded g] okc], rule that)
  have p: "gt_payer ?g = payer" by (simp add: deferred_object_def Let_def)
  have b: "billed en cx' b = billed en cx b + (if b = gt_payer old then - uint (gto_size old) else 0)
      + (if b = payer then uint (gto_size ?g) else 0)" for b
    using billed_generated_simps(3) [OF og old, of ?g b] by (simp add: billed_def h(1) c f(1) set_generated_def p)
  have "unbilled en cx' b = unbilled en cx b" for b
    unfolding unbilled_def b using h(3) [of b] f(3) [of b] by (simp add: h(1) c f(1) set_generated_def)
  moreover have "db_ok cx'" using ok h(2) by (simp add: db_ok_def h(1) c f(1) set_generated_def idx_ok_modify)
  ultimately show ?thesis by (simp add: ram_kept_def)
qed

lemma gto_charge_size: "length (gt_packed_trx g) < 2 ^ 32 \<Longrightarrow> gto_charge g = gto_size g"
  by (simp add: gto_charge_def gto_size_def unsigned_of_nat take_bit_nat_eq_self)

lemma schedule_kept:
  assumes s: "schedule_deferred_transaction en cx sender_id payer trx rep = Inr cx'" and ok: "db_ok cx"
    and small: "length (en_pack_transaction en (deferred_form en cx trx)) < 2 ^ 32"
  shows "ram_kept en cx cx'"
proof -
  obtain l u c where c: "store_deferred en (cx\<lparr>tc_limits := l, ac_used_authorizations := u\<rparr>) sender_id payer
      (deferred_form en cx trx) rep = Inr c"
    and r: "add_ram_usage c payer (sint (gto_charge (deferred_object en c sender_id payer (deferred_form en cx trx)))) = Inr cx'"
    by (rule schedule_frame [OF s])
  have e: "gto_charge (deferred_object en c sender_id payer (deferred_form en cx trx))
      = gto_size (deferred_object en c sender_id payer (deferred_form en cx trx))"
    by (rule gto_charge_size) (use small in \<open>simp add: deferred_object_def Let_def\<close>)
  show ?thesis using store_deferred_kept [OF c r [unfolded e]] ok by (simp add: frame_inert)
qed

text \<open>C4. Sending a deferred transaction, as a new one or in place of an earlier one of the same sender,
  keeps the RAM books: the earlier payer gets back what the replaced transaction cost, the new payer pays for the new one.
  The packed transaction is shorter than \<open>2 ^ 32\<close> bytes: the charge is computed from a 32-bit size, the refund from
  the full one.\<close>

theorem deferred_ram_exact:
  assumes "schedule_deferred_transaction en cx sender_id payer trx rep = Inr cx'" "db_ok cx"
    "length (en_pack_transaction en (deferred_form en cx trx)) < 2 ^ 32"
  shows "unbilled en cx' b = unbilled en cx b \<and> db_ok cx'"
  using schedule_kept [OF assms] by (simp add: ram_kept_def)

text \<open>C5. Replacing a deferred transaction stores the new transaction under the identifier of the one it
  replaces: the entry keeps the old key while its bytes are those of the new transaction.\<close>

theorem replaced_deferred_keeps_id:
  assumes "schedule_deferred_transaction en cx sender_id payer trx True = Inr cx'" "db_ok cx"
    "find_by_sender_id (db_auth cx) (ac_receiver cx) sender_id = Some (old_id, old)"
  shows "\<exists>g. idx_find (ad_generated (db_auth cx')) old_id = Some g
    \<and> gt_packed_trx g = en_pack_transaction en (deferred_form en cx trx) \<and> gt_sender_id g = sender_id"
proof -
  let ?t = "deferred_form en cx trx"
  obtain l u c where s: "store_deferred en (cx\<lparr>tc_limits := l, ac_used_authorizations := u\<rparr>) sender_id payer ?t True = Inr c"
    and r: "add_ram_usage c payer (sint (gto_charge (deferred_object en c sender_id payer ?t))) = Inr cx'"
    by (rule schedule_frame [OF assms(1)])
  let ?cx = "cx\<lparr>tc_limits := l, ac_used_authorizations := u\<rparr>"
  have og: "idx_ok (ad_generated (db_auth cx))" using assms(2) by (simp add: db_ok_def)
  obtain c1 where c1: "add_ram_usage ?cx (gt_payer old) (sint (- gto_size old)) = Inr c1"
    and c: "c = set_generated (idx_modify old_id (\<lambda>_. deferred_object en ?cx sender_id payer ?t) (ad_generated (db_auth c1))) c1"
    using s assms(3) by (auto simp: store_deferred_def Let_def)
  have u1: "idx_ok (rl_usage (db_rl ?cx))" using assms(2) by (simp add: db_ok_def)
  have a: "db_auth c1 = db_auth cx \<and> idx_ok (rl_usage (db_rl c1))"
    by (rule add_ram_usage_frame [OF c1 u1]) simp
  then have "idx_ok (rl_usage (db_rl c))" by (simp add: c set_generated_def)
  then have "db_auth cx' = db_auth c" by (rule add_ram_usage_frame [OF r]) simp
  then show ?thesis using a og find_by_sender_idD(1) [OF assms(3) og]
    by (simp add: c set_generated_def idx_find_modify deferred_object_def Let_def)
qed

section \<open>A contract that sends twice\<close>

definition demo_deferred_trx :: transaction where
  "demo_deferred_trx = (tc_trx demo_context)\<lparr>tx_actions := [\<lparr>act_account = 7, act_name = 8,
     act_authorization = [(5, active_name)], act_data = []\<rparr>], th_delay_sec := 10\<rparr>"

definition demo_sender :: "nat apply_context" where
  "demo_sender = demo_context\<lparr>ac_receiver := 5, ac_privileged := True\<rparr>"

definition demo_sent :: "nat apply_context" where
  "demo_sent = projr (schedule_deferred_transaction demo_env demo_sender 1 5 demo_deferred_trx False)"

definition demo_resent :: "nat apply_context" where
  "demo_resent = projr (schedule_deferred_transaction demo_env demo_sent 1 7 demo_deferred_trx True)"

lemma demo_sender_ok: "db_ok demo_sender"
  using demo_context_ok by (simp add: demo_sender_def db_ok_def)

lemma demo_sent_runs: "schedule_deferred_transaction demo_env demo_sender 1 5 demo_deferred_trx False = Inr demo_sent"
proof -
  have "\<not> isl (schedule_deferred_transaction demo_env demo_sender 1 5 demo_deferred_trx False)" by code_simp
  then show ?thesis by (simp add: demo_sent_def)
qed

lemma demo_resent_runs: "schedule_deferred_transaction demo_env demo_sent 1 7 demo_deferred_trx True = Inr demo_resent"
proof -
  have "\<not> isl (schedule_deferred_transaction demo_env demo_sent 1 7 demo_deferred_trx True)" by code_simp
  then show ?thesis by (simp add: demo_resent_def)
qed

lemma demo_sent_ok: "db_ok demo_sent"
proof -
  have "length (en_pack_transaction demo_env (deferred_form demo_env demo_sender demo_deferred_trx)) < 2 ^ 32" by (simp add: demo_env_def)
  from schedule_kept [OF demo_sent_runs demo_sender_ok this] show ?thesis by (simp add: ram_kept_def)
qed

theorem deferred_ram_exact_witness: "unbilled demo_env demo_resent 7 = unbilled demo_env demo_sent 7 \<and> db_ok demo_resent"
proof -
  have "length (en_pack_transaction demo_env (deferred_form demo_env demo_sent demo_deferred_trx)) < 2 ^ 32" by (simp add: demo_env_def)
  then show ?thesis by (rule deferred_ram_exact [OF demo_resent_runs demo_sent_ok])
qed

theorem replaced_deferred_keeps_id_witness:
  "\<exists>g. idx_find (ad_generated (db_auth demo_resent)) zero_digest = Some g
    \<and> gt_packed_trx g = en_pack_transaction demo_env (deferred_form demo_env demo_sent demo_deferred_trx) \<and> gt_sender_id g = 1"
proof -
  have "map_option fst (find_by_sender_id (db_auth demo_sent) (ac_receiver demo_sent) 1) = Some zero_digest" by code_simp
  then obtain old where "find_by_sender_id (db_auth demo_sent) (ac_receiver demo_sent) 1 = Some (zero_digest, old)" by auto
  then show ?thesis by (rule replaced_deferred_keeps_id [OF demo_resent_runs demo_sent_ok])
qed

end
