(* ===== verification/Assets.thy ===== *)
theory Assets
  imports Names "HOL-Library.Signed_Division"
begin

text \<open>
  Symbols and assets: \<^verbatim>\<open>symbol.hpp\<close>, \<^verbatim>\<open>asset.hpp\<close> and \<^verbatim>\<open>asset.cpp\<close> of the node, and the asset
  type of the contract library (\<^verbatim>\<open>snaxlib/symbol.hpp\<close>, \<^verbatim>\<open>snaxlib/asset.hpp\<close>).  A symbol packs the
  number of decimals and a name of up to seven upper case letters into 64 bits.  The trimming,
  printing, parsing and checked arithmetic of the \<^verbatim>\<open>fc\<close> library are parameters.
\<close>

section \<open>Symbols of the node\<close>

definition upper :: "char \<Rightarrow> bool" where
  "upper c \<longleftrightarrow> 65 \<le> (of_char c :: nat) \<and> (of_char c :: nat) \<le> 90"

text \<open>The loop over the characters; a shift by 64 or more is not defined.\<close>

fun string_to_symbol_loop :: "nat \<Rightarrow> u64 \<Rightarrow> string \<Rightarrow> u64 result" where
  "string_to_symbol_loop i r [] = Inr r"
| "string_to_symbol_loop i r (c # cs) =
    SNAX_ASSERT (upper c) symbol_type_exception (
    if 8 * (i + 1) \<ge> 64 then Inl undefined_behaviour
    else string_to_symbol_loop (i + 1) (r OR push_bit (8 * (i + 1)) (of_char c)) cs)"

definition string_to_symbol :: "u8 \<Rightarrow> string \<Rightarrow> u64 result" where
  "string_to_symbol precision str =
    ebind (string_to_symbol_loop 0 0 (c_str str)) (\<lambda>r. Inr (r OR ucast precision))"

function symbol_name_loop :: "u64 \<Rightarrow> string" where
  "symbol_name_loop v = (if v = 0 then [] else char_of (unat (v AND 0xFF)) # symbol_name_loop (drop_bit 8 v))"
  by pat_completeness auto

termination
proof (relation "measure unat")
  fix v :: u64 assume "v \<noteq> 0"
  then have "0 < unat v" by (simp add: unat_gt_0)
  then have "unat v div 256 < unat v" by simp
  then show "(drop_bit 8 v, v) \<in> measure unat" by (simp add: drop_bit_eq_div unat_div)
qed simp

declare symbol_name_loop.simps [simp del]

definition symbol_name :: "u64 \<Rightarrow> string" where
  "symbol_name m_value = symbol_name_loop (drop_bit 8 m_value)"

definition symbol_decimals :: "u64 \<Rightarrow> u8" where
  "symbol_decimals m_value = ucast (m_value AND 0xFF)"

definition max_precision :: u8 where "max_precision = 18"

definition valid_name :: "string \<Rightarrow> bool" where
  "valid_name name = list_all upper name"

definition symbol_valid :: "u64 \<Rightarrow> bool" where
  "symbol_valid m_value \<longleftrightarrow> symbol_decimals m_value \<le> max_precision \<and> valid_name (symbol_name m_value)"

fun p10_loop :: "nat \<Rightarrow> u64 \<Rightarrow> u64" where
  "p10_loop 0 p10 = p10"
| "p10_loop (Suc p) p10 = p10_loop p (p10 * 10)"

definition symbol_precision :: "u64 \<Rightarrow> u64 result" where
  "symbol_precision m_value =
    SNAX_ASSERT (symbol_decimals m_value \<le> max_precision) symbol_type_exception
      (Inr (p10_loop (unat (symbol_decimals m_value)) 1))"

definition symbol_of_value :: "u64 \<Rightarrow> u64 result" where
  "symbol_of_value v = SNAX_ASSERT (symbol_valid v) symbol_type_exception (Inr v)"

section \<open>Text of the fc library\<close>

record fc_text =
  fc_trim :: "string \<Rightarrow> string"
  fc_to_string :: "int \<Rightarrow> string"
  fc_to_int64 :: "string \<Rightarrow> int result"
  fc_safe_mul :: "int \<Rightarrow> int \<Rightarrow> int result"
  fc_safe_add :: "int \<Rightarrow> int \<Rightarrow> int result"

text \<open>Decimal numbers: \<^verbatim>\<open>std::to_string\<close> of an unsigned number, and the value of a string of digits.\<close>

fun dec :: "nat \<Rightarrow> string" where
  "dec n = (if n < 10 then [char_of (48 + n)] else dec (n div 10) @ [char_of (48 + n mod 10)])"

declare dec.simps [simp del]

definition digit :: "char \<Rightarrow> bool" where
  "digit c \<longleftrightarrow> 48 \<le> (of_char c :: nat) \<and> (of_char c :: nat) \<le> 57"

definition dec_value :: "string \<Rightarrow> nat" where
  "dec_value ds = foldl (\<lambda>n c. 10 * n + (of_char c - 48)) 0 ds"

definition str_find :: "char \<Rightarrow> string \<Rightarrow> nat option" where
  "str_find c s = (if c \<in> set s then Some (length (takeWhile (\<lambda>d. d \<noteq> c) s)) else None)"

definition symbol_to_string :: "u64 \<Rightarrow> string" where
  "symbol_to_string m_value = dec (unat (symbol_decimals m_value)) @ '','' @ symbol_name m_value"

definition symbol_from_string :: "fc_text \<Rightarrow> string \<Rightarrow> u64 result" where
  "symbol_from_string fc s0 =
    (let s = fc_trim fc s0 in
     SNAX_ASSERT (s \<noteq> []) symbol_type_exception (
     case str_find (CHR '','') s of
       None \<Rightarrow> Inl symbol_type_exception
     | Some comma_pos \<Rightarrow>
         ebind (fc_to_int64 fc (take comma_pos s)) (\<lambda>n.
         let p = word_of_int n; name_part = drop (comma_pos + 1) s in
         SNAX_ASSERT (p \<le> max_precision) symbol_type_exception (
         ebind (string_to_symbol p name_part) symbol_of_value))))"

section \<open>Assets of the node\<close>

record asset =
  as_amount :: int
  as_sym :: u64

definition max_amount :: int where "max_amount = 2 ^ 62 - 1"

definition is_amount_within_range :: "asset \<Rightarrow> bool" where
  "is_amount_within_range a \<longleftrightarrow> - max_amount \<le> as_amount a \<and> as_amount a \<le> max_amount"

definition asset_is_valid :: "asset \<Rightarrow> bool" where
  "asset_is_valid a \<longleftrightarrow> is_amount_within_range a \<and> symbol_valid (as_sym a)"

definition new_asset :: "int \<Rightarrow> u64 \<Rightarrow> asset result" where
  "new_asset amount sm =
    (let a = \<lparr>as_amount = amount, as_sym = sm\<rparr> in
     SNAX_ASSERT (is_amount_within_range a) asset_type_exception (
     SNAX_ASSERT (symbol_valid sm) asset_type_exception (Inr a)))"

text \<open>\<^verbatim>\<open>fc::to_string(precision() + fract).erase(0,1)\<close> is the fraction with its leading zeros.\<close>

definition asset_to_string :: "fc_text \<Rightarrow> asset \<Rightarrow> string result" where
  "asset_to_string fc a =
    ebind (symbol_precision (as_sym a)) (\<lambda>p.
    let precision = sint p; sign = (if as_amount a < 0 then ''-'' else ''''); abs_amount = \<bar>as_amount a\<bar>;
        result = fc_to_string fc (abs_amount sdiv precision);
        result = (if symbol_decimals (as_sym a) \<noteq> 0
                  then let fract = abs_amount smod precision in result @ ''.'' @ tl (fc_to_string fc (precision + fract))
                  else result) in
    Inr (sign @ result @ '' '' @ symbol_name (as_sym a)))"

definition asset_from_parts :: "fc_text \<Rightarrow> string \<Rightarrow> string \<Rightarrow> asset result" where
  "asset_from_parts fc amount_str symbol_str =
    (let dot_pos = str_find (CHR ''.'') amount_str in
     SNAX_ASSERT (case dot_pos of None \<Rightarrow> True | Some d \<Rightarrow> d \<noteq> length amount_str - 1) asset_type_exception (
     let precision_digit_str = (case dot_pos of None \<Rightarrow> ''0'' | Some d \<Rightarrow> dec (length amount_str - d - 1)) in
     ebind (symbol_from_string fc (precision_digit_str @ '','' @ symbol_str)) (\<lambda>sm.
     ebind (case dot_pos of
         None \<Rightarrow> ebind (fc_to_int64 fc amount_str) (\<lambda>i. Inr (i, 0))
       | Some d \<Rightarrow>
           ebind (fc_to_int64 fc (take d amount_str)) (\<lambda>i.
           ebind (fc_to_int64 fc (drop (d + 1) amount_str)) (\<lambda>f.
           ebind (if hd amount_str = CHR ''-'' then fc_safe_mul fc f (- 1) else Inr f) (\<lambda>f. Inr (i, f)))))
       (\<lambda>(int_part, fract_part).
     ebind (symbol_precision sm) (\<lambda>p.
     ebind (fc_safe_mul fc int_part (sint p)) (\<lambda>amount.
     ebind (fc_safe_add fc amount fract_part) (\<lambda>amount.
     new_asset amount sm)))))))"

definition asset_from_string :: "fc_text \<Rightarrow> string \<Rightarrow> asset result" where
  "asset_from_string fc s0 =
    (let s = fc_trim fc s0 in
     case str_find (CHR '' '') s of
       None \<Rightarrow> Inl asset_type_exception
     | Some space_pos \<Rightarrow> asset_from_parts fc (take space_pos s) (fc_trim fc (drop (space_pos + 1) s)))"

section \<open>Symbols and their names\<close>

lemma and_low_byte: "v AND 0xFF = take_bit 8 v" for v :: u64
  by (simp add: take_bit_eq_mask mask_eq_exp_minus_1)

lemma word_name_split: "v = push_bit 8 (drop_bit 8 v) OR (v AND 0xFF)" for v :: u64
  unfolding and_low_byte by (rule bit_eqI) (auto simp: bit_simps)

lemma unat_low_byte: "unat (v AND 0xFF) < 256" for v :: u64
  unfolding and_low_byte unsigned_take_bit_eq using take_bit_nat_less_exp [of 8 "unat v"] by simp

lemma low_byte: "of_char (char_of (unat (w AND 0xFF))) = w AND 0xFF" for w :: u64
proof -
  have "(of_char (char_of (unat (w AND 0xFF))) :: u64) = of_nat (of_char (char_of (unat (w AND 0xFF))))"
    by (simp only: of_nat_of_char)
  also have "\<dots> = of_nat (unat (w AND 0xFF))" using unat_low_byte [of w] by simp
  finally show ?thesis by simp
qed

lemma string_to_symbol_loop_name:
  "valid_name (symbol_name_loop w) \<Longrightarrow> unat w < 2 ^ (56 - 8 * i) \<Longrightarrow> i \<le> 7 \<Longrightarrow>
    string_to_symbol_loop i r (symbol_name_loop w) = Inr (r OR push_bit (8 * (i + 1)) w)"
proof (induction w arbitrary: i r rule: symbol_name_loop.induct)
  case (1 w)
  show ?case
  proof (cases "w = 0")
    case True
    then show ?thesis by (simp add: symbol_name_loop.simps)
  next
    case False
    have u: "upper (char_of (unat (w AND 0xFF)))" "valid_name (symbol_name_loop (drop_bit 8 w))"
      using 1(2) False by (simp_all add: symbol_name_loop.simps [of w] valid_name_def)
    have i: "i \<noteq> 7" using 1(3) False by (auto simp: unat_eq_0)
    have w: "unat (drop_bit 8 w) < 2 ^ (56 - 8 * (i + 1))"
    proof -
      have "2 ^ (56 - 8 * i) = 256 * (2 ^ (56 - 8 * (i + 1)) :: nat)"
        using i 1(4) power_add [of "2 :: nat" 8 "48 - 8 * i"] by (simp add: add.commute)
      then show ?thesis using 1(3) by (simp add: drop_bit_eq_div unat_div less_mult_imp_div_less mult.commute)
    qed
    have step: "string_to_symbol_loop i r (symbol_name_loop w) =
        string_to_symbol_loop (i + 1) (r OR push_bit (8 * (i + 1)) (w AND 0xFF)) (symbol_name_loop (drop_bit 8 w))"
      using False u(1) i 1(4) by (simp add: symbol_name_loop.simps [of w] low_byte)
    have "string_to_symbol_loop i r (symbol_name_loop w) =
        Inr ((r OR push_bit (8 * (i + 1)) (w AND 0xFF)) OR push_bit (8 * (i + 1 + 1)) (drop_bit 8 w))"
      unfolding step by (rule 1(1) [OF False u(2) w]) (use i 1(4) in simp)
    also have "(r OR push_bit (8 * (i + 1)) (w AND 0xFF)) OR push_bit (8 * (i + 1 + 1)) (drop_bit 8 w)
        = r OR push_bit (8 * (i + 1)) (push_bit 8 (drop_bit 8 w) OR (w AND 0xFF))"
      by (simp add: push_bit_or or.assoc or.commute or.left_commute push_bit_push_bit add.commute)
    finally show ?thesis by (simp flip: word_name_split)
  qed
qed

lemma valid_name_c_str: "valid_name s \<Longrightarrow> c_str s = s"
proof -
  assume "valid_name s"
  then have "\<forall>c\<in>set s. c \<noteq> CHR 0x00" by (auto simp: valid_name_def list_all_iff upper_def)
  then show "c_str s = s" by (simp add: c_str_def takeWhile_eq_all_conv)
qed

lemma string_to_symbol_name:
  assumes "symbol_valid v"
  shows "string_to_symbol (symbol_decimals v) (symbol_name v) = Inr v"
proof -
  have n: "valid_name (symbol_name_loop (drop_bit 8 v))" using assms by (simp add: symbol_valid_def symbol_name_def)
  have "unat (drop_bit 8 v) < 2 ^ 56" using unat_bound [of v] by (simp add: drop_bit_eq_div unat_div less_mult_imp_div_less)
  then have "string_to_symbol_loop 0 0 (symbol_name v) = Inr (push_bit 8 (drop_bit 8 v))"
    using string_to_symbol_loop_name [OF n, of 0 0] by (simp add: symbol_name_def)
  moreover have "(ucast (symbol_decimals v) :: u64) = v AND 0xFF"
    unfolding symbol_decimals_def and_low_byte by (rule bit_eqI) (auto simp: bit_simps)
  ultimately show ?thesis using valid_name_c_str [OF n] word_name_split [of v]
    by (simp add: string_to_symbol_def symbol_name_def)
qed

text \<open>A name of eight letters or more is not refused: the shift leaves the word.\<close>

lemma string_to_symbol_long:
  "list_all upper cs \<Longrightarrow> i + length cs > 7 \<Longrightarrow> i \<le> 7 \<Longrightarrow> string_to_symbol_loop i r cs = Inl undefined_behaviour"
proof (induction cs arbitrary: i r)
  case (Cons c cs)
  then show ?case using Cons.IH [of "i + 1"] by (cases "i = 7") auto
qed simp

section \<open>Decimal numbers\<close>

fun padded :: "nat \<Rightarrow> nat \<Rightarrow> string" where
  "padded 0 f = []"
| "padded (Suc d) f = padded d (f div 10) @ [char_of (48 + f mod 10)]"

lemma digit_char: "n < 10 \<Longrightarrow> of_char (char_of (48 + n)) = 48 + n" "n < 10 \<Longrightarrow> digit (char_of (48 + n))" for n :: nat
  by (simp_all add: digit_def)

lemma dec_value_snoc [simp]: "dec_value (ds @ [c]) = 10 * dec_value ds + (of_char c - 48)"
  by (simp add: dec_value_def)

lemma dec_value_Nil [simp]: "dec_value [] = 0"
  by (simp add: dec_value_def)

lemma dec_props: "dec_value (dec n) = n" "list_all digit (dec n)" "dec n \<noteq> []"
proof (induction n rule: dec.induct)
  case (1 n)
  have r: "dec_value [char_of (48 + n)] = n" if "n < 10" using that dec_value_snoc [of "[]"] by (simp add: digit_char)
  { case 1
    then show ?case using r 1 \<open>\<not> n < 10 \<Longrightarrow> dec_value (dec (n div 10)) = n div 10\<close>
      by (cases "n < 10") (simp_all add: dec.simps [of n] digit_char)
  next
    case 2
    then show ?case using \<open>\<not> n < 10 \<Longrightarrow> list_all digit (dec (n div 10))\<close>
      by (cases "n < 10") (simp_all add: dec.simps [of n] digit_char)
  next
    case 3
    then show ?case by (simp add: dec.simps [of n]) }
qed

lemma padded_props: "f < 10 ^ d \<Longrightarrow> dec_value (padded d f) = f" "list_all digit (padded d f)" "length (padded d f) = d"
  by (induction d arbitrary: f) (auto simp: digit_char less_mult_imp_div_less mult.commute)

lemma dec_padded: "f < 10 ^ d \<Longrightarrow> dec (10 ^ d + f) = CHR ''1'' # padded d f"
proof (induction d arbitrary: f)
  case 0
  have "char_of (49 :: nat) = CHR ''1''" by code_simp
  with 0 show ?case by (simp add: dec.simps)
next
  case (Suc d)
  have d: "(10 ^ Suc d + f) div 10 = 10 ^ d + f div 10" "(10 ^ Suc d + f) mod 10 = f mod 10" by simp_all
  have "f div 10 < 10 ^ d" using Suc.prems by (simp add: less_mult_imp_div_less mult.commute)
  moreover have "\<not> 10 ^ Suc d + f < (10 :: nat)" 
  proof -
    have "(1 :: nat) \<le> 10 ^ d" by simp
    then have "(10 :: nat) \<le> 10 * 10 ^ d" by linarith
    then show ?thesis unfolding power_Suc by linarith
  qed
  ultimately show ?case using Suc.IH [of "f div 10"] unfolding dec.simps [of "10 ^ Suc d + f"] d by simp
qed

text \<open>What the code relies on of the fc library: strings without outer blanks are not changed by
  trimming, numbers are printed and read in decimal, and checked arithmetic is exact where the result fits.\<close>

definition visible :: "char \<Rightarrow> bool" where
  "visible c \<longleftrightarrow> 33 \<le> (of_char c :: nat) \<and> (of_char c :: nat) \<le> 126"

definition fc_laws :: "fc_text \<Rightarrow> bool" where
  "fc_laws fc \<longleftrightarrow> (\<forall>s. s \<noteq> [] \<longrightarrow> visible (hd s) \<longrightarrow> visible (last s) \<longrightarrow> fc_trim fc s = s)
     \<and> (\<forall>n. n < 2 ^ 63 \<longrightarrow> fc_to_string fc (int n) = dec n)
     \<and> (\<forall>ds. ds \<noteq> [] \<longrightarrow> list_all digit ds \<longrightarrow> dec_value ds < 2 ^ 63 \<longrightarrow>
          fc_to_int64 fc ds = Inr (int (dec_value ds)) \<and> fc_to_int64 fc (CHR ''-'' # ds) = Inr (- int (dec_value ds)))
     \<and> (\<forall>a b. in_i64 (a * b) \<longrightarrow> fc_safe_mul fc a b = Inr (a * b))
     \<and> (\<forall>a b. in_i64 (a + b) \<longrightarrow> fc_safe_add fc a b = Inr (a + b))"

lemma fc_lawsD:
  assumes "fc_laws fc"
  shows "s \<noteq> [] \<Longrightarrow> visible (hd s) \<Longrightarrow> visible (last s) \<Longrightarrow> fc_trim fc s = s"
    "n < 2 ^ 63 \<Longrightarrow> fc_to_string fc (int n) = dec n"
    "ds \<noteq> [] \<Longrightarrow> list_all digit ds \<Longrightarrow> dec_value ds < 2 ^ 63 \<Longrightarrow> fc_to_int64 fc ds = Inr (int (dec_value ds))"
    "ds \<noteq> [] \<Longrightarrow> list_all digit ds \<Longrightarrow> dec_value ds < 2 ^ 63 \<Longrightarrow> fc_to_int64 fc (CHR ''-'' # ds) = Inr (- int (dec_value ds))"
    "in_i64 (a * b) \<Longrightarrow> fc_safe_mul fc a b = Inr (a * b)" "in_i64 (a + b) \<Longrightarrow> fc_safe_add fc a b = Inr (a + b)"
  using assms unfolding fc_laws_def by blast+

lemma digit_visible: "digit c \<Longrightarrow> visible c" and upper_visible: "upper c \<Longrightarrow> visible c"
  by (simp_all add: digit_def upper_def visible_def)

lemma char_classes:
  "digit c \<Longrightarrow> c \<noteq> CHR '' ''" "digit c \<Longrightarrow> c \<noteq> CHR ''.''" "digit c \<Longrightarrow> c \<noteq> CHR '',''" "digit c \<Longrightarrow> c \<noteq> CHR ''-''"
  "upper c \<Longrightarrow> c \<noteq> CHR '' ''" "upper c \<Longrightarrow> c \<noteq> CHR '',''" "visible (CHR ''-'')"
  by (auto simp: digit_def upper_def visible_def)

lemma str_find_append: "c \<notin> set a \<Longrightarrow> str_find c (a @ c # b) = Some (length a)"
  by (auto simp: str_find_def takeWhile_append)

lemma str_find_None: "c \<notin> set a \<Longrightarrow> str_find c a = None"
  by (simp add: str_find_def)

lemma digits_free:
  "list_all digit ds \<Longrightarrow> CHR '' '' \<notin> set ds" "list_all digit ds \<Longrightarrow> CHR ''.'' \<notin> set ds"
  "list_all digit ds \<Longrightarrow> CHR '','' \<notin> set ds"
  by (auto simp: list_all_iff digit_def)

lemma symbol_decimals_small: "symbol_valid v \<Longrightarrow> unat (symbol_decimals v) \<le> 18"
  by (simp add: symbol_valid_def max_precision_def word_le_nat_alt)

section \<open>Symbols are read back\<close>

lemma symbol_from_to_string:
  assumes fc: "fc_laws fc" and v: "symbol_valid v" and n: "symbol_name v \<noteq> []"
  shows "symbol_from_string fc (symbol_to_string v) = Inr v"
proof -
  let ?d = "dec (unat (symbol_decimals v))" and ?n = "symbol_name v"
  have nm: "list_all upper ?n" using v by (simp add: symbol_valid_def valid_name_def)
  have d: "?d \<noteq> []" "list_all digit ?d" "dec_value ?d = unat (symbol_decimals v)" using dec_props by simp_all
  have "visible (hd ?d)" using d by (cases ?d) (auto intro: digit_visible)
  moreover have "visible (last ?n)" using nm n by (cases ?n rule: rev_cases) (auto intro: upper_visible)
  ultimately have t: "fc_trim fc (?d @ CHR '','' # ?n) = ?d @ CHR '','' # ?n"
    using fc_lawsD(1) [OF fc, of "?d @ CHR '','' # ?n"] d(1) n by simp
  have "CHR '','' \<notin> set ?d" using digits_free(3) [OF d(2)] .
  then have f: "str_find (CHR '','') (?d @ CHR '','' # ?n) = Some (length ?d)" by (rule str_find_append)
  have i: "fc_to_int64 fc ?d = Inr (int (unat (symbol_decimals v)))"
    using fc_lawsD(3) [OF fc d(1,2)] symbol_decimals_small [OF v] d(3) by simp
  have "symbol_decimals v \<le> max_precision" using v by (simp add: symbol_valid_def)
  then show ?thesis using t f i d(1) string_to_symbol_name [OF v] v
    by (simp add: symbol_from_string_def symbol_to_string_def Let_def symbol_of_value_def)
qed

section \<open>Assets are read back\<close>

lemma p10_loop_eq: "p10_loop d x = x * 10 ^ d"
  by (induction d arbitrary: x) simp_all

lemma sint_p10:
  assumes "d \<le> 18"
  shows "sint (10 ^ d :: u64) = 10 ^ d"
proof -
  have w: "(10 ^ d :: u64) = word_of_int (10 ^ d)" by simp
  have "(10 :: int) ^ d \<le> 10 ^ 18" using assms by (rule power_increasing) simp
  then have "(10 :: int) ^ d < 2 ^ 63" by simp
  then have "signed_take_bit 63 ((10 :: int) ^ d) = 10 ^ d"
    by (intro signed_take_bit_int_eq_self) (auto intro: order_trans [of _ 0])
  then show ?thesis unfolding w signed_of_int by simp
qed

lemma symbol_precision_valid:
  assumes "symbol_valid v"
  shows "\<exists>p. symbol_precision v = Inr p \<and> sint p = 10 ^ unat (symbol_decimals v)"
  using assms symbol_decimals_small [OF assms] sint_p10
  by (simp add: symbol_precision_def symbol_valid_def p10_loop_eq)

definition sign_str :: "int \<Rightarrow> string" where
  "sign_str a = (if a < 0 then ''-'' else '''')"

definition fraction_str :: "nat \<Rightarrow> nat \<Rightarrow> string" where
  "fraction_str d f = (if d \<noteq> 0 then CHR ''.'' # padded d f else [])"

lemma asset_to_string_form:
  assumes fc: "fc_laws fc" and a: "asset_is_valid a" and d: "d = unat (symbol_decimals (as_sym a))"
    and m: "m = nat \<bar>as_amount a\<bar>"
  shows "asset_to_string fc a = Inr (sign_str (as_amount a) @ dec (m div 10 ^ d) @ fraction_str d (m mod 10 ^ d)
    @ CHR '' '' # symbol_name (as_sym a))"
proof -
  have v: "symbol_valid (as_sym a)" and r: "\<bar>as_amount a\<bar> < 2 ^ 62"
    using a by (auto simp: asset_is_valid_def is_amount_within_range_def max_amount_def)
  obtain p where p: "symbol_precision (as_sym a) = Inr p" "sint p = 10 ^ d"
    using symbol_precision_valid [OF v] d by blast
  have d18: "d \<le> 18" using symbol_decimals_small [OF v] d by simp
  have im: "\<bar>as_amount a\<bar> = int m" using m by simp
  have q: "\<bar>as_amount a\<bar> sdiv 10 ^ d = int (m div 10 ^ d)" "\<bar>as_amount a\<bar> smod 10 ^ d = int (m mod 10 ^ d)"
    unfolding im by (cases "m = 0";
      simp add: signed_divide_int_def signed_modulo_int_def of_nat_mod zdiv_int minus_div_mult_eq_mod [symmetric])+
  have m63: "m < 2 ^ 62" using r im by simp
  then have s1: "fc_to_string fc (int (m div 10 ^ d)) = dec (m div 10 ^ d)"
    by (intro fc_lawsD(2) [OF fc] le_less_trans [OF div_le_dividend]) simp
  have f: "m mod 10 ^ d < 10 ^ d" by simp
  have "(10 :: nat) ^ d \<le> 10 ^ 18" using d18 by (rule power_increasing) simp
  then have "10 ^ d + m mod 10 ^ d < 2 * 10 ^ 18" using f by linarith
  then have "10 ^ d + m mod 10 ^ d < 2 ^ 63" by simp
  then have "fc_to_string fc (int (10 ^ d + m mod 10 ^ d)) = dec (10 ^ d + m mod 10 ^ d)" by (rule fc_lawsD(2) [OF fc])
  then have s2: "tl (fc_to_string fc (10 ^ d + int (m mod 10 ^ d))) = padded d (m mod 10 ^ d)"
    using dec_padded [OF f] by simp
  have z: "symbol_decimals (as_sym a) \<noteq> 0 \<longleftrightarrow> d \<noteq> 0" using d by (simp add: unat_eq_0)
  show ?thesis
    unfolding asset_to_string_def p ebind_Inr Let_def q z s1 s2 p(2) by (simp add: sign_str_def fraction_str_def)
qed

lemma to_int64_signed:
  assumes "fc_laws fc" "ds \<noteq> []" "list_all digit ds" "dec_value ds < 2 ^ 63"
  shows "fc_to_int64 fc (sign_str a @ ds) = Inr (if a < 0 then - int (dec_value ds) else int (dec_value ds))"
  using fc_lawsD(3,4) [OF assms] by (simp add: sign_str_def)

lemma asset_amount_parts:
  assumes "m = nat \<bar>a\<bar>"
  shows "(if a < 0 then - int (m div 10 ^ d) else int (m div 10 ^ d)) * 10 ^ d
    + (if a < 0 then - int (m mod 10 ^ d) else int (m mod 10 ^ d)) = a"
proof -
  have "int m = int (m div 10 ^ d) * 10 ^ d + int (m mod 10 ^ d)"
    by (simp add: zdiv_int zmod_int div_mult_mod_eq)
  then show ?thesis using assms by auto
qed

lemma in_i64_part: "\<bar>a\<bar> < 2 ^ 62 \<Longrightarrow> m = nat \<bar>a\<bar> \<Longrightarrow> in_i64 ((if a < 0 then - int (m div 10 ^ d) else int (m div 10 ^ d)) * 10 ^ d)"
proof -
  assume a: "\<bar>a\<bar> < 2 ^ 62" "m = nat \<bar>a\<bar>"
  define x where "x = int (m div 10 ^ d) * 10 ^ d"
  have "m div 10 ^ d * 10 ^ d \<le> m" by (rule div_times_less_eq_dividend)
  then have "int (m div 10 ^ d * 10 ^ d) \<le> int m" by (simp only: zle_int)
  then have "x \<le> int m" by (simp add: x_def)
  moreover have "0 \<le> x" by (simp add: x_def)
  ultimately have "in_i64 (if a < 0 then - x else x)" using a by (auto simp: in_i64_def)
  then show ?thesis unfolding x_def by (simp split: if_split_asm)
qed

lemma asset_from_string_split:
  assumes fc: "fc_laws fc" and am: "am \<noteq> []" "visible (hd am)" "CHR '' '' \<notin> set am" and n: "n \<noteq> []" "list_all upper n"
  shows "asset_from_string fc (am @ CHR '' '' # n) = asset_from_parts fc am n"
proof -
  have v: "visible (last n)" "visible (hd n)"
    using n last_in_set [OF n(1)] hd_in_set [OF n(1)] upper_visible by (simp_all add: list_all_iff)
  have "fc_trim fc (am @ CHR '' '' # n) = am @ CHR '' '' # n" "fc_trim fc n = n"
    using fc_lawsD(1) [OF fc, of "am @ CHR '' '' # n"] fc_lawsD(1) [OF fc n(1) v(2,1)] am n(1) v by simp_all
  then show ?thesis using str_find_append [OF am(3), of n] by (simp add: asset_from_string_def)
qed

text \<open>The text of an amount is read as its integer part and its fraction, both with the sign.\<close>

lemma asset_from_parts_amount:
  assumes fc: "fc_laws fc" and i: "i = sign_str a @ dec q" and q: "q < 2 ^ 63" and f: "f < 10 ^ d" "f < 2 ^ 63"
    and symb: "symbol_from_string fc (dec d @ '','' @ n) = Inr sm" and p: "symbol_precision sm = Inr p"
  shows "asset_from_parts fc (i @ fraction_str d f) n =
    ebind (fc_safe_mul fc (if a < 0 then - int q else int q) (sint p)) (\<lambda>x.
    ebind (fc_safe_add fc x (if a < 0 then - int f else int f)) (\<lambda>x. new_asset x sm))"
proof -
  have qd: "list_all digit (dec q)" "dec q \<noteq> []" "dec_value (dec q) = q" using dec_props by simp_all
  note int = to_int64_signed [OF fc qd(2,1), of a, unfolded qd(3), OF q, folded i]
  have dot: "CHR ''.'' \<notin> set i" using digits_free(2) [OF qd(1)] by (auto simp: i sign_str_def)
  show ?thesis
  proof (cases "d = 0")
    case True
    have "dec 0 = ''0''" by code_simp
    with True show ?thesis using str_find_None [OF dot] int symb p f(1)
      by (simp add: asset_from_parts_def fraction_str_def)
  next
    case False
    note pd = padded_props(2,3) [of d f] padded_props(1) [OF f(1)]
    have len: "length (i @ CHR ''.'' # padded d f) - length i - 1 = d" "length i \<noteq> length (i @ CHR ''.'' # padded d f) - 1"
      using False pd(2) by simp_all
    have ne: "padded d f \<noteq> []" using pd(2) False by auto
    have frac: "fc_to_int64 fc (padded d f) = Inr (int f)" using fc_lawsD(3) [OF fc ne pd(1)] pd(3) f(2) by simp
    have sg: "hd (i @ CHR ''.'' # padded d f) = CHR ''-'' \<longleftrightarrow> a < 0"
      using qd(1,2) hd_in_set [OF qd(2)] char_classes(4) by (auto simp: i sign_str_def list_all_iff)
    have neg: "fc_safe_mul fc (int f) (- 1) = Inr (- int f)" using fc_lawsD(5) [OF fc, of "int f" "- 1"] f(2) by (simp add: in_i64_def)
    show ?thesis
      using False str_find_append [OF dot, of "padded d f"] int frac sg neg symb p len
      by (simp add: asset_from_parts_def fraction_str_def Let_def)
  qed
qed

text \<open>C38. Printing an asset and reading it back gives the same asset, for every amount below
  \<open>2 ^ 62\<close> in absolute value and every valid symbol with a name, whatever the sign and the number of decimals, zero included: a comment
  on symbols says that it must be larger than zero, the code prints and reads such assets without a fraction.\<close>

theorem asset_roundtrip:
  assumes fc: "fc_laws fc" and a: "asset_is_valid a" and n: "symbol_name (as_sym a) \<noteq> []"
  shows "ebind (asset_to_string fc a) (asset_from_string fc) = Inr a"
proof -
  define d where "d = unat (symbol_decimals (as_sym a))"
  define m where "m = nat \<bar>as_amount a\<bar>"
  define i where "i = sign_str (as_amount a) @ dec (m div 10 ^ d)"
  let ?f = "m mod 10 ^ d" and ?n = "symbol_name (as_sym a)"
  have v: "symbol_valid (as_sym a)" and r: "\<bar>as_amount a\<bar> < 2 ^ 62"
    using a by (auto simp: asset_is_valid_def is_amount_within_range_def max_amount_def)
  have nm: "list_all upper ?n" using v by (simp add: symbol_valid_def valid_name_def)
  obtain p where p: "symbol_precision (as_sym a) = Inr p" "sint p = 10 ^ d" using symbol_precision_valid [OF v] d_def by blast
  have m63: "m < 2 ^ 63" using r by (simp add: m_def)
  have small: "m div 10 ^ d < 2 ^ 63" "?f < 2 ^ 63"
    using le_less_trans [OF div_le_dividend m63] le_less_trans [OF mod_less_eq_dividend m63] by blast+
  have symb: "symbol_from_string fc (dec d @ '','' @ ?n) = Inr (as_sym a)"
    using symbol_from_to_string [OF fc v n] by (simp add: symbol_to_string_def d_def)
  have ds: "list_all digit (dec (m div 10 ^ d))" "dec (m div 10 ^ d) \<noteq> []" using dec_props by simp_all
  have "visible (hd (dec (m div 10 ^ d)))" using ds(1) hd_in_set [OF ds(2)] digit_visible by (simp add: list_all_iff)
  then have "visible (hd (i @ fraction_str d ?f))" "i @ fraction_str d ?f \<noteq> []"
    using ds(2) by (simp_all add: i_def sign_str_def char_classes)
  moreover have "CHR '' '' \<notin> set (i @ fraction_str d ?f)"
    using digits_free(1) [OF padded_props(2)] digits_free(1) [OF ds(1)] by (auto simp: i_def sign_str_def fraction_str_def)
  ultimately have "asset_from_string fc ((i @ fraction_str d ?f) @ CHR '' '' # ?n) = asset_from_parts fc (i @ fraction_str d ?f) ?n"
    using asset_from_string_split [OF fc _ _ _ n nm] by blast
  also have "\<dots> = ebind (fc_safe_mul fc (if as_amount a < 0 then - int (m div 10 ^ d) else int (m div 10 ^ d)) (10 ^ d)) (\<lambda>x.
      ebind (fc_safe_add fc x (if as_amount a < 0 then - int ?f else int ?f)) (\<lambda>x. new_asset x (as_sym a)))"
    unfolding asset_from_parts_amount [OF fc i_def small(1) _ small(2) symb p(1), simplified] p(2) ..
  also have "\<dots> = Inr a"
    using fc_lawsD(5) [OF fc in_i64_part [OF r m_def, of d]] a r
      fc_lawsD(6) [OF fc, of "(if as_amount a < 0 then - int (m div 10 ^ d) else int (m div 10 ^ d)) * 10 ^ d"
        "if as_amount a < 0 then - int ?f else int ?f", unfolded asset_amount_parts [OF m_def, of d]]
    by (auto simp: new_asset_def Let_def asset_is_valid_def is_amount_within_range_def in_i64_def simp del: of_nat_mod of_nat_div)
  finally show ?thesis
    by (simp add: asset_to_string_form [OF fc a d_def m_def] i_def)
qed

subsection \<open>A text library\<close>

definition demo_fc :: fc_text where
  "demo_fc = \<lparr>fc_trim = (\<lambda>s. rev (dropWhile (\<lambda>c. \<not> visible c) (rev (dropWhile (\<lambda>c. \<not> visible c) s)))),
     fc_to_string = (\<lambda>n. dec (nat n)),
     fc_to_int64 = (\<lambda>s. case s of CHR ''-'' # ds \<Rightarrow> Inr (- int (dec_value ds)) | _ \<Rightarrow> Inr (int (dec_value s))),
     fc_safe_mul = (\<lambda>a b. if in_i64 (a * b) then Inr (a * b) else Inl overflow_exception),
     fc_safe_add = (\<lambda>a b. if in_i64 (a + b) then Inr (a + b) else Inl overflow_exception)\<rparr>"

lemma demo_fc_laws: "fc_laws demo_fc"
proof -
  have "rev (dropWhile (\<lambda>c. \<not> visible c) (rev (dropWhile (\<lambda>c. \<not> visible c) s))) = s"
    if "s \<noteq> []" "visible (hd s)" "visible (last s)" for s
  proof -
    have "dropWhile (\<lambda>c. \<not> visible c) s = s" using that by (cases s) auto
    moreover have "dropWhile (\<lambda>c. \<not> visible c) (rev s) = rev s" using that by (cases s rule: rev_cases) auto
    ultimately show ?thesis by simp
  qed
  moreover have "(case ds of CHR ''-'' # es \<Rightarrow> Inr (- int (dec_value es)) | _ \<Rightarrow> Inr (int (dec_value ds))) = (Inr (int (dec_value ds)) :: int result)"
    if ds: "ds \<noteq> []" "list_all digit ds" for ds
  proof -
    obtain c cs where c: "ds = c # cs" "c \<noteq> CHR ''-''" using ds char_classes(4) by (cases ds) auto
    then show ?thesis by (auto split: list.split char.split bool.split)
  qed
  ultimately show ?thesis by (simp add: fc_laws_def demo_fc_def)
qed

definition demo_asset :: asset where
  "demo_asset = \<lparr>as_amount = - 12345, as_sym = 0x584148534E04\<rparr>"

theorem asset_roundtrip_witness: "ebind (asset_to_string demo_fc demo_asset) (asset_from_string demo_fc) = Inr demo_asset"
proof -
  have "asset_is_valid demo_asset" "symbol_name (as_sym demo_asset) \<noteq> []" by code_simp+
  then show ?thesis by (rule asset_roundtrip [OF demo_fc_laws])
qed

end
