(* ===== verification/Token.thy ===== *)
theory Token
  imports Assets Permissions
begin

text \<open>
  The token contract (\<^verbatim>\<open>contracts/snax.token\<close>) with the symbols and the checked arithmetic of the
  contract library (\<^verbatim>\<open>snaxlib/symbol.hpp\<close>, \<^verbatim>\<open>snaxlib/asset.hpp\<close>).  The tables \<^verbatim>\<open>stat\<close> and
  \<^verbatim>\<open>accounts\<close> of the contract are unique indices whose rows carry the account that pays for
  them.  The scope of a row of \<^verbatim>\<open>stat\<close> is its key, so the key alone names the row; a row of
  \<^verbatim>\<open>accounts\<close> is named by its scope, the owner, and its key.  An action gets from its context the
  accounts that authorized it and which accounts exist; it notifies accounts and sends inline actions,
  which run after it.  Failures of the host when it bills the payer are not part of this model.
\<close>

abbreviation snax_assert :: "bool \<Rightarrow> string \<Rightarrow> 'a result \<Rightarrow> 'a result" where
  "snax_assert c msg k \<equiv> SNAX_ASSERT c (snax_assert_message_exception msg) k"

section \<open>Symbols of the contract library\<close>

fun no_more_chars :: "nat \<Rightarrow> u64 \<Rightarrow> bool" where
  "no_more_chars 0 s = True"
| "no_more_chars (Suc n) s = (let s = drop_bit 8 s in if s AND 0xFF \<noteq> 0 then False else no_more_chars n s)"

fun valid_chars :: "nat \<Rightarrow> u64 \<Rightarrow> bool" where
  "valid_chars 0 s = True"
| "valid_chars (Suc n) s =
    (let c = s AND 0xFF in
     if \<not> (65 \<le> c \<and> c \<le> 90) then False
     else let s = drop_bit 8 s in if s AND 0xFF = 0 then no_more_chars (Suc n) s else valid_chars n s)"

definition is_valid_symbol :: "u64 \<Rightarrow> bool" where
  "is_valid_symbol s = valid_chars 7 (drop_bit 8 s)"

definition sym_name :: "u64 \<Rightarrow> u64" where
  "sym_name value = drop_bit 8 value"

section \<open>Assets of the contract library\<close>

definition lib_is_valid :: "asset \<Rightarrow> bool" where
  "lib_is_valid a \<longleftrightarrow> is_amount_within_range a \<and> is_valid_symbol (as_sym a)"

definition asset_sub :: "asset \<Rightarrow> asset \<Rightarrow> asset result" where
  "asset_sub this a =
    snax_assert (as_sym a = as_sym this) ''attempt to subtract asset with different symbol'' (
    let amount = wrap_i64 (as_amount this - as_amount a) in
    snax_assert (- max_amount \<le> amount) ''subtraction underflow'' (
    snax_assert (amount \<le> max_amount) ''subtraction overflow'' (Inr (this\<lparr>as_amount := amount\<rparr>))))"

definition asset_add :: "asset \<Rightarrow> asset \<Rightarrow> asset result" where
  "asset_add this a =
    snax_assert (as_sym a = as_sym this) ''attempt to add asset with different symbol'' (
    let amount = wrap_i64 (as_amount this + as_amount a) in
    snax_assert (- max_amount \<le> amount) ''addition underflow'' (
    snax_assert (amount \<le> max_amount) ''addition overflow'' (Inr (this\<lparr>as_amount := amount\<rparr>))))"

definition asset_mul :: "asset \<Rightarrow> int \<Rightarrow> asset result" where
  "asset_mul this a =
    (let tmp = as_amount this * a in
     snax_assert (tmp \<le> max_amount) ''multiplication overflow'' (
     snax_assert (tmp \<ge> - max_amount) ''multiplication underflow'' (Inr (this\<lparr>as_amount := tmp\<rparr>))))"

definition asset_div :: "asset \<Rightarrow> int \<Rightarrow> asset result" where
  "asset_div this a =
    snax_assert (a \<noteq> 0) ''divide by zero'' (
    snax_assert (\<not> (as_amount this = - (2 ^ 63) \<and> a = - 1)) ''signed division overflow'' (
    Inr (this\<lparr>as_amount := as_amount this sdiv a\<rparr>)))"

section \<open>Tables of the contract library\<close>

type_synonym ('k, 'v) multi_index = "('k, account_name \<times> 'v) index"

definition mi_get :: "('k, 'v) multi_index \<Rightarrow> 'k \<Rightarrow> string \<Rightarrow> 'v result" where
  "mi_get t k error_msg =
    (case idx_find t k of None \<Rightarrow> Inl (snax_assert_message_exception error_msg) | Some (payer, v) \<Rightarrow> Inr v)"

definition mi_emplace :: "('k::linorder, 'v) multi_index \<Rightarrow> account_name \<Rightarrow> 'k \<Rightarrow> 'v \<Rightarrow> ('k, 'v) multi_index result" where
  "mi_emplace t payer k v = SNAX_ASSERT (payer \<noteq> 0) invalid_table_payer (idx_create k (payer, v) t)"

text \<open>An update with the payer 0 keeps the payer of the row.\<close>

definition mi_modify ::
  "('k::linorder, 'v) multi_index \<Rightarrow> 'k \<Rightarrow> account_name \<Rightarrow> ('v \<Rightarrow> 'v result) \<Rightarrow> ('k, 'v) multi_index result" where
  "mi_modify t k payer updater =
    (case idx_find t k of
       None \<Rightarrow> Inl undefined_behaviour
     | Some (old, v) \<Rightarrow> ebind (updater v) (\<lambda>v. Inr (idx_put k (if payer = 0 then old else payer, v) t)))"

section \<open>The contract\<close>

record currency_stats =
  cs_supply :: asset
  cs_max_supply :: asset
  cs_issuer :: account_name

datatype token_action =
    Create account_name asset
  | Issue account_name asset string
  | Transfer account_name account_name asset string

record token_state =
  tk_stats :: "(u64, currency_stats) multi_index"
  tk_accounts :: "(account_name \<times> u64, asset) multi_index"
  tk_notified :: "account_name list"
  tk_inline :: "(permission_level \<times> token_action) list"

record token_context =
  tc_self :: account_name
  tc_auths :: "permission_level list"
  tc_is_account :: "account_name \<Rightarrow> bool"

definition tk_require_auth :: "token_context \<Rightarrow> account_name \<Rightarrow> 'a result \<Rightarrow> 'a result" where
  "tk_require_auth c a k = SNAX_ASSERT (a \<in> fst ` set (tc_auths c)) missing_auth_exception k"

definition tk_require_recipient :: "account_name \<Rightarrow> token_state \<Rightarrow> token_state" where
  "tk_require_recipient a s = (if a \<in> set (tk_notified s) then s else s\<lparr>tk_notified := tk_notified s @ [a]\<rparr>)"

definition token_create :: "token_context \<Rightarrow> token_state \<Rightarrow> account_name \<Rightarrow> asset \<Rightarrow> token_state result" where
  "token_create c s issuer maximum_supply =
    tk_require_auth c (tc_self c) (
    let sm = as_sym maximum_supply in
    snax_assert (is_valid_symbol sm) ''invalid symbol name'' (
    snax_assert (lib_is_valid maximum_supply) ''invalid supply'' (
    snax_assert (as_amount maximum_supply > 0) ''max-supply must be positive'' (
    snax_assert (idx_find (tk_stats s) (sym_name sm) = None) ''token with symbol already exists'' (
    ebind (mi_emplace (tk_stats s) (tc_self c) (sym_name sm)
      \<lparr>cs_supply = \<lparr>as_amount = 0, as_sym = sm\<rparr>, cs_max_supply = maximum_supply, cs_issuer = issuer\<rparr>) (\<lambda>t.
    Inr (s\<lparr>tk_stats := t\<rparr>)))))))"

definition sub_balance :: "token_state \<Rightarrow> account_name \<Rightarrow> asset \<Rightarrow> token_state result" where
  "sub_balance s owner value =
    (let key = (owner, sym_name (as_sym value)) in
     ebind (mi_get (tk_accounts s) key ''no balance object found'') (\<lambda>balance.
     snax_assert (as_amount balance \<ge> as_amount value) ''overdrawn balance'' (
     if as_amount balance = as_amount value then Inr (s\<lparr>tk_accounts := idx_remove key (tk_accounts s)\<rparr>)
     else ebind (mi_modify (tk_accounts s) key owner (\<lambda>b. asset_sub b value)) (\<lambda>t. Inr (s\<lparr>tk_accounts := t\<rparr>)))))"

definition add_balance :: "token_state \<Rightarrow> account_name \<Rightarrow> asset \<Rightarrow> account_name \<Rightarrow> token_state result" where
  "add_balance s owner value ram_payer =
    (let key = (owner, sym_name (as_sym value)) in
     ebind (if idx_find (tk_accounts s) key = None then mi_emplace (tk_accounts s) ram_payer key value
            else mi_modify (tk_accounts s) key 0 (\<lambda>b. asset_add b value)) (\<lambda>t.
     Inr (s\<lparr>tk_accounts := t\<rparr>)))"

definition token_issue :: "token_context \<Rightarrow> token_state \<Rightarrow> account_name \<Rightarrow> asset \<Rightarrow> string \<Rightarrow> token_state result" where
  "token_issue c s to quantity memo =
    (let sm = as_sym quantity in
     snax_assert (is_valid_symbol sm) ''invalid symbol name'' (
     snax_assert (length memo \<le> 256) ''memo has more than 256 bytes'' (
     ebind (mi_get (tk_stats s) (sym_name sm) ''token with symbol does not exist, create token before issue'') (\<lambda>st.
     tk_require_auth c (cs_issuer st) (
     snax_assert (lib_is_valid quantity) ''invalid quantity'' (
     snax_assert (as_amount quantity > 0) ''must issue positive quantity'' (
     snax_assert (sm = as_sym (cs_supply st)) ''symbol precision mismatch'' (
     snax_assert (as_amount quantity \<le> wrap_i64 (as_amount (cs_max_supply st) - as_amount (cs_supply st)))
       ''quantity exceeds available supply'' (
     ebind (mi_modify (tk_stats s) (sym_name sm) 0 (\<lambda>st.
       ebind (asset_add (cs_supply st) quantity) (\<lambda>supply. Inr (st\<lparr>cs_supply := supply\<rparr>)))) (\<lambda>t.
     ebind (add_balance (s\<lparr>tk_stats := t\<rparr>) (cs_issuer st) quantity (cs_issuer st)) (\<lambda>s.
     Inr (if to \<noteq> cs_issuer st
          then s\<lparr>tk_inline := tk_inline s @ [((cs_issuer st, active_name), Transfer (cs_issuer st) to quantity memo)]\<rparr>
          else s))))))))))))"

definition token_transfer ::
  "token_context \<Rightarrow> token_state \<Rightarrow> account_name \<Rightarrow> account_name \<Rightarrow> asset \<Rightarrow> string \<Rightarrow> token_state result" where
  "token_transfer c s from' to quantity memo =
    snax_assert (from' \<noteq> to) ''cannot transfer to self'' (
    tk_require_auth c from' (
    snax_assert (tc_is_account c to) ''to account does not exist'' (
    ebind (mi_get (tk_stats s) (sym_name (as_sym quantity)) ''unable to find key'') (\<lambda>st.
    let s = tk_require_recipient to (tk_require_recipient from' s) in
    snax_assert (lib_is_valid quantity) ''invalid quantity'' (
    snax_assert (as_amount quantity > 0) ''must transfer positive quantity'' (
    snax_assert (as_sym quantity = as_sym (cs_supply st)) ''symbol precision mismatch'' (
    snax_assert (length memo \<le> 256) ''memo has more than 256 bytes'' (
    ebind (sub_balance s from' quantity) (\<lambda>s. add_balance s to quantity from')))))))))"

text \<open>The dispatch of an action, with the notifications and inline actions of this action alone.\<close>

fun token_apply :: "token_context \<Rightarrow> token_state \<Rightarrow> token_action \<Rightarrow> token_state result" where
  "token_apply c s (Create issuer maximum_supply) = token_create c s issuer maximum_supply"
| "token_apply c s (Issue to quantity memo) = token_issue c s to quantity memo"
| "token_apply c s (Transfer from' to quantity memo) = token_transfer c s from' to quantity memo"

definition get_supply :: "token_state \<Rightarrow> u64 \<Rightarrow> asset result" where
  "get_supply s sm = ebind (mi_get (tk_stats s) sm ''unable to find key'') (\<lambda>st. Inr (cs_supply st))"

definition get_max_supply :: "token_state \<Rightarrow> u64 \<Rightarrow> asset result" where
  "get_max_supply s sm = ebind (mi_get (tk_stats s) sm ''unable to find key'') (\<lambda>st. Inr (cs_max_supply st))"

definition get_balance :: "token_state \<Rightarrow> account_name \<Rightarrow> u64 \<Rightarrow> asset result" where
  "get_balance s owner sm = mi_get (tk_accounts s) (owner, sm) ''unable to find key''"

text \<open>A transaction of one action: the action runs with an empty list of notifications, then the
  inline actions it sent run in order, each with the authorization it was sent with.\<close>

definition run_inline :: "token_context \<Rightarrow> token_state \<Rightarrow> permission_level \<times> token_action \<Rightarrow> token_state result" where
  "run_inline c s i = token_apply (c\<lparr>tc_auths := [fst i]\<rparr>) (s\<lparr>tk_notified := [tc_self c], tk_inline := []\<rparr>) (snd i)"

definition token_exec :: "token_context \<Rightarrow> token_state \<Rightarrow> token_action \<Rightarrow> token_state result" where
  "token_exec c s a =
    ebind (token_apply c (s\<lparr>tk_notified := [tc_self c], tk_inline := []\<rparr>) a) (\<lambda>s'.
    efold (run_inline c) s' (tk_inline s'))"

text \<open>A sequence of transactions; one that throws leaves the tables as they were.\<close>

definition token_step :: "token_state \<Rightarrow> token_context \<times> token_action \<Rightarrow> token_state" where
  "token_step s e = (case token_exec (fst e) s (snd e) of Inl _ \<Rightarrow> s | Inr s' \<Rightarrow> s')"

definition token_empty :: token_state where
  "token_empty = \<lparr>tk_stats = [], tk_accounts = [], tk_notified = [], tk_inline = []\<rparr>"

definition token_run :: "(token_context \<times> token_action) list \<Rightarrow> token_state" where
  "token_run = foldl token_step token_empty"

section \<open>The ledger behind the tables\<close>

text \<open>What the tables mean: the balance of an owner in a token, and the sum of all balances of a token.\<close>

definition bal :: "token_state \<Rightarrow> account_name \<times> u64 \<Rightarrow> int" where
  "bal s key = (case idx_find (tk_accounts s) key of None \<Rightarrow> 0 | Some (p, a) \<Rightarrow> as_amount a)"

definition row_amount :: "u64 \<Rightarrow> account_name \<times> u64 \<Rightarrow> account_name \<times> asset \<Rightarrow> int" where
  "row_amount k key row = (if snd key = k then as_amount (snd row) else 0)"

definition circulating :: "token_state \<Rightarrow> u64 \<Rightarrow> int" where
  "circulating s k = index.total (row_amount k) (tk_accounts s)"

text \<open>Rows are well typed: the key of a row is the name of its symbol, the symbols are valid and a
  balance is a positive amount of an existing token in that token's precision.\<close>

definition token_typed :: "token_state \<Rightarrow> bool" where
  "token_typed s \<longleftrightarrow> idx_ok (tk_stats s) \<and> idx_ok (tk_accounts s) \<and>
    (\<forall>k p st. idx_find (tk_stats s) k = Some (p, st) \<longrightarrow>
       k = sym_name (as_sym (cs_supply st)) \<and> is_valid_symbol (as_sym (cs_supply st)) \<and>
       as_sym (cs_max_supply st) = as_sym (cs_supply st) \<and> p \<noteq> 0) \<and>
    (\<forall>ow k p a. idx_find (tk_accounts s) (ow, k) = Some (p, a) \<longrightarrow>
       0 < as_amount a \<and> p \<noteq> 0 \<and> (\<exists>q st. idx_find (tk_stats s) k = Some (q, st) \<and> as_sym a = as_sym (cs_supply st)))"

definition token_backed :: "token_state \<Rightarrow> bool" where
  "token_backed s \<longleftrightarrow> (\<forall>k p st. idx_find (tk_stats s) k = Some (p, st) \<longrightarrow>
     as_amount (cs_supply st) = circulating s k \<and> 0 \<le> as_amount (cs_supply st) \<and>
     as_amount (cs_supply st) \<le> as_amount (cs_max_supply st) \<and> as_amount (cs_max_supply st) \<le> max_amount)"

lemma token_typedD:
  assumes "token_typed s"
  shows "idx_ok (tk_stats s)" "idx_ok (tk_accounts s)"
    and "idx_find (tk_stats s) k = Some (p, st) \<Longrightarrow> k = sym_name (as_sym (cs_supply st)) \<and>
      is_valid_symbol (as_sym (cs_supply st)) \<and> as_sym (cs_max_supply st) = as_sym (cs_supply st) \<and> p \<noteq> 0"
    and "idx_find (tk_accounts s) (ow, k) = Some (p, a) \<Longrightarrow> 0 < as_amount a \<and> p \<noteq> 0 \<and>
      (\<exists>q st. idx_find (tk_stats s) k = Some (q, st) \<and> as_sym a = as_sym (cs_supply st))"
  using assms unfolding token_typed_def by blast+

lemma bal_bounds:
  assumes "token_typed s"
  shows "0 \<le> bal s (ow, k)" "bal s (ow, k) \<le> circulating s k"
proof -
  have pos: "0 \<le> row_amount k key row" if r: "idx_find (tk_accounts s) key = Some row" for key row
    using token_typedD(4) [OF assms, of "fst key" "snd key" "fst row" "snd row"] r by (simp add: row_amount_def)
  show "0 \<le> bal s (ow, k)"
    using token_typedD(4) [OF assms] by (fastforce simp: bal_def split: option.splits)
  show "bal s (ow, k) \<le> circulating s k"
  proof (cases "idx_find (tk_accounts s) (ow, k)")
    case None
    then show ?thesis unfolding circulating_def bal_def
      using index.total_nonneg [OF token_typedD(2) [OF assms], of "row_amount k"] pos by simp
  next
    case (Some row)
    then show ?thesis unfolding circulating_def bal_def
      using index.total_ge_row [OF token_typedD(2) [OF assms] Some, of "row_amount k"] pos
      by (cases row) (simp add: row_amount_def)
  qed
qed

text \<open>Writing and removing a balance row.\<close>

lemma put_balance:
  assumes "token_typed s" "idx_find (tk_stats s) k = Some (q, st)" "as_sym a = as_sym (cs_supply st)"
    "0 < as_amount a" "p \<noteq> 0" "s' = s\<lparr>tk_accounts := idx_put (ow, k) (p, a) (tk_accounts s)\<rparr>"
  shows "token_typed s'" "bal s' = (bal s)((ow, k) := as_amount a)"
    "circulating s' j = circulating s j + (if j = k then as_amount a - bal s (ow, k) else 0)"
proof -
  note ok = token_typedD(1,2) [OF assms(1)]
  show "token_typed s'"
    using assms(1-5) unfolding assms(6) token_typed_def by (auto simp: idx_simps)
  show "bal s' = (bal s)((ow, k) := as_amount a)"
    unfolding assms(6) by (rule ext) (simp add: bal_def idx_simps ok)
  show "circulating s' j = circulating s j + (if j = k then as_amount a - bal s (ow, k) else 0)"
    unfolding assms(6) circulating_def
    by (simp add: index.total_put ok row_amount_def bal_def split: option.splits prod.splits)
qed

lemma remove_balance:
  assumes "token_typed s" "s' = s\<lparr>tk_accounts := idx_remove (ow, k) (tk_accounts s)\<rparr>"
  shows "token_typed s'" "bal s' = (bal s)((ow, k) := 0)"
    "circulating s' j = circulating s j - (if j = k then bal s (ow, k) else 0)"
proof -
  note ok = token_typedD(1,2) [OF assms(1)]
  show "token_typed s'"
    using assms(1) unfolding assms(2) token_typed_def by (auto simp: idx_simps)
  show "bal s' = (bal s)((ow, k) := 0)"
    unfolding assms(2) by (rule ext) (simp add: bal_def idx_simps ok)
  show "circulating s' j = circulating s j - (if j = k then bal s (ow, k) else 0)"
    unfolding assms(2) circulating_def
    by (simp add: index.total_remove ok row_amount_def bal_def split: option.splits prod.splits)
qed

lemma amount_in_i64: "- (2 * max_amount) \<le> x \<Longrightarrow> x \<le> 2 * max_amount \<Longrightarrow> wrap_i64 x = x"
  by (rule wrap_i64_id) (simp add: in_i64_def max_amount_def)

lemma asset_add_Inr_iff:
  assumes "is_amount_within_range a" "is_amount_within_range b"
  shows "asset_add a b = Inr r \<longleftrightarrow> as_sym a = as_sym b \<and> is_amount_within_range r \<and>
    r = a\<lparr>as_amount := as_amount a + as_amount b\<rparr>"
  using assms amount_in_i64 [of "as_amount a + as_amount b"]
  by (auto simp: asset_add_def is_amount_within_range_def Let_def)

lemma asset_sub_Inr_iff:
  assumes "is_amount_within_range a" "is_amount_within_range b"
  shows "asset_sub a b = Inr r \<longleftrightarrow> as_sym a = as_sym b \<and> is_amount_within_range r \<and>
    r = a\<lparr>as_amount := as_amount a - as_amount b\<rparr>"
  using assms amount_in_i64 [of "as_amount a - as_amount b"]
  by (auto simp: asset_sub_def is_amount_within_range_def Let_def)

text \<open>A token and a quantity of it, as the actions find them after their checks.\<close>

definition quantity_of :: "token_state \<Rightarrow> asset \<Rightarrow> currency_stats \<Rightarrow> bool" where
  "quantity_of s v st \<longleftrightarrow> (\<exists>p. idx_find (tk_stats s) (sym_name (as_sym v)) = Some (p, st)) \<and>
    as_sym v = as_sym (cs_supply st) \<and> 0 < as_amount v \<and> as_amount v \<le> max_amount"

lemma quantity_of_cong: "tk_stats s' = tk_stats s \<Longrightarrow> quantity_of s' = quantity_of s"
  by (simp add: quantity_of_def fun_eq_iff)

abbreviation key_of :: "account_name \<Rightarrow> asset \<Rightarrow> account_name \<times> u64" where
  "key_of ow v \<equiv> (ow, sym_name (as_sym v))"

lemma quantity_row:
  assumes "token_typed s" "quantity_of s v st" "idx_find (tk_accounts s) (key_of ow v) = Some (p, a)"
    "bal s (key_of ow v) \<le> max_amount"
  shows "as_sym a = as_sym v" "is_amount_within_range a" "is_amount_within_range v"
    "as_amount a = bal s (key_of ow v)" "p \<noteq> 0" "0 < as_amount a"
  using token_typedD(4) [OF assms(1,3)] assms(2-4)
  by (auto simp: quantity_of_def is_amount_within_range_def bal_def max_amount_def)

lemma sub_balance_spec:
  assumes "token_typed s" "quantity_of s v st" "bal s (key_of ow v) \<le> max_amount"
  shows "(\<exists>s'. sub_balance s ow v = Inr s') \<longleftrightarrow> as_amount v \<le> bal s (key_of ow v)"
    and "sub_balance s ow v = Inr s' \<Longrightarrow> token_typed s' \<and> tk_stats s' = tk_stats s \<and>
      tk_notified s' = tk_notified s \<and> tk_inline s' = tk_inline s \<and>
      bal s' = (bal s)(key_of ow v := bal s (key_of ow v) - as_amount v) \<and>
      (\<forall>k. circulating s' k = circulating s k - (if k = sym_name (as_sym v) then as_amount v else 0))"
proof -
  let ?k = "sym_name (as_sym v)"
  have pos: "0 < as_amount v" using assms(2) by (simp add: quantity_of_def)
  obtain q where st: "idx_find (tk_stats s) ?k = Some (q, st)" and sv: "as_sym v = as_sym (cs_supply st)"
    using assms(2) by (auto simp: quantity_of_def)
  show "(\<exists>s'. sub_balance s ow v = Inr s') \<longleftrightarrow> as_amount v \<le> bal s (key_of ow v)"
  proof (cases "idx_find (tk_accounts s) (key_of ow v)")
    case None
    with pos show ?thesis by (simp add: sub_balance_def mi_get_def bal_def)
  next
    case (Some row)
    obtain p a where row: "row = (p, a)" by (cases row)
    note r = quantity_row [OF assms(1,2) Some [unfolded row] assms(3)]
    have "\<exists>b. asset_sub a v = Inr b" if "as_amount v < as_amount a"
      using r(1) that pos r(2) by (auto simp: asset_sub_Inr_iff [OF r(2,3)] is_amount_within_range_def)
    with r(4) Some show ?thesis
      by (auto simp: sub_balance_def mi_get_def mi_modify_def row Let_def not_le)
  qed
  assume s': "sub_balance s ow v = Inr s'"
  then obtain p a where row: "idx_find (tk_accounts s) (key_of ow v) = Some (p, a)"
    by (auto simp: sub_balance_def mi_get_def Let_def split: option.splits)
  note r = quantity_row [OF assms(1,2) row assms(3)]
  show "token_typed s' \<and> tk_stats s' = tk_stats s \<and> tk_notified s' = tk_notified s \<and> tk_inline s' = tk_inline s \<and>
      bal s' = (bal s)(key_of ow v := bal s (key_of ow v) - as_amount v) \<and>
      (\<forall>k. circulating s' k = circulating s k - (if k = ?k then as_amount v else 0))"
  proof (cases "as_amount a = as_amount v")
    case True
    with s' row have e: "s' = s\<lparr>tk_accounts := idx_remove (key_of ow v) (tk_accounts s)\<rparr>"
      by (auto simp: sub_balance_def mi_get_def)
    from remove_balance [OF assms(1) e] True r(4) e show ?thesis by simp
  next
    case False
    let ?p = "if ow = 0 then p else ow"
    obtain b where b: "asset_sub a v = Inr b" and e: "s' = s\<lparr>tk_accounts := idx_put (key_of ow v) (?p, b) (tk_accounts s)\<rparr>"
      and le: "as_amount v < as_amount a"
      using s' row False by (auto simp: sub_balance_def mi_get_def mi_modify_def)
    have b: "as_sym b = as_sym v" "as_amount b = as_amount a - as_amount v"
      using b r(1) by (auto simp: asset_sub_Inr_iff [OF r(2,3)])
    have "0 < as_amount b" "?p \<noteq> 0" "as_sym b = as_sym (cs_supply st)" using b le r(5) sv by auto
    note f = put_balance [OF assms(1) st this(3,1,2) e]
    from f e b(2) r(4) show ?thesis by simp
  qed
qed

lemma add_balance_spec:
  assumes "token_typed s" "quantity_of s v st" "bal s (key_of ow v) \<le> max_amount"
  shows "bal s (key_of ow v) + as_amount v \<le> max_amount \<Longrightarrow> payer \<noteq> 0 \<Longrightarrow> \<exists>s'. add_balance s ow v payer = Inr s'"
    and "add_balance s ow v payer = Inr s' \<Longrightarrow> token_typed s' \<and> tk_stats s' = tk_stats s \<and>
      tk_notified s' = tk_notified s \<and> tk_inline s' = tk_inline s \<and>
      bal s' = (bal s)(key_of ow v := bal s (key_of ow v) + as_amount v) \<and>
      (\<forall>k. circulating s' k = circulating s k + (if k = sym_name (as_sym v) then as_amount v else 0))"
proof -
  let ?k = "sym_name (as_sym v)"
  have pos: "0 < as_amount v" using assms(2) by (simp add: quantity_of_def)
  obtain q where st: "idx_find (tk_stats s) ?k = Some (q, st)" and sv: "as_sym v = as_sym (cs_supply st)"
    using assms(2) by (auto simp: quantity_of_def)
  show "\<exists>s'. add_balance s ow v payer = Inr s'" if le: "bal s (key_of ow v) + as_amount v \<le> max_amount" and py: "payer \<noteq> 0"
  proof (cases "idx_find (tk_accounts s) (key_of ow v)")
    case None
    with py show ?thesis by (simp add: add_balance_def mi_emplace_def idx_create_def)
  next
    case (Some row)
    obtain p a where row: "row = (p, a)" by (cases row)
    note r = quantity_row [OF assms(1,2) Some [unfolded row] assms(3)]
    have "\<exists>b. asset_add a v = Inr b"
      using r(1) le pos r(2,4) by (auto simp: asset_add_Inr_iff [OF r(2,3)] is_amount_within_range_def)
    with Some show ?thesis by (auto simp: add_balance_def mi_modify_def row)
  qed
  assume s': "add_balance s ow v payer = Inr s'"
  show "token_typed s' \<and> tk_stats s' = tk_stats s \<and> tk_notified s' = tk_notified s \<and> tk_inline s' = tk_inline s \<and>
      bal s' = (bal s)(key_of ow v := bal s (key_of ow v) + as_amount v) \<and>
      (\<forall>k. circulating s' k = circulating s k + (if k = ?k then as_amount v else 0))"
  proof (cases "idx_find (tk_accounts s) (key_of ow v)")
    case None
    with s' have e: "s' = s\<lparr>tk_accounts := idx_put (key_of ow v) (payer, v) (tk_accounts s)\<rparr>" and py: "payer \<noteq> 0"
      by (auto simp: add_balance_def mi_emplace_def idx_create_def)
    have "bal s (key_of ow v) = 0" using None by (simp add: bal_def)
    with put_balance [OF assms(1) st sv pos py e] e show ?thesis by simp
  next
    case (Some row)
    obtain p a where row: "row = (p, a)" by (cases row)
    note r = quantity_row [OF assms(1,2) Some [unfolded row] assms(3)]
    obtain b where b: "asset_add a v = Inr b" and e: "s' = s\<lparr>tk_accounts := idx_put (key_of ow v) (p, b) (tk_accounts s)\<rparr>"
      using s' Some by (auto simp: add_balance_def mi_modify_def row)
    have b: "as_sym b = as_sym v" "as_amount b = as_amount a + as_amount v"
      using b r(1) by (auto simp: asset_add_Inr_iff [OF r(2,3)])
    have "0 < as_amount b" "as_sym b = as_sym (cs_supply st)" using b r(6) pos sv by auto
    from put_balance [OF assms(1) st this(2,1) r(5) e] e b(2) r(4) show ?thesis by simp
  qed
qed

section \<open>The actions\<close>

lemma mi_get_Inr_iff [simp]: "mi_get t k m = Inr v \<longleftrightarrow> (\<exists>p. idx_find t k = Some (p, v))"
  by (auto simp: mi_get_def split: option.splits)

lemma token_frame [simp]:
  "token_typed (s\<lparr>tk_notified := ns\<rparr>) = token_typed s" "token_typed (s\<lparr>tk_inline := is\<rparr>) = token_typed s"
  "token_backed (s\<lparr>tk_notified := ns\<rparr>) = token_backed s" "token_backed (s\<lparr>tk_inline := is\<rparr>) = token_backed s"
  "bal (s\<lparr>tk_notified := ns\<rparr>) = bal s" "bal (s\<lparr>tk_inline := is\<rparr>) = bal s" "bal (s\<lparr>tk_stats := t\<rparr>) = bal s"
  "circulating (s\<lparr>tk_notified := ns\<rparr>) = circulating s" "circulating (s\<lparr>tk_inline := is\<rparr>) = circulating s"
  "circulating (s\<lparr>tk_stats := t\<rparr>) = circulating s"
  "quantity_of (s\<lparr>tk_notified := ns\<rparr>) = quantity_of s" "quantity_of (s\<lparr>tk_inline := is\<rparr>) = quantity_of s"
  by (auto simp: token_typed_def token_backed_def bal_def circulating_def quantity_of_def fun_eq_iff)

lemma require_recipient_frame [simp]:
  "token_typed (tk_require_recipient a s) = token_typed s" "bal (tk_require_recipient a s) = bal s"
  "circulating (tk_require_recipient a s) = circulating s" "quantity_of (tk_require_recipient a s) = quantity_of s"
  "tk_stats (tk_require_recipient a s) = tk_stats s" "tk_inline (tk_require_recipient a s) = tk_inline s"
  by (simp_all add: tk_require_recipient_def)

lemma bal_le_max:
  assumes "token_typed s" "token_backed s"
  shows "bal s (ow, k) \<le> max_amount"
proof (cases "idx_find (tk_accounts s) (ow, k)")
  case None
  then show ?thesis by (simp add: bal_def max_amount_def)
next
  case (Some row)
  then obtain q st where "idx_find (tk_stats s) k = Some (q, st)"
    using token_typedD(4) [OF assms(1), of ow k "fst row" "snd row"] by auto
  with assms(2) bal_bounds(2) [OF assms(1), of ow k] show ?thesis unfolding token_backed_def by fastforce
qed

text \<open>When a transfer goes through, and what it does.\<close>

definition transfer_guard ::
  "token_context \<Rightarrow> token_state \<Rightarrow> account_name \<Rightarrow> account_name \<Rightarrow> asset \<Rightarrow> string \<Rightarrow> bool" where
  "transfer_guard c s from' to q memo \<longleftrightarrow> from' \<noteq> to \<and> from' \<in> fst ` set (tc_auths c) \<and> tc_is_account c to \<and>
    (\<exists>st. quantity_of s q st) \<and> length memo \<le> 256 \<and> as_amount q \<le> bal s (key_of from' q)"

lemma quantity_of_iff:
  assumes "token_typed s"
  shows "quantity_of s q st \<longleftrightarrow> (\<exists>p. idx_find (tk_stats s) (sym_name (as_sym q)) = Some (p, st)) \<and>
    lib_is_valid q \<and> 0 < as_amount q \<and> as_sym q = as_sym (cs_supply st)"
proof -
  have "is_valid_symbol (as_sym q)" if f: "idx_find (tk_stats s) (sym_name (as_sym q)) = Some (p, st)"
    and e: "as_sym q = as_sym (cs_supply st)" for p
    unfolding e using token_typedD(3) [OF assms f] by blast
  moreover have "0 < as_amount q \<Longrightarrow> is_amount_within_range q \<longleftrightarrow> as_amount q \<le> max_amount"
    by (simp add: is_amount_within_range_def max_amount_def)
  ultimately show ?thesis unfolding quantity_of_def lib_is_valid_def by blast
qed

lemma token_transfer_iff:
  assumes "token_typed s"
  shows "token_transfer c s from' to q memo = Inr s' \<longleftrightarrow>
    from' \<noteq> to \<and> from' \<in> fst ` set (tc_auths c) \<and> tc_is_account c to \<and> (\<exists>st. quantity_of s q st) \<and> length memo \<le> 256 \<and>
    (\<exists>s1. sub_balance (tk_require_recipient to (tk_require_recipient from' s)) from' q = Inr s1 \<and> add_balance s1 to q from' = Inr s')"
  by (auto simp: token_transfer_def tk_require_auth_def quantity_of_iff [OF assms] Let_def)

lemma token_transfer_spec:
  assumes "token_typed s" "token_backed s"
  shows "transfer_guard c s from' to q memo \<Longrightarrow> from' \<noteq> 0 \<Longrightarrow> \<exists>s'. token_transfer c s from' to q memo = Inr s'"
    and "token_transfer c s from' to q memo = Inr s' \<Longrightarrow> transfer_guard c s from' to q memo \<and>
      token_typed s' \<and> tk_stats s' = tk_stats s \<and> tk_inline s' = tk_inline s \<and>
      bal s' = (bal s)(key_of from' q := bal s (key_of from' q) - as_amount q, key_of to q := bal s (key_of to q) + as_amount q) \<and>
      circulating s' = circulating s"
proof -
  let ?s = "tk_require_recipient to (tk_require_recipient from' s)"
  have le: "bal s key \<le> max_amount" for key using bal_le_max [OF assms] by (cases key) simp
  note sub = sub_balance_spec [where s = ?s and ow = from' and v = q, simplified, OF assms(1) _ le]
  note tr = token_transfer_iff [OF assms(1)]
  show "\<exists>s'. token_transfer c s from' to q memo = Inr s'" if g: "transfer_guard c s from' to q memo" and nz: "from' \<noteq> 0"
  proof -
    obtain st where q: "quantity_of s q st" and b: "as_amount q \<le> bal s (key_of from' q)" and ne: "from' \<noteq> to"
      using g by (auto simp: transfer_guard_def)
    obtain s1 where s1: "sub_balance ?s from' q = Inr s1" using sub(1) [OF q] b by blast
    from sub(2) [OF q s1] have e: "token_typed s1" "tk_stats s1 = tk_stats s"
      "bal s1 (key_of to q) = bal s (key_of to q)"
      "circulating s1 (sym_name (as_sym q)) = circulating s (sym_name (as_sym q)) - as_amount q" using ne by simp_all
    have q1: "quantity_of s1 q st" using q quantity_of_cong [OF e(2)] by simp
    have "bal s (key_of to q) + as_amount q \<le> circulating s (sym_name (as_sym q))"
      using bal_bounds(2) [OF e(1), of to "sym_name (as_sym q)"] e(3,4) by simp
    moreover have "circulating s (sym_name (as_sym q)) \<le> max_amount"
      using q assms(2) unfolding quantity_of_def token_backed_def by fastforce
    ultimately have "\<exists>s'. add_balance s1 to q from' = Inr s'"
      using add_balance_spec(1) [OF e(1) q1, of to from'] e(3) le [of "key_of to q"] nz by simp
    with s1 g show ?thesis by (auto simp: tr transfer_guard_def)
  qed
  assume "token_transfer c s from' to q memo = Inr s'"
  then obtain st s1 where g: "from' \<noteq> to" "from' \<in> fst ` set (tc_auths c)" "tc_is_account c to" "length memo \<le> 256"
    and q: "quantity_of s q st" and s1: "sub_balance ?s from' q = Inr s1" and s': "add_balance s1 to q from' = Inr s'"
    unfolding tr by blast
  have b: "as_amount q \<le> bal s (key_of from' q)" using sub(1) [OF q] s1 by blast
  from sub(2) [OF q s1] have e: "token_typed s1" "tk_stats s1 = tk_stats s" "tk_inline s1 = tk_inline s"
    "bal s1 = (bal s)(key_of from' q := bal s (key_of from' q) - as_amount q)"
    "\<forall>k. circulating s1 k = circulating s k - (if k = sym_name (as_sym q) then as_amount q else 0)" by simp_all
  have q1: "quantity_of s1 q st" using q quantity_of_cong [OF e(2)] by simp
  have le1: "bal s1 (key_of to q) \<le> max_amount" using e(4) g(1) le [of "key_of to q"] by simp
  from add_balance_spec(2) [OF e(1) q1 le1 s'] have f: "token_typed s'" "tk_stats s' = tk_stats s1" "tk_inline s' = tk_inline s1"
    "bal s' = (bal s1)(key_of to q := bal s1 (key_of to q) + as_amount q)"
    "\<forall>k. circulating s' k = circulating s1 k + (if k = sym_name (as_sym q) then as_amount q else 0)" by simp_all
  have cr: "circulating s' = circulating s" by (rule ext) (simp add: e(5) f(5))
  have bs: "bal s' = (bal s)(key_of from' q := bal s (key_of from' q) - as_amount q, key_of to q := bal s (key_of to q) + as_amount q)"
    using g(1) by (simp add: f(4) e(4))
  have tg: "transfer_guard c s from' to q memo" using g q b by (auto simp: transfer_guard_def)
  show "transfer_guard c s from' to q memo \<and> token_typed s' \<and> tk_stats s' = tk_stats s \<and> tk_inline s' = tk_inline s \<and>
      bal s' = (bal s)(key_of from' q := bal s (key_of from' q) - as_amount q, key_of to q := bal s (key_of to q) + as_amount q) \<and>
      circulating s' = circulating s"
    using tg f(1-3) e(2,3) bs cr by simp
qed

definition token_ok :: "token_state \<Rightarrow> bool" where
  "token_ok s \<longleftrightarrow> token_typed s \<and> token_backed s"

lemma circulating_none:
  assumes "token_typed s" "idx_find (tk_stats s) k = None"
  shows "circulating s k = 0"
  unfolding circulating_def index.total_eq_sum [OF token_typedD(2) [OF assms(1)]]
proof (rule sum.neutral, rule ballI)
  fix key assume "key \<in> dom (idx_find (tk_accounts s))"
  then obtain p a where r: "idx_find (tk_accounts s) (fst key, snd key) = Some (p, a)" by auto
  have "snd key \<noteq> k" using token_typedD(4) [OF assms(1) r] assms(2) by auto
  then show "row_amount k key (the (idx_find (tk_accounts s) key)) = 0" by (simp add: row_amount_def)
qed

text \<open>Writing a row of \<^verbatim>\<open>stat\<close> that keeps the symbol of the token.\<close>

lemma put_stat:
  assumes t: "token_typed s" and key: "k = sym_name (as_sym (cs_supply st))" and sm: "is_valid_symbol (as_sym (cs_supply st))"
    "as_sym (cs_max_supply st) = as_sym (cs_supply st)" "p \<noteq> 0"
    and old: "\<And>q st0. idx_find (tk_stats s) k = Some (q, st0) \<Longrightarrow> as_sym (cs_supply st0) = as_sym (cs_supply st)"
  shows "token_typed (s\<lparr>tk_stats := idx_put k (p, st) (tk_stats s)\<rparr>)"
proof -
  note ok = token_typedD(1,2) [OF t]
  let ?t = "idx_put k (p, st) (tk_stats s)"
  have f: "idx_find ?t = (idx_find (tk_stats s))(k \<mapsto> (p, st))" by (simp add: idx_simps ok)
  have stats: "j = sym_name (as_sym (cs_supply st')) \<and> is_valid_symbol (as_sym (cs_supply st')) \<and>
      as_sym (cs_max_supply st') = as_sym (cs_supply st') \<and> q \<noteq> 0" if r: "idx_find ?t j = Some (q, st')" for j q st'
  proof (cases "j = k")
    case True
    with r have "q = p" "st' = st" by (simp_all add: f)
    with True key sm show ?thesis by blast
  next
    case False
    with r show ?thesis by (intro token_typedD(3) [OF t]) (simp add: f)
  qed
  have acc: "0 < as_amount a \<and> q \<noteq> 0 \<and> (\<exists>r st'. idx_find ?t j = Some (r, st') \<and> as_sym a = as_sym (cs_supply st'))"
    if r: "idx_find (tk_accounts s) (ow, j) = Some (q, a)" for ow j q a
  proof -
    obtain r0 st0 where o: "0 < as_amount a" "q \<noteq> 0" "idx_find (tk_stats s) j = Some (r0, st0)" "as_sym a = as_sym (cs_supply st0)"
      using token_typedD(4) [OF t r] by blast
    have "\<exists>r st'. idx_find ?t j = Some (r, st') \<and> as_sym a = as_sym (cs_supply st')"
    proof (cases "j = k")
      case True
      with o(3,4) old show ?thesis by (simp add: f)
    next
      case False
      with o(3,4) show ?thesis by (simp add: f)
    qed
    with o(1,2) show ?thesis by blast
  qed
  show ?thesis unfolding token_typed_def using ok stats acc by (simp add: idx_simps)
qed

lemma put_stat_backed:
  assumes b: "token_backed s" and f: "idx_find (tk_stats s') = (idx_find (tk_stats s))(k \<mapsto> (p, st))"
    and c: "\<forall>j. j \<noteq> k \<longrightarrow> circulating s' j = circulating s j"
    and n: "as_amount (cs_supply st) = circulating s' k" "0 \<le> as_amount (cs_supply st)"
      "as_amount (cs_supply st) \<le> as_amount (cs_max_supply st)" "as_amount (cs_max_supply st) \<le> max_amount"
  shows "token_backed s'"
  unfolding token_backed_def
proof (intro allI impI)
  fix j q st' assume r: "idx_find (tk_stats s') j = Some (q, st')"
  show "as_amount (cs_supply st') = circulating s' j \<and> 0 \<le> as_amount (cs_supply st') \<and>
    as_amount (cs_supply st') \<le> as_amount (cs_max_supply st') \<and> as_amount (cs_max_supply st') \<le> max_amount"
  proof (cases "j = k")
    case True
    with r f n show ?thesis by simp
  next
    case False
    with r f have "idx_find (tk_stats s) j = Some (q, st')" by simp
    with b have "as_amount (cs_supply st') = circulating s j \<and> 0 \<le> as_amount (cs_supply st') \<and>
      as_amount (cs_supply st') \<le> as_amount (cs_max_supply st') \<and> as_amount (cs_max_supply st') \<le> max_amount"
      unfolding token_backed_def by blast
    with c False show ?thesis by simp
  qed
qed

lemma token_create_spec:
  assumes "token_ok s" "token_create c s issuer m = Inr s'"
  shows "token_ok s'" "bal s' = bal s"
proof -
  let ?k = "sym_name (as_sym m)"
  let ?st = "\<lparr>cs_supply = \<lparr>as_amount = 0, as_sym = as_sym m\<rparr>, cs_max_supply = m, cs_issuer = issuer\<rparr>"
  have t: "token_typed s" and b: "token_backed s" using assms(1) by (simp_all add: token_ok_def)
  have g: "is_valid_symbol (as_sym m)" "lib_is_valid m" "0 < as_amount m" "idx_find (tk_stats s) ?k = None" "tc_self c \<noteq> 0"
    and s': "s' = s\<lparr>tk_stats := idx_put ?k (tc_self c, ?st) (tk_stats s)\<rparr>"
    using assms(2) by (auto simp: token_create_def tk_require_auth_def mi_emplace_def idx_create_def Let_def)
  note ok = token_typedD(1,2) [OF t]
  have f: "idx_find (tk_stats s') = (idx_find (tk_stats s))(?k \<mapsto> (tc_self c, ?st))"
    unfolding s' by (simp add: idx_simps ok)
  show "bal s' = bal s" unfolding s' by simp
  have "token_typed s'" unfolding s' by (rule put_stat [OF t]) (use g in simp_all)
  moreover have "token_backed s'"
    by (rule put_stat_backed [OF b f])
      (use circulating_none [OF t g(4)] g(2,3) in \<open>simp_all add: s' lib_is_valid_def is_amount_within_range_def\<close>)
  ultimately show "token_ok s'" by (simp add: token_ok_def)
qed

lemma token_issue_spec:
  assumes "token_ok s" "token_issue c s to q memo = Inr s'"
  obtains st where "quantity_of s q st" "token_ok s'"
    "bal s' = (bal s)(key_of (cs_issuer st) q := bal s (key_of (cs_issuer st) q) + as_amount q)"
    "\<And>k. map_option snd (idx_find (tk_stats s') k) = (if k = sym_name (as_sym q)
       then Some (st\<lparr>cs_supply := \<lparr>as_amount = as_amount (cs_supply st) + as_amount q, as_sym = as_sym q\<rparr>\<rparr>)
       else map_option snd (idx_find (tk_stats s) k))"
    "tk_inline s' = tk_inline s @ (if to = cs_issuer st then []
       else [((cs_issuer st, active_name), Transfer (cs_issuer st) to q memo)])"
proof -
  let ?k = "sym_name (as_sym q)"
  have t: "token_typed s" and b: "token_backed s" using assms(1) by (simp_all add: token_ok_def)
  obtain p st sp s2 where st: "idx_find (tk_stats s) ?k = Some (p, st)"
    and g: "lib_is_valid q" "0 < as_amount q" "as_sym q = as_sym (cs_supply st)"
    and room: "as_amount q \<le> wrap_i64 (as_amount (cs_max_supply st) - as_amount (cs_supply st))"
    and sp: "asset_add (cs_supply st) q = Inr sp"
    and s2: "add_balance (s\<lparr>tk_stats := idx_put ?k (p, st\<lparr>cs_supply := sp\<rparr>) (tk_stats s)\<rparr>) (cs_issuer st) q (cs_issuer st) = Inr s2"
    and s': "s' = (if to \<noteq> cs_issuer st
          then s2\<lparr>tk_inline := tk_inline s2 @ [((cs_issuer st, active_name), Transfer (cs_issuer st) to q memo)]\<rparr> else s2)"
    using assms(2) by (auto simp: token_issue_def tk_require_auth_def mi_modify_def Let_def)
  have q: "quantity_of s q st" unfolding quantity_of_iff [OF t] using st g by blast
  have bk: "as_amount (cs_supply st) = circulating s ?k" "0 \<le> as_amount (cs_supply st)"
    "as_amount (cs_supply st) \<le> as_amount (cs_max_supply st)" "as_amount (cs_max_supply st) \<le> max_amount"
    using b st unfolding token_backed_def by blast+
  have rg: "is_amount_within_range (cs_supply st)" "is_amount_within_range q"
    using bk g(1) by (auto simp: is_amount_within_range_def lib_is_valid_def max_amount_def)
  have sp: "as_amount sp = as_amount (cs_supply st) + as_amount q" "as_sym sp = as_sym q"
    using sp g(3) unfolding asset_add_Inr_iff [OF rg] by auto
  have room: "as_amount (cs_supply st) + as_amount q \<le> as_amount (cs_max_supply st)"
    using room amount_in_i64 [of "as_amount (cs_max_supply st) - as_amount (cs_supply st)"] bk by simp
  let ?st = "st\<lparr>cs_supply := sp\<rparr>"
  define s1 where "s1 = s\<lparr>tk_stats := idx_put ?k (p, ?st) (tk_stats s)\<rparr>"
  note ok = token_typedD(1,2) [OF t]
  have f: "idx_find (tk_stats s1) = (idx_find (tk_stats s))(?k \<mapsto> (p, ?st))" unfolding s1_def by (simp add: idx_simps ok)
  have inl: "tk_inline s1 = tk_inline s" unfolding s1_def by simp
  have st_ok: "is_valid_symbol (as_sym (cs_supply st)) \<and> as_sym (cs_max_supply st) = as_sym (cs_supply st) \<and> p \<noteq> 0"
    using token_typedD(3) [OF t st] by blast
  have t1: "token_typed s1" unfolding s1_def by (rule put_stat [OF t]) (use st_ok sp(2) g(3) st in simp_all)
  have q1: "quantity_of s1 q ?st" using q sp(2) unfolding quantity_of_def f by simp
  have b1: "bal s1 = bal s" "circulating s1 = circulating s" unfolding s1_def by simp_all
  have le: "bal s1 (key_of (cs_issuer st) q) \<le> max_amount" unfolding b1 by (rule bal_le_max [OF t b])
  from add_balance_spec(2) [OF t1 q1 le s2 [folded s1_def]] have e: "token_typed s2" "tk_stats s2 = tk_stats s1"
    "tk_inline s2 = tk_inline s1" "bal s2 = (bal s)(key_of (cs_issuer st) q := bal s (key_of (cs_issuer st) q) + as_amount q)"
    "\<forall>k. circulating s2 k = circulating s k + (if k = ?k then as_amount q else 0)" by (simp_all add: b1)
  have "token_backed s2"
    by (rule put_stat_backed [OF b f [folded e(2)]]) (use bk sp(1) room e(5) g(2) in simp_all)
  then have ok': "token_ok s'" using e(1) unfolding token_ok_def s' by simp
  have sp': "sp = \<lparr>as_amount = as_amount (cs_supply st) + as_amount q, as_sym = as_sym q\<rparr>" using sp by simp
  show thesis
    by (rule that [OF q ok']) (simp_all add: s' e(2-4) f inl sp' split: option.splits)
qed

section \<open>Transactions\<close>

lemma token_ok_frame [simp]: "token_ok (s\<lparr>tk_notified := ns, tk_inline := is\<rparr>) = token_ok s"
  by (simp add: token_ok_def)

lemma token_backed_cong:
  "tk_stats s' = tk_stats s \<Longrightarrow> circulating s' = circulating s \<Longrightarrow> token_backed s' = token_backed s"
  by (simp add: token_backed_def)

lemma token_transfer_ok:
  assumes "token_ok s" "token_transfer c s from' to q memo = Inr s'"
  shows "token_ok s'"
proof -
  have tb: "token_typed s" "token_backed s" using assms(1) by (simp_all add: token_ok_def)
  from token_transfer_spec(2) [OF tb assms(2)] tb(2) token_backed_cong [of s' s] show ?thesis
    by (simp add: token_ok_def)
qed

lemma token_apply_ok:
  assumes "token_ok s" "token_apply c s a = Inr s'"
  shows "token_ok s'"
proof (cases a)
  case (Create i m)
  then show ?thesis using token_create_spec(1) [OF assms(1)] assms(2) by simp
next
  case (Issue to q memo)
  show ?thesis by (rule token_issue_spec [OF assms(1), of c to q memo s']) (use assms(2) Issue in simp_all)
next
  case (Transfer f to q memo)
  then show ?thesis using token_transfer_ok [OF assms(1)] assms(2) by simp
qed

lemma run_inline_ok: "token_ok s \<Longrightarrow> run_inline c s i = Inr s' \<Longrightarrow> token_ok s'"
  unfolding run_inline_def by (rule token_apply_ok) simp_all

lemma token_exec_ok:
  assumes "token_ok s" "token_exec c s a = Inr s'"
  shows "token_ok s'"
proof -
  obtain s1 where s1: "token_apply c (s\<lparr>tk_notified := [tc_self c], tk_inline := []\<rparr>) a = Inr s1"
    and f: "efold (run_inline c) s1 (tk_inline s1) = Inr s'"
    using assms(2) by (auto simp: token_exec_def)
  have "token_ok s1" by (rule token_apply_ok [OF _ s1]) (simp add: assms(1))
  then show ?thesis by (rule efold_invariant [OF f]) (rule run_inline_ok)
qed

lemma token_run_ok: "token_ok (token_run evs)"
proof -
  have "token_ok s \<Longrightarrow> token_ok (foldl token_step s evs)" for s
    by (induction evs arbitrary: s) (auto simp: token_step_def split: sum.split dest: token_exec_ok)
  moreover have "token_ok token_empty"
    by (simp add: token_ok_def token_typed_def token_backed_def token_empty_def)
  ultimately show ?thesis by (simp add: token_run_def)
qed

text \<open>C21. Well-typed tables: whatever sequence of actions the token contract executes, succeeding or
  not, each row of \<^verbatim>\<open>stat\<close> stands under the name of its symbol, its symbol is valid and is that
  of the maximum supply, and each row of \<^verbatim>\<open>accounts\<close> is a positive amount of an existing token with
  that token's precision, paid for by a named account.\<close>

theorem token_rows_typed:
  "token_typed (token_run evs)"
  using token_run_ok unfolding token_ok_def by blast

text \<open>C19. Conservation: after any sequence of actions, the supply of a token is exactly the sum of all
  balances in it, and lies between 0 and the maximum supply, which is below \<open>2\<^sup>6\<^sup>2\<close>.\<close>

theorem token_supply_conserved:
  assumes "get_supply (token_run evs) k = Inr supply" "get_max_supply (token_run evs) k = Inr m"
  shows "as_amount supply = (\<Sum>key \<in> {key. snd key = k \<and> bal (token_run evs) key \<noteq> 0}. bal (token_run evs) key)
    \<and> 0 \<le> as_amount supply \<and> as_amount supply \<le> as_amount m \<and> as_amount m < 2 ^ 62"
proof -
  let ?s = "token_run evs"
  have t: "token_typed ?s" and b: "token_backed ?s" using token_run_ok by (simp_all add: token_ok_def)
  note ok = token_typedD(2) [OF t]
  obtain p st where st: "idx_find (tk_stats ?s) k = Some (p, st)" "supply = cs_supply st" "m = cs_max_supply st"
    using assms by (auto simp: get_supply_def get_max_supply_def)
  let ?D = "dom (idx_find (tk_accounts ?s))"
  have row: "row_amount k key (the (idx_find (tk_accounts ?s) key)) = (if snd key = k then bal ?s key else 0)"
    if "key \<in> ?D" for key using that by (auto simp: row_amount_def bal_def split: prod.splits)
  have "circulating ?s k = (\<Sum>key\<in>?D. if snd key = k then bal ?s key else 0)"
    unfolding circulating_def index.total_eq_sum [OF ok] by (rule sum.cong [OF refl row])
  also have "\<dots> = (\<Sum>key \<in> {key. snd key = k \<and> bal ?s key \<noteq> 0}. bal ?s key)"
    by (rule sum.mono_neutral_cong_right [OF index.finite_find [OF ok]]) (auto simp: bal_def split: option.splits)
  finally have sum: "circulating ?s k = (\<Sum>key \<in> {key. snd key = k \<and> bal ?s key \<noteq> 0}. bal ?s key)" .
  have r: "as_amount (cs_supply st) = circulating ?s k" "0 \<le> as_amount (cs_supply st)"
     "as_amount (cs_supply st) \<le> as_amount (cs_max_supply st)" "as_amount (cs_max_supply st) \<le> max_amount"
    using b st(1) unfolding token_backed_def by blast+
  then show ?thesis unfolding st(2,3) sum [symmetric] by (simp add: max_amount_def)
qed

text \<open>C20. A transfer goes through exactly when the sender is another account than the receiver and
  authorized it, the receiver exists, the quantity is a positive amount of an existing token in its
  precision, the memo is at most 256 bytes and the sender has the quantity; it then moves exactly the
  quantity, and touches no other balance and no supply.  No other check, in particular none of the
  overflow checks, can stop it.\<close>

theorem transfer_exact:
  assumes "s = token_run evs" "from' \<noteq> 0"
  shows "((\<exists>s'. token_transfer c s from' to q memo = Inr s') \<longleftrightarrow> transfer_guard c s from' to q memo) \<and>
    (\<forall>s'. token_transfer c s from' to q memo = Inr s' \<longrightarrow> tk_stats s' = tk_stats s \<and> tk_inline s' = tk_inline s \<and>
      bal s' = (bal s)(key_of from' q := bal s (key_of from' q) - as_amount q, key_of to q := bal s (key_of to q) + as_amount q))"
proof -
  have t: "token_typed s" "token_backed s" using token_run_ok assms(1) by (simp_all add: token_ok_def)
  note sp = token_transfer_spec [OF t]
  show ?thesis using sp(1) [OF _ assms(2)] sp(2) by blast
qed

text \<open>An executed issue, with the inline transfer it sends, credits the receiver with the issued
  quantity, adds it to the supply of that token alone, and leaves every other balance, the issuer's
  included, and every other token as they were.\<close>

theorem issue_credits_receiver:
  assumes "s = token_run evs" "token_exec c s (Issue to q memo) = Inr s'"
  shows "bal s' = (bal s)(key_of to q := bal s (key_of to q) + as_amount q) \<and>
    (\<exists>n. get_supply s (sym_name (as_sym q)) = Inr n \<and>
      get_supply s' (sym_name (as_sym q)) = Inr \<lparr>as_amount = as_amount n + as_amount q, as_sym = as_sym q\<rparr>) \<and>
    (\<forall>k. k \<noteq> sym_name (as_sym q) \<longrightarrow> get_supply s' k = get_supply s k)"
proof -
  let ?s0 = "s\<lparr>tk_notified := [tc_self c], tk_inline := []\<rparr>" and ?k = "sym_name (as_sym q)"
  have ok: "token_ok ?s0" using token_run_ok assms(1) by simp
  obtain s1 where s1: "token_issue c ?s0 to q memo = Inr s1" and f: "efold (run_inline c) s1 (tk_inline s1) = Inr s'"
    using assms(2) by (auto simp: token_exec_def)
  obtain st where q: "quantity_of s q st" and ok1: "token_ok s1"
    and b1: "bal s1 = (bal s)(key_of (cs_issuer st) q := bal s (key_of (cs_issuer st) q) + as_amount q)"
    and st1: "\<And>k. map_option snd (idx_find (tk_stats s1) k) = (if k = ?k
       then Some (st\<lparr>cs_supply := \<lparr>as_amount = as_amount (cs_supply st) + as_amount q, as_sym = as_sym q\<rparr>\<rparr>)
       else map_option snd (idx_find (tk_stats s) k))"
    and inl: "tk_inline s1 = (if to = cs_issuer st then []
       else [((cs_issuer st, active_name), Transfer (cs_issuer st) to q memo)])"
    by (rule token_issue_spec [OF ok s1]) simp
  have e: "tk_stats s' = tk_stats s1 \<and> bal s' = (bal s)(key_of to q := bal s (key_of to q) + as_amount q)"
  proof (cases "to = cs_issuer st")
    case True
    with f inl b1 show ?thesis by simp
  next
    case False
    let ?s1 = "s1\<lparr>tk_notified := [tc_self c], tk_inline := []\<rparr>"
    have tr: "token_transfer (c\<lparr>tc_auths := [(cs_issuer st, active_name)]\<rparr>) ?s1 (cs_issuer st) to q memo = Inr s'"
      using f inl False by (simp add: run_inline_def)
    have t1: "token_typed ?s1" "token_backed ?s1" using ok1 by (simp_all add: token_ok_def)
    from token_transfer_spec(2) [OF t1 tr] False b1 show ?thesis by (auto simp: fun_upd_twist)
  qed
  have get: "get_supply s k = (case map_option snd (idx_find (tk_stats s) k) of
      None \<Rightarrow> Inl (snax_assert_message_exception ''unable to find key'') | Some st \<Rightarrow> Inr (cs_supply st))" for s k
    by (auto simp: get_supply_def mi_get_def split: option.splits)
  obtain p where p: "idx_find (tk_stats s) ?k = Some (p, st)" using q by (auto simp: quantity_of_def)
  show ?thesis using e by (simp add: get st1 p)
qed

section \<open>Symbols of the node and of the contract library\<close>

lemma low_byte_self: "unat s < 256 \<Longrightarrow> s AND 0xFF = s" for s :: u64
  unfolding and_low_byte by (rule word_unat_eq_iff [THEN iffD2]) (simp only: unsigned_take_bit_eq, simp add: take_bit_nat_eq_self_iff)

lemma drop_byte_less: "unat s < 2 ^ (8 * Suc n) \<Longrightarrow> unat (drop_bit 8 s) < 2 ^ (8 * n)" for s :: u64
  by (simp add: drop_bit_eq_div unat_div less_mult_imp_div_less power_add mult.commute)

lemma no_more_chars_iff:
  "unat s < 2 ^ (8 * Suc n) \<Longrightarrow> s AND 0xFF = 0 \<Longrightarrow> no_more_chars n s \<longleftrightarrow> s = 0"
proof (induction n arbitrary: s)
  case 0
  then show ?case using low_byte_self [of s] by simp
next
  case (Suc n)
  have z: "s = 0 \<longleftrightarrow> drop_bit 8 s = 0" using word_name_split [of s] Suc.prems(2) by auto
  show ?case using Suc.IH [OF drop_byte_less [OF Suc.prems(1)]] z by (auto simp: Let_def)
qed

lemma upper_low_byte: "upper (char_of (unat (s AND 0xFF))) \<longleftrightarrow> 65 \<le> s AND 0xFF \<and> s AND 0xFF \<le> 90" for s :: u64
  using unat_low_byte [of s] by (simp add: upper_def word_le_nat_alt)

lemma valid_chars_iff:
  "unat s < 2 ^ (8 * n) \<Longrightarrow> s \<noteq> 0 \<Longrightarrow> valid_chars n s \<longleftrightarrow> valid_name (symbol_name_loop s)"
proof (induction n arbitrary: s)
  case 0
  then show ?case by (simp add: unsigned_eq_0_iff)
next
  case (Suc n)
  let ?s = "drop_bit 8 s"
  have b: "unat ?s < 2 ^ (8 * n)" by (rule drop_byte_less [OF Suc.prems(1)])
  have b2: "unat ?s < 2 ^ (8 * Suc (Suc n))" by (rule less_le_trans [OF b]) simp
  have name: "symbol_name_loop s = char_of (unat (s AND 0xFF)) # symbol_name_loop ?s"
    using Suc.prems(2) by (subst symbol_name_loop.simps) simp
  show ?case
  proof (cases "?s AND 0xFF = 0")
    case True
    have "valid_name (symbol_name_loop ?s) \<longleftrightarrow> ?s = 0"
      using True by (subst symbol_name_loop.simps) (auto simp: valid_name_def upper_def)
    with no_more_chars_iff [OF b2 True] True show ?thesis
      by (auto simp add: name valid_name_def upper_low_byte Let_def simp del: no_more_chars.simps)
  next
    case False
    then have "?s \<noteq> 0" by auto
    with Suc.IH [OF b] False show ?thesis by (auto simp add: name valid_name_def upper_low_byte Let_def)
  qed
qed

text \<open>The check of symbols in the contract library accepts exactly the symbols whose name is not empty
  and passes the node's check of names.\<close>

theorem symbol_checks_agree:
  "is_valid_symbol v \<longleftrightarrow> symbol_name v \<noteq> [] \<and> valid_name (symbol_name v)"
proof (cases "drop_bit 8 v = 0")
  case True
  have "\<not> valid_chars 7 0" by code_simp
  with True show ?thesis
    unfolding is_valid_symbol_def symbol_name_def True by (subst (1) symbol_name_loop.simps) simp
next
  case False
  have "unat (drop_bit 8 v) < 2 ^ (8 * 7)"
    by (rule drop_byte_less) (use unsigned_less [of v] in simp)
  from valid_chars_iff [OF this False] False show ?thesis
    unfolding is_valid_symbol_def symbol_name_def by (subst (1) symbol_name_loop.simps) simp
qed

section \<open>A token\<close>

definition demo_symbol :: u64 where "demo_symbol = 0x58414E5304"

definition demo_context :: token_context where
  "demo_context = \<lparr>tc_self = 1, tc_auths = [(1, 7), (2, 7)], tc_is_account = (\<lambda>_. True)\<rparr>"

definition demo_events :: "(token_context \<times> token_action) list" where
  "demo_events =
    [(demo_context, Create 2 \<lparr>as_amount = 1000, as_sym = demo_symbol\<rparr>),
     (demo_context, Issue 3 \<lparr>as_amount = 100, as_sym = demo_symbol\<rparr> []),
     (demo_context, Issue 2 \<lparr>as_amount = 50, as_sym = demo_symbol\<rparr> [])]"

definition demo_quantity :: asset where
  "demo_quantity = \<lparr>as_amount = 20, as_sym = demo_symbol\<rparr>"

theorem token_supply_conserved_witness:
  "get_supply (token_run demo_events) (sym_name demo_symbol) = Inr \<lparr>as_amount = 150, as_sym = demo_symbol\<rparr> \<and>
   150 = (\<Sum>key \<in> {key. snd key = sym_name demo_symbol \<and> bal (token_run demo_events) key \<noteq> 0}. bal (token_run demo_events) key)"
proof -
  have s: "get_supply (token_run demo_events) (sym_name demo_symbol) = Inr \<lparr>as_amount = 150, as_sym = demo_symbol\<rparr>"
    "get_max_supply (token_run demo_events) (sym_name demo_symbol) = Inr \<lparr>as_amount = 1000, as_sym = demo_symbol\<rparr>"
    by code_simp+
  from token_supply_conserved [OF s] s(1) show ?thesis by simp
qed

theorem transfer_exact_witness:
  "\<exists>s'. token_transfer demo_context (token_run demo_events) 2 3 demo_quantity [] = Inr s' \<and>
    bal s' (key_of 2 demo_quantity) = 30 \<and> bal s' (key_of 3 demo_quantity) = 120"
proof -
  let ?s = "token_run demo_events"
  have "isl (token_transfer demo_context ?s 2 3 demo_quantity []) = False" by code_simp
  then obtain s' where s': "token_transfer demo_context ?s 2 3 demo_quantity [] = Inr s'"
    by (cases "token_transfer demo_context ?s 2 3 demo_quantity []") auto
  have b: "bal ?s (key_of 2 demo_quantity) = 50" "bal ?s (key_of 3 demo_quantity) = 100" by code_simp+
  have "bal s' = (bal ?s)(key_of 2 demo_quantity := bal ?s (key_of 2 demo_quantity) - as_amount demo_quantity,
      key_of 3 demo_quantity := bal ?s (key_of 3 demo_quantity) + as_amount demo_quantity)"
    using transfer_exact [OF refl, of 2 demo_context demo_events 3 demo_quantity "[]"] s' by simp
  with s' b show ?thesis by (simp add: demo_quantity_def)
qed

theorem issue_credits_receiver_witness:
  "\<exists>s'. token_exec demo_context (token_run demo_events) (Issue 3 demo_quantity []) = Inr s' \<and>
    bal s' (key_of 2 demo_quantity) = 50 \<and> bal s' (key_of 3 demo_quantity) = 120"
proof -
  let ?s = "token_run demo_events"
  have "isl (token_exec demo_context ?s (Issue 3 demo_quantity [])) = False" by code_simp
  then obtain s' where s': "token_exec demo_context ?s (Issue 3 demo_quantity []) = Inr s'"
    by (cases "token_exec demo_context ?s (Issue 3 demo_quantity [])") auto
  have b: "bal ?s (key_of 2 demo_quantity) = 50" "bal ?s (key_of 3 demo_quantity) = 100" by code_simp+
  have "bal s' = (bal ?s)(key_of 3 demo_quantity := bal ?s (key_of 3 demo_quantity) + as_amount demo_quantity)"
    using issue_credits_receiver [OF refl s'] by blast
  with s' b show ?thesis by (simp add: demo_quantity_def)
qed

end
