(* ===== verification/Block_Header_State.thy ===== *)
theory Block_Header_State
  imports Merkle Chain_Policy Object_Index
begin

text \<open>
  Block headers and the header state that validates the next header: \<^verbatim>\<open>block_header.hpp\<close>,
  \<^verbatim>\<open>block_header.cpp\<close>, \<^verbatim>\<open>producer_schedule.hpp\<close>, \<^verbatim>\<open>block_header_state.hpp\<close> and
  \<^verbatim>\<open>block_header_state.cpp\<close>.  Public keys and signatures are type parameters; hashing, the
  recovery of a key from a signature and the byte reversal of the \<^verbatim>\<open>fc\<close> library are functions of
  the environment.
\<close>

section \<open>Producer schedules\<close>

record 'k producer_key =
  producer_name :: account_name
  block_signing_key :: 'k

record 'k producer_schedule_type =
  ps_version :: u32
  ps_producers :: "'k producer_key list"

definition empty_schedule :: "'k producer_schedule_type" where
  "empty_schedule = \<lparr>ps_version = 0, ps_producers = []\<rparr>"

text \<open>The default key, the first argument, is the answer for a name that is not scheduled.\<close>

fun find_producer_key :: "'k \<Rightarrow> 'k producer_key list \<Rightarrow> account_name \<Rightarrow> 'k" where
  "find_producer_key null_key [] p = null_key"
| "find_producer_key null_key (i # is) p =
    (if producer_name i = p then block_signing_key i else find_producer_key null_key is p)"

definition get_producer_key :: "'k \<Rightarrow> 'k producer_schedule_type \<Rightarrow> account_name \<Rightarrow> 'k" where
  "get_producer_key null_key s p = find_producer_key null_key (ps_producers s) p"

section \<open>Block headers\<close>

record 'k block_header =
  bh_timestamp :: block_timestamp
  bh_producer :: account_name
  bh_confirmed :: u16
  bh_previous :: digest_type
  bh_transaction_mroot :: digest_type
  bh_action_mroot :: digest_type
  bh_schedule_version :: u32
  bh_new_producers :: "'k producer_schedule_type option"
  bh_header_extensions :: "(u16 \<times> bytes) list"

record ('k, 's) signed_block_header = "'k block_header" +
  bh_producer_signature :: 's

record 's header_confirmation =
  hc_block_id :: digest_type
  hc_producer :: account_name
  hc_producer_signature :: 's

text \<open>The functions of the \<^verbatim>\<open>fc\<close> library the headers are validated with; the key recovered from
  a signature takes a flag that asks for a canonical signature and may throw.\<close>

record ('k, 's) header_env =
  he_hash_header :: "'k block_header \<Rightarrow> digest_type"
  he_hash_pair :: "digest_type \<times> digest_type \<Rightarrow> digest_type"
  he_hash_schedule :: "'k producer_schedule_type \<Rightarrow> digest_type"
  he_recover :: "'s \<Rightarrow> digest_type \<Rightarrow> bool \<Rightarrow> 'k result"
  he_endian_reverse_u32 :: "u32 \<Rightarrow> u32"
  he_null_key :: 'k
  he_null_signature :: 's

definition header_digest :: "('k, 's) header_env \<Rightarrow> ('k, 's) signed_block_header \<Rightarrow> digest_type" where
  "header_digest en h = he_hash_header en (block_header.truncate h)"

definition num_from_id :: "('k, 's) header_env \<Rightarrow> digest_type \<Rightarrow> u32" where
  "num_from_id en i = he_endian_reverse_u32 en (ucast (hash_word i 0))"

definition header_block_num :: "('k, 's) header_env \<Rightarrow> ('k, 's) signed_block_header \<Rightarrow> u32" where
  "header_block_num en h = num_from_id en (bh_previous h) + 1"

fun with_block_num :: "u64 \<Rightarrow> digest_type \<Rightarrow> digest_type" where
  "with_block_num n (Digest a b c d) = Digest ((a AND 0xFFFFFFFF00000000) + n) b c d"

definition header_id :: "('k, 's) header_env \<Rightarrow> ('k, 's) signed_block_header \<Rightarrow> digest_type" where
  "header_id en h =
    with_block_num (ucast (he_endian_reverse_u32 en (header_block_num en h))) (header_digest en h)"

section \<open>The header state\<close>

definition producer_repetitions :: u64 where "producer_repetitions = 12"

definition maximum_tracked_dpos_confirmations :: nat where "maximum_tracked_dpos_confirmations = 1024"

record ('k, 's) block_header_state =
  bs_id :: digest_type
  bs_block_num :: u32
  bs_header :: "('k, 's) signed_block_header"
  dpos_proposed_irreversible_blocknum :: u32
  dpos_irreversible_blocknum :: u32
  bft_irreversible_blocknum :: u32
  pending_schedule_lib_num :: u32
  pending_schedule_hash :: digest_type
  pending_schedule :: "'k producer_schedule_type"
  active_schedule :: "'k producer_schedule_type"
  blockroot_merkle :: incremental_merkle
  producer_to_last_produced :: "(account_name, u32) index"
  producer_to_last_implied_irb :: "(account_name, u32) index"
  bs_block_signing_key :: 'k
  confirm_count :: "u8 list"
  confirmations :: "'s header_confirmation list"

definition is_active_producer :: "('k, 's) block_header_state \<Rightarrow> account_name \<Rightarrow> bool" where
  "is_active_producer s n \<longleftrightarrow> idx_find (producer_to_last_produced s) n \<noteq> None"

text \<open>The remainder by zero of an empty schedule is a fault.\<close>

definition get_scheduled_producer :: "('k, 's) block_header_state \<Rightarrow> block_timestamp \<Rightarrow> 'k producer_key result" where
  "get_scheduled_producer s t =
    (let n = of_nat (length (ps_producers (active_schedule s))) * producer_repetitions in
     if n = 0 then Inl arithmetic_fault
     else let index = (ucast t mod n) div producer_repetitions in
       Inr (ps_producers (active_schedule s) ! unat index))"

definition calc_dpos_last_irreversible :: "(account_name, u32) index \<Rightarrow> u32" where
  "calc_dpos_last_irreversible last_implied_irb =
    (let blocknums = map snd (idx_rows last_implied_irb) in
     if length blocknums = 0 then 0
     else sort blocknums ! ((length blocknums - 1) div 3))"

definition required_confs :: "nat \<Rightarrow> u32" where
  "required_confs num_active_producers = of_nat (num_active_producers * 2 div 3) + 1"

definition grow_confirm_count :: "u8 list \<Rightarrow> u8 \<Rightarrow> u8 list" where
  "grow_confirm_count cc n =
    (if length cc < maximum_tracked_dpos_confirmations then cc @ [n] else tl cc @ [n])"

definition generate_next ::
  "('k, 's) header_env \<Rightarrow> ('k, 's) block_header_state \<Rightarrow> block_timestamp \<Rightarrow> ('k, 's) block_header_state result" where
  "generate_next en s when =
    SNAX_ASSERT (when \<noteq> 0 \<longrightarrow> when > bh_timestamp (bs_header s)) block_validate_exception (
    let when = (if when \<noteq> 0 then when else bh_timestamp (bs_header s) + 1) in
    ebind (get_scheduled_producer s when) (\<lambda>prokey.
    let block_num = bs_block_num s + 1;
        irb = idx_put (producer_name prokey) (dpos_proposed_irreversible_blocknum s) (producer_to_last_implied_irb s) in
    case append_node (he_hash_pair en) (blockroot_merkle s) (bs_id s) of
      None \<Rightarrow> Inl undefined_behaviour
    | Some (blockroot, _) \<Rightarrow>
      Inr \<lparr>bs_id = null_digest, bs_block_num = block_num,
        bs_header = \<lparr>bh_timestamp = when, bh_producer = producer_name prokey, bh_confirmed = 1, bh_previous = bs_id s,
          bh_transaction_mroot = null_digest, bh_action_mroot = null_digest,
          bh_schedule_version = ps_version (active_schedule s), bh_new_producers = None, bh_header_extensions = [],
          bh_producer_signature = he_null_signature en\<rparr>,
        dpos_proposed_irreversible_blocknum = dpos_proposed_irreversible_blocknum s,
        dpos_irreversible_blocknum = calc_dpos_last_irreversible irb,
        bft_irreversible_blocknum = bft_irreversible_blocknum s,
        pending_schedule_lib_num = pending_schedule_lib_num s, pending_schedule_hash = pending_schedule_hash s,
        pending_schedule = pending_schedule s, active_schedule = active_schedule s, blockroot_merkle = blockroot,
        producer_to_last_produced = idx_put (producer_name prokey) block_num (producer_to_last_produced s),
        producer_to_last_implied_irb = irb, bs_block_signing_key = block_signing_key prokey,
        confirm_count = grow_confirm_count (confirm_count s)
          (ucast (required_confs (length (ps_producers (active_schedule s))))),
        confirmations = []\<rparr>))"

text \<open>The tables of a new schedule: what a producer had, else the last irreversible block.\<close>

definition carry_over :: "(account_name, u32) index \<Rightarrow> u32 \<Rightarrow> 'k producer_key list \<Rightarrow> (account_name, u32) index" where
  "carry_over old lib producers =
    foldl (\<lambda>t pro. idx_put (producer_name pro)
      (case idx_find old (producer_name pro) of Some n \<Rightarrow> n | None \<Rightarrow> lib) t) [] producers"

text \<open>Moving a schedule out of \<^verbatim>\<open>pending_schedule\<close> leaves its list empty and its version.\<close>

definition maybe_promote_pending :: "('k, 's) block_header_state \<Rightarrow> ('k, 's) block_header_state \<times> bool" where
  "maybe_promote_pending s =
    (if length (ps_producers (pending_schedule s)) \<noteq> 0 \<and> dpos_irreversible_blocknum s \<ge> pending_schedule_lib_num s then
       let producers = ps_producers (pending_schedule s); lib = dpos_irreversible_blocknum s in
       (s\<lparr>active_schedule := pending_schedule s,
          pending_schedule := (pending_schedule s)\<lparr>ps_producers := []\<rparr>,
          producer_to_last_produced := idx_put (bh_producer (bs_header s)) (bs_block_num s)
            (carry_over (producer_to_last_produced s) lib producers),
          producer_to_last_implied_irb := carry_over (producer_to_last_implied_irb s) lib producers\<rparr>, True)
     else (s, False))"

definition set_new_producers ::
  "('k, 's) header_env \<Rightarrow> ('k, 's) block_header_state \<Rightarrow> 'k producer_schedule_type \<Rightarrow> ('k, 's) block_header_state result" where
  "set_new_producers en s pending =
    SNAX_ASSERT (ps_version pending = ps_version (active_schedule s) + 1) producer_schedule_exception (
    SNAX_ASSERT (length (ps_producers (pending_schedule s)) = 0) producer_schedule_exception (
    Inr (s\<lparr>bs_header := (bs_header s)\<lparr>bh_new_producers := Some pending\<rparr>,
           pending_schedule_hash := he_hash_schedule en pending, pending_schedule := pending,
           pending_schedule_lib_num := bs_block_num s\<rparr>)))"

text \<open>The loop of \<^verbatim>\<open>set_confirmed\<close>, from the newest count down; the first argument is the number of
  counts not visited yet.\<close>

fun confirm_loop :: "nat \<Rightarrow> u32 \<Rightarrow> ('k, 's) block_header_state \<Rightarrow> ('k, 's) block_header_state" where
  "confirm_loop 0 blocks_to_confirm s = s"
| "confirm_loop (Suc i) blocks_to_confirm s =
    (if blocks_to_confirm = 0 then s
     else
       let cc = (confirm_count s)[i := confirm_count s ! i - 1] in
       if cc ! i = 0 then
         s\<lparr>dpos_proposed_irreversible_blocknum := bs_block_num s - of_nat (length cc - 1 - i),
           confirm_count := (if i = length cc - 1 then [] else drop (i + 1) cc)\<rparr>
       else confirm_loop i (blocks_to_confirm - 1) (s\<lparr>confirm_count := cc\<rparr>))"

definition set_confirmed :: "('k, 's) block_header_state \<Rightarrow> u16 \<Rightarrow> ('k, 's) block_header_state" where
  "set_confirmed s num_prev_blocks =
    (let s = s\<lparr>bs_header := (bs_header s)\<lparr>bh_confirmed := num_prev_blocks\<rparr>\<rparr> in
     confirm_loop (length (confirm_count s)) (ucast num_prev_blocks + 1) s)"

definition sig_digest :: "('k, 's) header_env \<Rightarrow> ('k, 's) block_header_state \<Rightarrow> digest_type" where
  "sig_digest en s =
    (let header_bmroot = he_hash_pair en (header_digest en (bs_header s), get_root (blockroot_merkle s)) in
     he_hash_pair en (header_bmroot, pending_schedule_hash s))"

definition sign_header ::
  "('k, 's) header_env \<Rightarrow> ('k, 's) block_header_state \<Rightarrow> (digest_type \<Rightarrow> 's) \<Rightarrow> ('k, 's) block_header_state result" where
  "sign_header en s signer =
    (let d = sig_digest en s; s = s\<lparr>bs_header := (bs_header s)\<lparr>bh_producer_signature := signer d\<rparr>\<rparr> in
     ebind (he_recover en (bh_producer_signature (bs_header s)) d False) (\<lambda>key.
     SNAX_ASSERT (bs_block_signing_key s = key) wrong_signing_key (Inr s)))"

definition signee :: "('k, 's) header_env \<Rightarrow> ('k, 's) block_header_state \<Rightarrow> 'k result" where
  "signee en s = he_recover en (bh_producer_signature (bs_header s)) (sig_digest en s) True"

definition verify_signee :: "('k, 's) block_header_state \<Rightarrow> 'k \<Rightarrow> unit result" where
  "verify_signee s key = SNAX_ASSERT (bs_block_signing_key s = key) wrong_signing_key (Inr ())"

definition next_header_state ::
  "('k, 's) header_env \<Rightarrow> ('k, 's) block_header_state \<Rightarrow> ('k, 's) signed_block_header \<Rightarrow> bool \<Rightarrow>
   ('k, 's) block_header_state result" where
  "next_header_state en s h skip_validate_signee =
    SNAX_ASSERT (bh_timestamp h \<noteq> 0) block_validate_exception (
    SNAX_ASSERT (length (bh_header_extensions h) = 0) block_validate_exception (
    SNAX_ASSERT (bh_timestamp h > bh_timestamp (bs_header s)) block_validate_exception (
    SNAX_ASSERT (bh_previous h = bs_id s) unlinkable_block_exception (
    ebind (generate_next en s (bh_timestamp h)) (\<lambda>result.
    SNAX_ASSERT (bh_producer (bs_header result) = bh_producer h) wrong_producer (
    SNAX_ASSERT (bh_schedule_version (bs_header result) = bh_schedule_version h) producer_schedule_exception (
    SNAX_ASSERT (case idx_find (producer_to_last_produced s) (bh_producer h) of
        None \<Rightarrow> True | Some last_produced \<Rightarrow> last_produced < bs_block_num result - ucast (bh_confirmed h))
      producer_double_confirm (
    let (result, was_pending_promoted) = maybe_promote_pending (set_confirmed result (bh_confirmed h)) in
    ebind (case bh_new_producers h of
        None \<Rightarrow> Inr result
      | Some p \<Rightarrow> SNAX_ASSERT (\<not> was_pending_promoted) producer_schedule_exception (set_new_producers en result p)) (\<lambda>result.
    let result = result\<lparr>bs_header := (bs_header result)\<lparr>bh_action_mroot := bh_action_mroot h,
          bh_transaction_mroot := bh_transaction_mroot h, bh_producer_signature := bh_producer_signature h\<rparr>\<rparr>;
        result = result\<lparr>bs_id := header_id en (bs_header result)\<rparr> in
    ebind (if \<not> skip_validate_signee then ebind (signee en result) (verify_signee result) else Inr ()) (\<lambda>_.
    Inr result))))))))))"

definition add_confirmation ::
  "('k, 's) header_env \<Rightarrow> ('k, 's) block_header_state \<Rightarrow> 's header_confirmation \<Rightarrow> ('k, 's) block_header_state result" where
  "add_confirmation en s conf =
    SNAX_ASSERT (\<forall>c \<in> set (confirmations s). hc_producer c \<noteq> hc_producer conf) producer_double_confirm (
    let key = get_producer_key (he_null_key en) (active_schedule s) (hc_producer conf) in
    SNAX_ASSERT (key \<noteq> he_null_key en) producer_not_in_schedule (
    ebind (he_recover en (hc_producer_signature conf) (sig_digest en s) True) (\<lambda>signer.
    SNAX_ASSERT (signer = key) wrong_signing_key (
    Inr (s\<lparr>confirmations := confirmations s @ [conf]\<rparr>)))))"

text \<open>The state of the first block, from \<^verbatim>\<open>controller_impl::initialize_fork_db\<close>; the key and the
  time come from the genesis file, the chain id is its hash.\<close>

definition genesis_header_state ::
  "('k, 's) header_env \<Rightarrow> account_name \<Rightarrow> 'k \<Rightarrow> block_timestamp \<Rightarrow> digest_type \<Rightarrow> ('k, 's) block_header_state" where
  "genesis_header_state en system_account initial_key initial_timestamp chain_id =
    (let initial_schedule = \<lparr>ps_version = 0, ps_producers = [\<lparr>producer_name = system_account, block_signing_key = initial_key\<rparr>]\<rparr>;
         header = \<lparr>bh_timestamp = initial_timestamp, bh_producer = 0, bh_confirmed = 1, bh_previous = null_digest,
           bh_transaction_mroot = null_digest, bh_action_mroot = chain_id, bh_schedule_version = 0,
           bh_new_producers = None, bh_header_extensions = [], bh_producer_signature = he_null_signature en\<rparr> in
     \<lparr>bs_id = header_id en header, bs_block_num = header_block_num en header, bs_header = header,
      dpos_proposed_irreversible_blocknum = 0, dpos_irreversible_blocknum = 0, bft_irreversible_blocknum = 0,
      pending_schedule_lib_num = 0, pending_schedule_hash = he_hash_schedule en initial_schedule,
      pending_schedule = initial_schedule, active_schedule = initial_schedule,
      blockroot_merkle = new_incremental_merkle, producer_to_last_produced = [], producer_to_last_implied_irb = [],
      bs_block_signing_key = he_null_key en, confirm_count = [], confirmations = []\<rparr>)"

section \<open>The last irreversible block is backed by more than two thirds\<close>

lemma length_filter_sort: "length (filter P (sort xs)) = length (filter P xs)"
  by (metis mset_filter mset_sort size_mset)

lemma sorted_rank:
  fixes ys :: "'a::linorder list"
  assumes "sorted ys" "k < length ys"
  shows "length ys - k \<le> length (filter (\<lambda>x. ys ! k \<le> x) ys)"
    and "ys ! k < b \<Longrightarrow> length (filter (\<lambda>x. b \<le> x) ys) \<le> length ys - k - 1"
proof -
  have "filter (\<lambda>x. ys ! k \<le> x) (drop k ys) = drop k ys"
    by (rule filter_True) (use assms sorted_nth_mono in \<open>fastforce simp: in_set_conv_nth\<close>)
  then have "length (drop k ys) \<le> length (filter (\<lambda>x. ys ! k \<le> x) (take k ys @ drop k ys))"
    by (simp only: filter_append) simp
  then show "length ys - k \<le> length (filter (\<lambda>x. ys ! k \<le> x) ys)" by simp
  assume b: "ys ! k < b"
  have "filter (\<lambda>x. b \<le> x) (take (k + 1) ys) = []"
  proof (rule filter_False, rule ballI)
    fix x assume "x \<in> set (take (k + 1) ys)"
    then obtain i where i: "i \<le> k" "x = ys ! i" using assms(2) by (auto simp: in_set_conv_nth less_Suc_eq_le)
    have "ys ! i \<le> ys ! k" by (rule sorted_nth_mono [OF assms(1) i(1) assms(2)])
    with b i(2) show "\<not> b \<le> x" by simp
  qed
  then have "length (filter (\<lambda>x. b \<le> x) (take (k + 1) ys @ drop (k + 1) ys)) \<le> length (drop (k + 1) ys)"
    unfolding filter_append using length_filter_le [of _ "drop (k + 1) ys"] by simp
  then show "length (filter (\<lambda>x. b \<le> x) ys) \<le> length ys - k - 1" by simp
qed

text \<open>The producers whose block confirmed a block number at least \<open>b\<close> as proposed irreversible.\<close>

definition backers :: "(account_name, u32) index \<Rightarrow> u32 \<Rightarrow> account_name set" where
  "backers irb b = {p. \<exists>n. idx_find irb p = Some n \<and> b \<le> n}"

lemma card_rows:
  assumes "idx_ok t"
  shows "card {k. \<exists>v. idx_find t k = Some v \<and> P v} = length (filter P (map snd (idx_rows t)))"
proof -
  let ?rs = "filter (\<lambda>r. P (snd r)) (idx_rows t)"
  have d: "distinct (map fst ?rs)" using index.rows_distinct [OF assms] by (rule distinct_map_filter)
  have "{k. \<exists>v. idx_find t k = Some v \<and> P v} = set (map fst ?rs)"
    using idx_rows_find [OF assms] by force
  then show ?thesis using distinct_card [OF d] by (simp add: filter_map comp_def)
qed

lemma two_thirds: "n \<noteq> 0 \<Longrightarrow> 2 * n < 3 * (n - (n - 1) div 3)" "3 * (n - (n - 1) div 3 - 1) \<le> 2 * n" for n :: nat
  by presburger+

lemma calc_dpos_supermajority:
  assumes "idx_ok irb" "irb \<noteq> []"
  shows "2 * card (dom (idx_find irb)) < 3 * card (backers irb b) \<longleftrightarrow> b \<le> calc_dpos_last_irreversible irb"
proof -
  let ?xs = "map snd (idx_rows irb)" and ?n = "length irb"
  let ?k = "(?n - 1) div 3" and ?ys = "sort (map snd (idx_rows irb))"
  have len: "length ?ys = ?n" "?n \<noteq> 0" using assms(2) by (simp_all add: idx_rows_def)
  have "?k \<le> ?n - 1" by (rule div_le_dividend)
  then have k: "?k < length ?ys" unfolding len(1) using len(2) by linarith
  have v: "calc_dpos_last_irreversible irb = ?ys ! ?k"
    using len by (simp add: calc_dpos_last_irreversible_def idx_rows_def)
  have dom: "card (dom (idx_find irb)) = ?n"
    using card_rows [OF assms(1), of "\<lambda>_. True"] by (simp add: dom_def idx_rows_def)
  have bk: "card (backers irb c) = length (filter (\<lambda>x. c \<le> x) ?ys)" for c
    unfolding backers_def card_rows [OF assms(1)] length_filter_sort ..
  note r = sorted_rank [OF sorted_sort k, unfolded len(1)]
  show ?thesis
  proof
    assume "b \<le> calc_dpos_last_irreversible irb"
    then have "backers irb (?ys ! ?k) \<subseteq> backers irb b" unfolding v backers_def by auto
    moreover have "finite (backers irb b)"
      by (rule finite_subset [OF _ index.finite_find [OF assms(1)]]) (auto simp: backers_def)
    ultimately have "card (backers irb (?ys ! ?k)) \<le> card (backers irb b)" by (rule card_mono [rotated])
    then show "2 * card (dom (idx_find irb)) < 3 * card (backers irb b)"
      using r(1) two_thirds(1) [OF len(2)] unfolding dom bk by linarith
  next
    assume m: "2 * card (dom (idx_find irb)) < 3 * card (backers irb b)"
    show "b \<le> calc_dpos_last_irreversible irb"
    proof (rule ccontr)
      assume "\<not> ?thesis"
      then have "?ys ! ?k < b" unfolding v by simp
      from r(2) [OF this] two_thirds(2) [of ?n] m show False unfolding dom bk by linarith
    qed
  qed
qed

section \<open>Numbers in block ids\<close>

lemma ucast_with_block_num: "ucast ((a AND 0xFFFFFFFF00000000) + ucast m) = m" for a :: u64 and m :: u32
proof -
  have high: "(0xFFFFFFFF00000000 :: u64) = push_bit 32 (mask 32)"
    by (simp add: mask_eq_exp_minus_1 push_bit_eq_mult)
  have "(a AND 0xFFFFFFFF00000000) + ucast m = (a AND 0xFFFFFFFF00000000) OR ucast m"
    unfolding high by (rule disjunctive_add) (auto simp: bit_simps dest: bit_imp_le_length)
  then show ?thesis unfolding high by (auto intro!: bit_word_eqI simp: bit_simps)
qed

lemma num_from_header_id:
  assumes "\<And>n. he_endian_reverse_u32 en (he_endian_reverse_u32 en n) = n"
  shows "num_from_id en (header_id en h) = num_from_id en (bh_previous h) + 1"
proof -
  obtain a b c d where "header_digest en h = Digest a b c d" by (cases "header_digest en h")
  then show ?thesis
    unfolding header_id_def header_block_num_def by (simp add: num_from_id_def ucast_with_block_num assms)
qed

section \<open>Chains of accepted headers\<close>

text \<open>A chain stays below the last 32-bit block number, \<open>68\<close> years of half-second blocks.\<close>

inductive header_chain :: "('k, 's) header_env \<Rightarrow> ('k, 's) block_header_state \<Rightarrow> ('k, 's) block_header_state \<Rightarrow> bool"
  for en g where
  chain_start: "header_chain en g g"
| chain_next: "header_chain en g s \<Longrightarrow> bs_block_num s \<noteq> - 1 \<Longrightarrow> next_header_state en s h skip = Inr s' \<Longrightarrow> header_chain en g s'"

inductive_cases chain_nextE: "header_chain en g s"

text \<open>What an accepted header changes in the numbers: the new state in terms of the old one.\<close>

definition counters_ok :: "('k, 's) block_header_state \<Rightarrow> bool" where
  "counters_ok s \<longleftrightarrow> idx_ok (producer_to_last_implied_irb s) \<and> idx_ok (producer_to_last_produced s) \<and>
    unat (dpos_proposed_irreversible_blocknum s) + length (confirm_count s) \<le> unat (bs_block_num s) \<and>
    (\<forall>p n. idx_find (producer_to_last_implied_irb s) p = Some n \<longrightarrow> n \<le> dpos_proposed_irreversible_blocknum s) \<and>
    dpos_irreversible_blocknum s \<le> dpos_proposed_irreversible_blocknum s"

lemma calc_dpos_in:
  assumes "idx_ok irb" "irb \<noteq> []"
  shows "\<exists>p. idx_find irb p = Some (calc_dpos_last_irreversible irb)"
proof -
  let ?ys = "sort (map snd (idx_rows irb))" and ?k = "(length irb - 1) div 3"
  have "?k \<le> length irb - 1" by (rule div_le_dividend)
  moreover have "length irb \<noteq> 0" using assms(2) by simp
  ultimately have "?k < length irb" by linarith
  then have "?k < length ?ys" by (simp add: idx_rows_def)
  then have "?ys ! ?k \<in> set ?ys" by (rule nth_mem)
  moreover have "calc_dpos_last_irreversible irb = ?ys ! ?k"
    using assms(2) by (simp add: calc_dpos_last_irreversible_def idx_rows_def)
  ultimately show ?thesis using idx_rows_find [OF assms(1)] by auto
qed

lemma generate_next_frame:
  assumes "generate_next en s when = Inr r"
  obtains p where "dpos_proposed_irreversible_blocknum r = dpos_proposed_irreversible_blocknum s"
    "bs_block_num r = bs_block_num s + 1" "bh_previous (bs_header r) = bs_id s"
    "when \<noteq> 0 \<longrightarrow> bh_timestamp (bs_header r) = when"
    "producer_to_last_implied_irb r = idx_put p (dpos_proposed_irreversible_blocknum s) (producer_to_last_implied_irb s)"
    "dpos_irreversible_blocknum r = calc_dpos_last_irreversible (producer_to_last_implied_irb r)"
    "producer_to_last_produced r = idx_put p (bs_block_num s + 1) (producer_to_last_produced s)"
    "length (confirm_count r) \<le> length (confirm_count s) + 1"
    "bh_producer (bs_header r) = p" "active_schedule r = active_schedule s" "pending_schedule r = pending_schedule s"
    "pending_schedule_lib_num r = pending_schedule_lib_num s"
proof -
  obtain k m d where "get_scheduled_producer s (if when \<noteq> 0 then when else bh_timestamp (bs_header s) + 1) = Inr k"
    "append_node (he_hash_pair en) (blockroot_merkle s) (bs_id s) = Some (m, d)"
    using assms unfolding generate_next_def Let_def
    by (cases "append_node (he_hash_pair en) (blockroot_merkle s) (bs_id s)") auto
  with assms show thesis
    by (intro that [of "producer_name k"]) (auto simp add: generate_next_def Let_def grow_confirm_count_def split: if_splits)
qed

lemma idx_put_not_Nil [simp]: "idx_put k v t \<noteq> []"
  by (induction k v t rule: idx_put.induct) auto

lemma unat_plus_one: "n \<noteq> - 1 \<Longrightarrow> unat (n + 1) = unat n + 1" for n :: u32
  using unatSuc [of n] by (metis add.commute eq_neg_iff_add_eq_0 Suc_eq_plus1)

lemma unat_minus_of_nat:
  fixes n :: u32
  assumes "m \<le> unat n"
  shows "unat (n - of_nat m) = unat n - m"
proof -
  have "unat n < 2 ^ 32" using unsigned_less [of n] by simp
  with assms have "m < 2 ^ 32" by simp
  then have m: "unat (of_nat m :: u32) = m" by (simp add: unat_of_nat)
  then have "of_nat m \<le> n" using assms by (simp add: word_le_nat_alt)
  then show ?thesis by (simp add: unat_sub m)
qed

lemma generate_next_counters:
  assumes "counters_ok s" "bs_block_num s \<noteq> - 1" "generate_next en s when = Inr r"
  shows "counters_ok r"
proof -
  obtain p where r: "dpos_proposed_irreversible_blocknum r = dpos_proposed_irreversible_blocknum s"
    "bs_block_num r = bs_block_num s + 1"
    "producer_to_last_implied_irb r = idx_put p (dpos_proposed_irreversible_blocknum s) (producer_to_last_implied_irb s)"
    "dpos_irreversible_blocknum r = calc_dpos_last_irreversible (producer_to_last_implied_irb r)"
    "producer_to_last_produced r = idx_put p (bs_block_num s + 1) (producer_to_last_produced s)"
    "length (confirm_count r) \<le> length (confirm_count s) + 1"
    by (rule generate_next_frame [OF assms(3)])
  have c: "idx_ok (producer_to_last_implied_irb s)" "idx_ok (producer_to_last_produced s)"
    "unat (dpos_proposed_irreversible_blocknum s) + length (confirm_count s) \<le> unat (bs_block_num s)"
    "\<forall>p n. idx_find (producer_to_last_implied_irb s) p = Some n \<longrightarrow> n \<le> dpos_proposed_irreversible_blocknum s"
    using assms(1) by (simp_all add: counters_ok_def)
  have ok: "idx_ok (producer_to_last_implied_irb r)" "idx_ok (producer_to_last_produced r)"
    unfolding r(3,5) using c(1,2) by (simp_all add: idx_simps)
  have vals: "n \<le> dpos_proposed_irreversible_blocknum r" if "idx_find (producer_to_last_implied_irb r) p' = Some n" for p' n
    using that c(4) unfolding r(1,3) by (auto simp: idx_simps c(1) split: if_splits)
  have "producer_to_last_implied_irb r \<noteq> []" unfolding r(3) by simp
  from calc_dpos_in [OF ok(1) this] vals have lib: "dpos_irreversible_blocknum r \<le> dpos_proposed_irreversible_blocknum r"
    unfolding r(4) by blast
  have "unat (bs_block_num r) = unat (bs_block_num s) + 1"
    unfolding r(2) by (rule unat_plus_one [OF assms(2)])
  with c(3) r(6) have "unat (dpos_proposed_irreversible_blocknum r) + length (confirm_count r) \<le> unat (bs_block_num r)"
    unfolding r(1) by linarith
  with ok vals lib show ?thesis unfolding counters_ok_def by blast
qed

lemma confirm_loop_frame:
  "producer_to_last_implied_irb (confirm_loop i b s) = producer_to_last_implied_irb s \<and>
   producer_to_last_produced (confirm_loop i b s) = producer_to_last_produced s \<and>
   bs_block_num (confirm_loop i b s) = bs_block_num s \<and> bs_header (confirm_loop i b s) = bs_header s \<and>
   dpos_irreversible_blocknum (confirm_loop i b s) = dpos_irreversible_blocknum s \<and>
   active_schedule (confirm_loop i b s) = active_schedule s \<and> pending_schedule (confirm_loop i b s) = pending_schedule s"
  by (induction i b s rule: confirm_loop.induct) (simp_all add: Let_def)

lemma confirm_loop_counts:
  assumes "unat (dpos_proposed_irreversible_blocknum s) + length (confirm_count s) \<le> unat (bs_block_num s)"
    "i \<le> length (confirm_count s)"
  shows "unat (dpos_proposed_irreversible_blocknum (confirm_loop i b s)) + length (confirm_count (confirm_loop i b s))
      \<le> unat (bs_block_num s) \<and>
    unat (dpos_proposed_irreversible_blocknum s) \<le> unat (dpos_proposed_irreversible_blocknum (confirm_loop i b s))"
  using assms
proof (induction i b s rule: confirm_loop.induct)
  case (2 i b s)
  let ?cc = "(confirm_count s)[i := confirm_count s ! i - 1]"
  let ?m = "length (confirm_count s) - 1 - i"
  consider "b = 0" | "b \<noteq> 0" "?cc ! i = 0" | "b \<noteq> 0" "?cc ! i \<noteq> 0" by blast
  then show ?case
  proof cases
    case 1
    with 2 show ?thesis by simp
  next
    case c: 2
    define m where "m = ?m"
    have e: "confirm_loop (Suc i) b s = s\<lparr>dpos_proposed_irreversible_blocknum := bs_block_num s - of_nat m,
        confirm_count := drop (i + 1) ?cc\<rparr>"
      using c 2(3) by (simp add: Let_def m_def del: of_nat_diff)
    have u: "unat (bs_block_num s - of_nat m) = unat (bs_block_num s) - m"
      by (rule unat_minus_of_nat) (use 2 m_def in linarith)
    have "length (confirm_count s) = m + i + 1" using 2(3) by (simp add: m_def)
    with 2(2) show ?thesis unfolding e by (simp add: u)
  next
    case c: 3
    have "unat (dpos_proposed_irreversible_blocknum s) + length ?cc \<le> unat (bs_block_num s)" "i \<le> length ?cc" using 2 by simp_all
    with 2(1) [OF c(1) refl c(2)] c show ?thesis by (simp add: Let_def)
  qed
qed simp

lemma set_confirmed_counters:
  assumes "counters_ok s"
  shows "counters_ok (set_confirmed s n)"
    "unat (dpos_proposed_irreversible_blocknum s) \<le> unat (dpos_proposed_irreversible_blocknum (set_confirmed s n))"
proof -
  let ?s = "s\<lparr>bs_header := (bs_header s)\<lparr>bh_confirmed := n\<rparr>\<rparr>"
  have c: "unat (dpos_proposed_irreversible_blocknum ?s) + length (confirm_count ?s) \<le> unat (bs_block_num ?s)"
    using assms by (simp add: counters_ok_def)
  note l = confirm_loop_counts [OF c order_refl, of "ucast n + 1", folded set_confirmed_def [unfolded Let_def]]
  show m: "unat (dpos_proposed_irreversible_blocknum s) \<le> unat (dpos_proposed_irreversible_blocknum (set_confirmed s n))"
    using l unfolding set_confirmed_def Let_def by simp
  have f: "producer_to_last_implied_irb (set_confirmed s n) = producer_to_last_implied_irb s"
    "producer_to_last_produced (set_confirmed s n) = producer_to_last_produced s"
    "bs_block_num (set_confirmed s n) = bs_block_num s"
    "dpos_irreversible_blocknum (set_confirmed s n) = dpos_irreversible_blocknum s"
    by (simp_all add: set_confirmed_def Let_def confirm_loop_frame)
  have le: "dpos_proposed_irreversible_blocknum s \<le> dpos_proposed_irreversible_blocknum (set_confirmed s n)"
    using m by (simp add: word_le_nat_alt)
  have "unat (dpos_proposed_irreversible_blocknum (set_confirmed s n)) + length (confirm_count (set_confirmed s n)) \<le> unat (bs_block_num s)"
    using l unfolding set_confirmed_def Let_def by simp
  then show "counters_ok (set_confirmed s n)"
    using assms le unfolding counters_ok_def f by (blast intro: order_trans)
qed

lemma carry_over_spec:
  fixes ps :: "'k producer_key list"
  shows "idx_ok (carry_over old lib ps)"
    and "idx_find (carry_over old lib ps) p = Some n \<Longrightarrow> p \<in> producer_name ` set ps \<and> (idx_find old p = Some n \<or> idx_find old p = None \<and> n = lib)"
proof -
  define put where "put = (\<lambda>t (pro :: 'k producer_key). idx_put (producer_name pro)
      (case idx_find old (producer_name pro) of Some n \<Rightarrow> n | None \<Rightarrow> lib) t)"
  define P where "P = (\<lambda>t (ps :: 'k producer_key list). idx_ok t \<and> (\<forall>p n. idx_find t p = Some n \<longrightarrow>
    p \<in> producer_name ` set ps \<and> (idx_find old p = Some n \<or> idx_find old p = None \<and> n = lib)))"
  have step: "P (put t x) (ps @ [x])" if "P t ps" for t ps x
    using that by (auto simp: P_def put_def idx_simps split: if_splits option.splits)
  have "P (foldl put [] ps) ps"
  proof (induction ps rule: rev_induct)
    case (snoc x ps)
    then show ?case using step by simp
  qed (simp add: P_def)
  then show "idx_ok (carry_over old lib ps)"
    "idx_find (carry_over old lib ps) p = Some n \<Longrightarrow> p \<in> producer_name ` set ps \<and> (idx_find old p = Some n \<or> idx_find old p = None \<and> n = lib)"
    unfolding carry_over_def put_def [symmetric] P_def by blast+
qed

lemma promote_counters:
  assumes "counters_ok s"
  shows "counters_ok (fst (maybe_promote_pending s))"
  using assms carry_over_spec
  unfolding counters_ok_def maybe_promote_pending_def Let_def by (auto simp: idx_ok_put dest!: carry_over_spec(2))

text \<open>An accepted header in stages, and the fields that do not change after the promotion.\<close>

lemma next_stages:
  assumes "next_header_state en s h skip = Inr s'"
  obtains r where "generate_next en s (bh_timestamp h) = Inr r" "bh_timestamp h \<noteq> 0" "bh_timestamp (bs_header s) < bh_timestamp h"
    "bh_previous h = bs_id s" "bh_producer (bs_header r) = bh_producer h" "bh_schedule_version h = bh_schedule_version (bs_header r)"
    "\<forall>n. idx_find (producer_to_last_produced s) (bh_producer h) = Some n \<longrightarrow> n < bs_block_num r - ucast (bh_confirmed h)"
    "bs_block_num s' = bs_block_num (fst (maybe_promote_pending (set_confirmed r (bh_confirmed h))))"
    "dpos_proposed_irreversible_blocknum s' = dpos_proposed_irreversible_blocknum (fst (maybe_promote_pending (set_confirmed r (bh_confirmed h))))"
    "dpos_irreversible_blocknum s' = dpos_irreversible_blocknum (fst (maybe_promote_pending (set_confirmed r (bh_confirmed h))))"
    "producer_to_last_implied_irb s' = producer_to_last_implied_irb (fst (maybe_promote_pending (set_confirmed r (bh_confirmed h))))"
    "producer_to_last_produced s' = producer_to_last_produced (fst (maybe_promote_pending (set_confirmed r (bh_confirmed h))))"
    "confirm_count s' = confirm_count (fst (maybe_promote_pending (set_confirmed r (bh_confirmed h))))"
    "bs_id s' = header_id en (bs_header s')" "bh_previous (bs_header s') = bh_previous (bs_header r)"
    "bh_timestamp (bs_header s') = bh_timestamp (bs_header r)"
    "\<not> skip \<longrightarrow> signee en s' = Inr (bs_block_signing_key s')"
proof -
  obtain r where r: "generate_next en s (bh_timestamp h) = Inr r"
    using assms by (auto simp: next_header_state_def)
  obtain q w where q: "maybe_promote_pending (set_confirmed r (bh_confirmed h)) = (q, w)" by fastforce
  have hd: "bs_header q = (bs_header r)\<lparr>bh_confirmed := bh_confirmed h\<rparr>"
    using q by (auto simp: maybe_promote_pending_def set_confirmed_def Let_def confirm_loop_frame split: if_splits)
  show thesis
    using assms hd unfolding next_header_state_def r q
    by (intro that [of r]) (auto simp: r q Let_def set_new_producers_def verify_signee_def split: option.splits if_splits)
qed

lemma next_counters:
  assumes "counters_ok s" "bs_block_num s \<noteq> - 1" "next_header_state en s h skip = Inr s'"
  shows "counters_ok s'" "bs_block_num s' = bs_block_num s + 1"
    "unat (dpos_proposed_irreversible_blocknum s) \<le> unat (dpos_proposed_irreversible_blocknum s')"
proof -
  obtain r where r: "generate_next en s (bh_timestamp h) = Inr r"
    and e: "bs_block_num s' = bs_block_num (fst (maybe_promote_pending (set_confirmed r (bh_confirmed h))))"
    "dpos_proposed_irreversible_blocknum s' = dpos_proposed_irreversible_blocknum (fst (maybe_promote_pending (set_confirmed r (bh_confirmed h))))"
    "dpos_irreversible_blocknum s' = dpos_irreversible_blocknum (fst (maybe_promote_pending (set_confirmed r (bh_confirmed h))))"
    "producer_to_last_implied_irb s' = producer_to_last_implied_irb (fst (maybe_promote_pending (set_confirmed r (bh_confirmed h))))"
    "producer_to_last_produced s' = producer_to_last_produced (fst (maybe_promote_pending (set_confirmed r (bh_confirmed h))))"
    "confirm_count s' = confirm_count (fst (maybe_promote_pending (set_confirmed r (bh_confirmed h))))"
    by (rule next_stages [OF assms(3)])
  let ?q = "set_confirmed r (bh_confirmed h)"
  have cr: "counters_ok r" by (rule generate_next_counters [OF assms(1,2) r])
  note cq = set_confirmed_counters [OF cr, of "bh_confirmed h"]
  show "counters_ok s'" using promote_counters [OF cq(1)] unfolding counters_ok_def e .
  have f: "bs_block_num (fst (maybe_promote_pending ?q)) = bs_block_num r"
    "dpos_proposed_irreversible_blocknum (fst (maybe_promote_pending ?q)) = dpos_proposed_irreversible_blocknum ?q"
    by (auto simp: maybe_promote_pending_def Let_def set_confirmed_def confirm_loop_frame)
  have g: "bs_block_num r = bs_block_num s + 1" "dpos_proposed_irreversible_blocknum r = dpos_proposed_irreversible_blocknum s"
    by (rule generate_next_frame [OF r], simp)+
  show "bs_block_num s' = bs_block_num s + 1" unfolding e(1) f(1) g(1) ..
  show "unat (dpos_proposed_irreversible_blocknum s) \<le> unat (dpos_proposed_irreversible_blocknum s')"
    using cq(2) unfolding e(2) f(2) g(2) .
qed

lemma genesis_counters: "counters_ok (genesis_header_state en a k t c)"
  by (simp add: counters_ok_def genesis_header_state_def Let_def)

lemma header_chain_counters: "header_chain en g s \<Longrightarrow> counters_ok g \<Longrightarrow> counters_ok s"
  by (induction rule: header_chain.induct) (simp_all add: next_counters(1))

lemma header_chain_id:
  assumes "header_chain en (genesis_header_state en a k t c) s"
    and "\<And>n. he_endian_reverse_u32 en (he_endian_reverse_u32 en n) = n"
  shows "num_from_id en (bs_id s) = bs_block_num s"
  using assms(1)
proof induction
  case chain_start
  show ?case
    by (simp add: genesis_header_state_def Let_def num_from_header_id [OF assms(2)] header_block_num_def)
next
  case (chain_next s h skip s')
  obtain r where r: "generate_next en s (bh_timestamp h) = Inr r" and i: "bs_id s' = header_id en (bs_header s')"
    "bh_previous (bs_header s') = bh_previous (bs_header r)"
    by (rule next_stages [OF chain_next.hyps(3)])
  have p: "bh_previous (bs_header r) = bs_id s" by (rule generate_next_frame [OF r])
  have n: "bs_block_num s' = bs_block_num s + 1"
    by (rule next_counters(2) [OF header_chain_counters [OF chain_next.hyps(1) genesis_counters] chain_next.hyps(2,3)])
  show ?case unfolding i(1) num_from_header_id [OF assms(2)] i(2) p chain_next.IH n ..
qed

text \<open>C11. Along every chain of headers accepted from the genesis block on: the new block has the next
  number, its id carries that number, it links to its parent and is later in time; the block proposed
  as irreversible never goes back, it lies between the last irreversible block and the block itself.\<close>

theorem header_chain_numbers:
  assumes "\<And>n. he_endian_reverse_u32 en (he_endian_reverse_u32 en n) = n"
    and "header_chain en (genesis_header_state en a k t c) s" "bs_block_num s \<noteq> - 1"
    and "next_header_state en s h skip = Inr s'"
  shows "bs_block_num s' = bs_block_num s + 1 \<and> num_from_id en (bs_id s') = bs_block_num s' \<and>
    bh_previous (bs_header s') = bs_id s \<and> bh_timestamp (bs_header s) < bh_timestamp (bs_header s') \<and>
    dpos_proposed_irreversible_blocknum s \<le> dpos_proposed_irreversible_blocknum s' \<and>
    dpos_irreversible_blocknum s' \<le> dpos_proposed_irreversible_blocknum s' \<and>
    dpos_proposed_irreversible_blocknum s' \<le> bs_block_num s'"
proof -
  have c: "counters_ok s" by (rule header_chain_counters [OF assms(2) genesis_counters])
  note n = next_counters [OF c assms(3,4)]
  have i: "num_from_id en (bs_id s') = bs_block_num s'"
    by (rule header_chain_id [OF chain_next [OF assms(2,3,4)] assms(1)])
  obtain r where r: "generate_next en s (bh_timestamp h) = Inr r" "bh_timestamp h \<noteq> 0" "bh_timestamp (bs_header s) < bh_timestamp h"
    "bh_previous (bs_header s') = bh_previous (bs_header r)" "bh_timestamp (bs_header s') = bh_timestamp (bs_header r)"
    by (rule next_stages [OF assms(4)])
  have p: "bh_previous (bs_header r) = bs_id s" "bh_timestamp (bs_header r) = bh_timestamp h"
    by (rule generate_next_frame [OF r(1)], use r(2) in simp)+
  have b: "dpos_irreversible_blocknum s' \<le> dpos_proposed_irreversible_blocknum s'"
    "unat (dpos_proposed_irreversible_blocknum s') \<le> unat (bs_block_num s')"
    using n(1) unfolding counters_ok_def by simp_all
  show ?thesis using n(2,3) i r(3-5) p b by (simp add: word_le_nat_alt)
qed

text \<open>C12. The last irreversible block a new block computes is exactly the greatest number that more than
  two thirds of the tracked producers have confirmed as proposed irreversible.\<close>

theorem lib_backed_by_two_thirds:
  assumes "header_chain en (genesis_header_state en a k t c) s" "generate_next en s when = Inr r"
  shows "2 * card (dom (idx_find (producer_to_last_implied_irb r))) < 3 * card (backers (producer_to_last_implied_irb r) b)
    \<longleftrightarrow> b \<le> dpos_irreversible_blocknum r"
proof -
  have i: "idx_ok (producer_to_last_implied_irb s)"
    using header_chain_counters [OF assms(1) genesis_counters] by (simp add: counters_ok_def)
  have "idx_ok (producer_to_last_implied_irb r)" "producer_to_last_implied_irb r \<noteq> []"
    by (rule generate_next_frame [OF assms(2)], use i in \<open>simp add: idx_simps\<close>)+
  from calc_dpos_supermajority [OF this] have
    "2 * card (dom (idx_find (producer_to_last_implied_irb r))) < 3 * card (backers (producer_to_last_implied_irb r) b)
      \<longleftrightarrow> b \<le> calc_dpos_last_irreversible (producer_to_last_implied_irb r)" .
  moreover have "dpos_irreversible_blocknum r = calc_dpos_last_irreversible (producer_to_last_implied_irb r)"
    by (rule generate_next_frame [OF assms(2)])
  ultimately show ?thesis by simp
qed

section \<open>When the last irreversible block goes back\<close>

lemma calc_dpos_put_max:
  assumes "idx_ok irb" "irb \<noteq> []" "\<forall>q n. idx_find irb q = Some n \<longrightarrow> n \<le> v"
  shows "calc_dpos_last_irreversible irb \<le> calc_dpos_last_irreversible (idx_put p v irb)"
proof -
  let ?b = "calc_dpos_last_irreversible irb" and ?irb = "idx_put p v irb"
  have ok: "idx_ok ?irb" "?irb \<noteq> []" using assms(1) by (simp_all add: idx_simps)
  have fin: "finite (dom (idx_find irb))" by (rule index.finite_find [OF assms(1)])
  have dom: "dom (idx_find ?irb) = insert p (dom (idx_find irb))" by (simp add: idx_simps assms(1))
  have bv: "?b \<le> v" using calc_dpos_in [OF assms(1,2)] assms(3) by blast
  have sub: "insert p (backers irb ?b) \<subseteq> backers ?irb ?b"
    using bv assms(3) by (auto simp: backers_def idx_simps assms(1))
  have finb: "finite (backers irb ?b)" "finite (backers ?irb ?b)"
    by (rule finite_subset [OF _ fin], force simp: backers_def)
      (rule finite_subset [of _ "insert p (dom (idx_find irb))"], use fin dom in \<open>force simp: backers_def\<close>, use fin in simp)
  have m: "2 * card (dom (idx_find irb)) < 3 * card (backers irb ?b)"
    using calc_dpos_supermajority [OF assms(1,2), of ?b] by simp
  have le: "card (insert p (backers irb ?b)) \<le> card (backers ?irb ?b)" by (rule card_mono [OF finb(2) sub])
  have "2 * card (dom (idx_find ?irb)) < 3 * card (backers ?irb ?b)"
  proof (cases "p \<in> dom (idx_find irb)")
    case True
    then have "card (dom (idx_find ?irb)) = card (dom (idx_find irb))" by (simp add: dom insert_absorb)
    moreover have "card (backers irb ?b) \<le> card (insert p (backers irb ?b))" by (rule card_insert_le)
    ultimately show ?thesis using m le by linarith
  next
    case False
    then have "p \<notin> backers irb ?b" by (auto simp: backers_def)
    then show ?thesis using False m le fin finb(1) by (simp add: dom)
  qed
  then show ?thesis using calc_dpos_supermajority [OF ok] by blast
qed

text \<open>C13. While no new schedule is pending, the last irreversible block never goes back from one block to
  the next.\<close>

theorem lib_monotone_without_pending:
  assumes "header_chain en (genesis_header_state en a k t c) s" "ps_producers (pending_schedule s) = []"
    and "bs_block_num s \<noteq> - 1" "next_header_state en s h skip = Inr s1"
    and "bs_block_num s1 \<noteq> - 1" "next_header_state en s1 h1 skip1 = Inr s2"
  shows "dpos_irreversible_blocknum s1 \<le> dpos_irreversible_blocknum s2"
proof -
  have lib: "dpos_irreversible_blocknum (fst (maybe_promote_pending (set_confirmed r n))) = dpos_irreversible_blocknum r" for r :: "('a, 'b) block_header_state" and n
    by (auto simp: maybe_promote_pending_def Let_def set_confirmed_def confirm_loop_frame)
  have c1: "counters_ok s1" by (rule next_counters(1) [OF header_chain_counters [OF assms(1) genesis_counters] assms(3,4)])
  obtain r where r: "generate_next en s (bh_timestamp h) = Inr r"
    and s1: "dpos_irreversible_blocknum s1 = dpos_irreversible_blocknum (fst (maybe_promote_pending (set_confirmed r (bh_confirmed h))))"
      "producer_to_last_implied_irb s1 = producer_to_last_implied_irb (fst (maybe_promote_pending (set_confirmed r (bh_confirmed h))))"
    by (rule next_stages [OF assms(4)])
  have pr: "pending_schedule r = pending_schedule s" "dpos_irreversible_blocknum r = calc_dpos_last_irreversible (producer_to_last_implied_irb r)"
    "producer_to_last_implied_irb r \<noteq> []" by (rule generate_next_frame [OF r], simp)+
  have irb1: "producer_to_last_implied_irb s1 = producer_to_last_implied_irb r"
    unfolding s1(2) by (simp add: maybe_promote_pending_def set_confirmed_def Let_def confirm_loop_frame pr(1) assms(2))
  obtain r2 where r2: "generate_next en s1 (bh_timestamp h1) = Inr r2"
    and s2: "dpos_irreversible_blocknum s2 = dpos_irreversible_blocknum (fst (maybe_promote_pending (set_confirmed r2 (bh_confirmed h1))))"
    by (rule next_stages [OF assms(6)])
  obtain p where i2: "producer_to_last_implied_irb r2 = idx_put p (dpos_proposed_irreversible_blocknum s1) (producer_to_last_implied_irb s1)"
    "dpos_irreversible_blocknum r2 = calc_dpos_last_irreversible (producer_to_last_implied_irb r2)"
    by (rule generate_next_frame [OF r2])
  have "calc_dpos_last_irreversible (producer_to_last_implied_irb s1) \<le> calc_dpos_last_irreversible (producer_to_last_implied_irb r2)"
    unfolding i2(1) by (rule calc_dpos_put_max) (use c1 pr(3) irb1 in \<open>simp_all add: counters_ok_def\<close>)
  then show ?thesis unfolding s1(1) s2 lib i2(2) pr(2) irb1 .
qed

section \<open>A chain of headers\<close>

text \<open>Keys and signatures are numbers, every hash is null and the byte order is that of the host.\<close>

definition demo_header_env :: "(nat, nat) header_env" where
  "demo_header_env = \<lparr>he_hash_header = (\<lambda>_. null_digest), he_hash_pair = (\<lambda>_. null_digest),
     he_hash_schedule = (\<lambda>_. null_digest), he_recover = (\<lambda>s d c. Inr s), he_endian_reverse_u32 = (\<lambda>n. n),
     he_null_key = 0, he_null_signature = 0\<rparr>"

definition demo_genesis :: "(nat, nat) block_header_state" where
  "demo_genesis = genesis_header_state demo_header_env 1 7 1 null_digest"

definition demo_schedule :: "u32 \<Rightarrow> account_name list \<Rightarrow> nat producer_schedule_type" where
  "demo_schedule v ps = \<lparr>ps_version = v, ps_producers = map (\<lambda>p. \<lparr>producer_name = p, block_signing_key = 7\<rparr>) ps\<rparr>"

text \<open>The header a producer would send: the template of the slot, with its confirmations and its
  proposed schedule.\<close>

definition demo_header ::
  "(nat, nat) block_header_state \<Rightarrow> block_timestamp \<times> u16 \<times> nat producer_schedule_type option \<Rightarrow>
   (nat, nat) signed_block_header result" where
  "demo_header s e = ebind (generate_next demo_header_env s (fst e)) (\<lambda>r.
     Inr ((bs_header r)\<lparr>bh_confirmed := fst (snd e), bh_new_producers := snd (snd e), bh_producer_signature := 7\<rparr>))"

definition demo_extend ::
  "(nat, nat) block_header_state \<Rightarrow> block_timestamp \<times> u16 \<times> nat producer_schedule_type option \<Rightarrow>
   (nat, nat) block_header_state result" where
  "demo_extend s e = SNAX_ASSERT (bs_block_num s \<noteq> - 1) undefined_behaviour (
     ebind (demo_header s e) (\<lambda>h. next_header_state demo_header_env s h False))"

text \<open>Four producers of whom one never produces, then a schedule of it and one of the others.\<close>

definition demo_blocks :: "(block_timestamp \<times> u16 \<times> nat producer_schedule_type option) list" where
  "demo_blocks = [(2, 0, None), (3, 0, Some (demo_schedule 1 [10, 11, 12, 13])), (4, 0, None),
     (48, 0, None), (60, 1, None), (72, 2, None), (96, 2, Some (demo_schedule 2 [10, 13])), (108, 2, None), (120, 2, None),
     (144, 2, None), (156, 2, None), (168, 2, None), (192, 2, None)]"

lemma demo_run_chain:
  assumes "efold demo_extend demo_genesis es = Inr s"
  shows "header_chain demo_header_env demo_genesis s"
  by (rule efold_invariant [OF assms chain_start]) (auto simp: demo_extend_def intro: chain_next)

definition demo_run :: "nat \<Rightarrow> (nat, nat) block_header_state" where
  "demo_run n = projr (efold demo_extend demo_genesis (take n demo_blocks))"

lemma demo_run_step:
  assumes "n < length demo_blocks" "\<not> isl (efold demo_extend demo_genesis (take (Suc n) demo_blocks))"
  shows "\<exists>h. header_chain demo_header_env demo_genesis (demo_run n) \<and> bs_block_num (demo_run n) \<noteq> - 1 \<and>
    next_header_state demo_header_env (demo_run n) h False = Inr (demo_run (Suc n))"
proof -
  obtain s' where s': "efold demo_extend demo_genesis (take (Suc n) demo_blocks) = Inr s'"
    using assms(2) by (cases "efold demo_extend demo_genesis (take (Suc n) demo_blocks)") auto
  then obtain s where s: "efold demo_extend demo_genesis (take n demo_blocks) = Inr s" and e: "demo_extend s (demo_blocks ! n) = Inr s'"
    unfolding take_Suc_conv_app_nth [OF assms(1)] efold_append by auto
  have r: "demo_run n = s" "demo_run (Suc n) = s'" by (simp_all add: demo_run_def s s')
  show ?thesis unfolding r using demo_run_chain [OF s] e by (auto simp: demo_extend_def)
qed

text \<open>The end of the run, evaluated once: the numbers of its last but one state, the last irreversible
  block of the template of the next slot, and that of the last state.\<close>

definition demo_outcome :: "(u32 \<times> u32 \<times> u32 \<times> u32) result" where
  "demo_outcome =
    ebind (efold demo_extend demo_genesis (take 12 demo_blocks)) (\<lambda>s.
    ebind (generate_next demo_header_env s 192) (\<lambda>r.
    ebind (demo_extend s (demo_blocks ! 12)) (\<lambda>s'.
    Inr (bs_block_num s, dpos_irreversible_blocknum s, dpos_irreversible_blocknum r, dpos_irreversible_blocknum s'))))"

lemma demo_outcome_eq: "demo_outcome = Inr (13, 8, 3, 3)"
  by code_simp

lemma demo_steps:
  "length demo_blocks = 13"
  "\<not> isl (efold demo_extend demo_genesis (take (Suc 4) demo_blocks))"
  "\<not> isl (efold demo_extend demo_genesis (take (Suc 3) demo_blocks))"
  by code_simp+

lemma demo_end:
  "\<not> isl (efold demo_extend demo_genesis (take (Suc 12) demo_blocks))" "bs_block_num (demo_run 12) = 13"
  "dpos_irreversible_blocknum (demo_run 12) = 8" "dpos_irreversible_blocknum (demo_run (Suc 12)) = 3"
  "\<exists>r. generate_next demo_header_env (demo_run 12) 192 = Inr r \<and> dpos_irreversible_blocknum r = 3"
proof -
  obtain s r s' where s: "efold demo_extend demo_genesis (take 12 demo_blocks) = Inr s"
    and r: "generate_next demo_header_env s 192 = Inr r" and s': "demo_extend s (demo_blocks ! 12) = Inr s'"
    and v: "bs_block_num s = 13" "dpos_irreversible_blocknum s = 8" "dpos_irreversible_blocknum r = 3" "dpos_irreversible_blocknum s' = 3"
    using demo_outcome_eq unfolding demo_outcome_def ebind_eq_Inr_iff by auto
  have "take (Suc 12) demo_blocks = take 12 demo_blocks @ [demo_blocks ! 12]"
    by (rule take_Suc_conv_app_nth) (simp add: demo_steps(1))
  then have e: "efold demo_extend demo_genesis (take (Suc 12) demo_blocks) = Inr s'"
    by (simp only: efold_append s ebind_Inr efold.simps s')
  show "\<not> isl (efold demo_extend demo_genesis (take (Suc 12) demo_blocks))" unfolding e by simp
  have d: "demo_run 12 = s" "demo_run (Suc 12) = s'" unfolding demo_run_def s e by simp_all
  show "bs_block_num (demo_run 12) = 13" "dpos_irreversible_blocknum (demo_run 12) = 8"
    "dpos_irreversible_blocknum (demo_run (Suc 12)) = 3"
    "\<exists>r. generate_next demo_header_env (demo_run 12) 192 = Inr r \<and> dpos_irreversible_blocknum r = 3"
    unfolding d using v r by blast+
qed

lemma demo_genesis_eq: "demo_genesis = genesis_header_state demo_header_env 1 7 1 null_digest"
  by (rule demo_genesis_def)

lemma demo_reverse: "he_endian_reverse_u32 demo_header_env (he_endian_reverse_u32 demo_header_env n) = n"
  by (simp add: demo_header_env_def)

text \<open>C14. The last irreversible block can go back.  There is a chain of validly signed headers, accepted
  from the genesis block on, and a next header that is accepted as well, whose last irreversible block
  is lower than that of its parent: a promoted schedule keeps the old, low entry of a producer that has
  not produced for a while, and in a smaller schedule that entry counts for more than a third.\<close>

theorem lib_can_go_back:
  "\<exists>s h s'. header_chain demo_header_env demo_genesis s \<and> next_header_state demo_header_env s h False = Inr s' \<and>
    dpos_irreversible_blocknum s = 8 \<and> dpos_irreversible_blocknum s' = 3"
proof -
  obtain h where "header_chain demo_header_env demo_genesis (demo_run 12)"
    "next_header_state demo_header_env (demo_run 12) h False = Inr (demo_run (Suc 12))"
    using demo_run_step [OF _ demo_end(1)] demo_steps(1) by auto
  with demo_end(3,4) show ?thesis by blast
qed

theorem header_chain_numbers_witness:
  "bs_block_num (demo_run 13) = 14 \<and> num_from_id demo_header_env (bs_id (demo_run 13)) = 14 \<and>
    dpos_proposed_irreversible_blocknum (demo_run 13) \<le> 14"
proof -
  obtain h where h: "header_chain demo_header_env (genesis_header_state demo_header_env 1 7 1 null_digest) (demo_run 12)"
    "bs_block_num (demo_run 12) \<noteq> - 1" "next_header_state demo_header_env (demo_run 12) h False = Inr (demo_run (Suc 12))"
    using demo_run_step [OF _ demo_end(1)] demo_steps(1) unfolding demo_genesis_eq by auto
  from header_chain_numbers [OF demo_reverse h] show ?thesis by (auto simp: demo_end(2))
qed

theorem lib_backed_by_two_thirds_witness:
  "\<exists>r. generate_next demo_header_env (demo_run 12) 192 = Inr r \<and> dpos_irreversible_blocknum r = 3 \<and>
    2 * card (dom (idx_find (producer_to_last_implied_irb r))) < 3 * card (backers (producer_to_last_implied_irb r) 3) \<and>
    \<not> 2 * card (dom (idx_find (producer_to_last_implied_irb r))) < 3 * card (backers (producer_to_last_implied_irb r) 4)"
proof -
  have c: "header_chain demo_header_env (genesis_header_state demo_header_env 1 7 1 null_digest) (demo_run 12)"
    using demo_run_step [OF _ demo_end(1)] demo_steps(1) unfolding demo_genesis_eq by auto
  obtain r where r: "generate_next demo_header_env (demo_run 12) 192 = Inr r" "dpos_irreversible_blocknum r = 3"
    using demo_end(5) by blast
  with lib_backed_by_two_thirds [OF c r(1), of 3] lib_backed_by_two_thirds [OF c r(1), of 4] show ?thesis by simp
qed

theorem lib_monotone_without_pending_witness:
  "dpos_irreversible_blocknum (demo_run 4) \<le> dpos_irreversible_blocknum (demo_run 5)"
proof -
  obtain h h1 where h: "header_chain demo_header_env (genesis_header_state demo_header_env 1 7 1 null_digest) (demo_run 3)"
    "bs_block_num (demo_run 3) \<noteq> - 1" "next_header_state demo_header_env (demo_run 3) h False = Inr (demo_run (Suc 3))"
    "bs_block_num (demo_run 4) \<noteq> - 1" "next_header_state demo_header_env (demo_run 4) h1 False = Inr (demo_run (Suc 4))"
    using demo_run_step [OF _ demo_steps(2)] demo_run_step [OF _ demo_steps(3)] demo_steps(1) unfolding demo_genesis_eq by auto
  have "ps_producers (pending_schedule (demo_run 3)) = []" by code_simp
  from lib_monotone_without_pending [OF h(1) this h(2,3)] h(4,5) show ?thesis by simp
qed

end
