(* ===== verification/Fork_Database.thy ===== *)
theory Fork_Database
  imports Block_Header_State
begin

text \<open>
  The fork database (\<^verbatim>\<open>fork_database.cpp\<close>, \<^verbatim>\<open>block_state.cpp\<close>): the tree of candidate blocks, the
  choice of the head, pruning below the last irreversible block and the branches between two blocks.

  The container is a unique index by id and three ordered indices; an ordered index is the list of its
  elements, each with its key, in the order of iteration.  As the \<^verbatim>\<open>boost\<close> library documents, an
  element is inserted after those with an equivalent key, and a modified element keeps its place if the
  order allows it, else it is inserted again.  The pointer \<^verbatim>\<open>head\<close> shares its object with the
  container; it is kept as that object's value, which an update of the object updates as well.  The signal
  \<^verbatim>\<open>irreversible\<close> is the list of the blocks it was raised for.  Its handlers are not run: they belong to
  the controller.  They are the only part of \<^verbatim>\<open>prune\<close> that can throw, so the \<^verbatim>\<open>catch\<close> around its body, which
  logs the exception of a handler and returns with the block still in the container, has no case to catch here.
\<close>

section \<open>Block states\<close>

record ('k, 's) block_state = "('k, 's) block_header_state" +
  bk_block :: "('k, 's) signed_block_header option"
  bk_validated :: bool
  bk_in_current_chain :: bool

definition new_block_state ::
  "('k, 's) block_header_state \<Rightarrow> ('k, 's) signed_block_header \<Rightarrow> ('k, 's) block_state" where
  "new_block_state s b = block_header_state.extend s
     \<lparr>bk_block = Some b, bk_validated = False, bk_in_current_chain = False\<rparr>"

definition block_state_of_block ::
  "('k, 's) header_env \<Rightarrow> ('k, 's) block_state \<Rightarrow> ('k, 's) signed_block_header \<Rightarrow> bool \<Rightarrow> ('k, 's) block_state result" where
  "block_state_of_block en prev b skip_validate_signee =
    ebind (next_header_state en (block_header_state.truncate prev) b skip_validate_signee) (\<lambda>s.
    Inr (new_block_state s b))"

definition block_state_at_time ::
  "('k, 's) header_env \<Rightarrow> ('k, 's) block_state \<Rightarrow> block_timestamp \<Rightarrow> ('k, 's) block_state result" where
  "block_state_at_time en prev when =
    ebind (generate_next en (block_header_state.truncate prev) when) (\<lambda>s.
    Inr (new_block_state s ((bs_header s)\<lparr>bh_producer_signature := he_null_signature en\<rparr>)))"

section \<open>Ordered indices\<close>

type_synonym 'q ordered = "('q \<times> digest_type) list"

fun ord_insert :: "('q \<Rightarrow> 'q \<Rightarrow> bool) \<Rightarrow> 'q \<Rightarrow> digest_type \<Rightarrow> 'q ordered \<Rightarrow> 'q ordered" where
  "ord_insert lt k i [] = [(k, i)]"
| "ord_insert lt k i (e # es) = (if lt k (fst e) then (k, i) # e # es else e # ord_insert lt k i es)"

definition ord_erase :: "digest_type \<Rightarrow> 'q ordered \<Rightarrow> 'q ordered" where
  "ord_erase i es = filter (\<lambda>e. snd e \<noteq> i) es"

definition ord_in_place :: "('q \<Rightarrow> 'q \<Rightarrow> bool) \<Rightarrow> 'q \<Rightarrow> digest_type \<Rightarrow> 'q ordered \<Rightarrow> bool" where
  "ord_in_place lt k i es =
    (let before = takeWhile (\<lambda>e. snd e \<noteq> i) es; after = tl (dropWhile (\<lambda>e. snd e \<noteq> i) es) in
     (before = [] \<or> \<not> lt k (fst (last before))) \<and> (after = [] \<or> \<not> lt (fst (hd after)) k))"

definition ord_modify :: "('q \<Rightarrow> 'q \<Rightarrow> bool) \<Rightarrow> 'q \<Rightarrow> digest_type \<Rightarrow> 'q ordered \<Rightarrow> 'q ordered" where
  "ord_modify lt k i es =
    (if ord_in_place lt k i es then map (\<lambda>e. if snd e = i then (k, i) else e) es
     else ord_insert lt k i (ord_erase i es))"

text \<open>The element after a given one, \<^term>\<open>None\<close> for the end.\<close>

definition ord_next :: "digest_type \<Rightarrow> 'q ordered \<Rightarrow> digest_type option" where
  "ord_next i es = (case tl (dropWhile (\<lambda>e. snd e \<noteq> i) es) of [] \<Rightarrow> None | e # _ \<Rightarrow> Some (snd e))"

section \<open>The container\<close>

type_synonym num_key = "u32 \<times> bool"

type_synonym lib_key = "u32 \<times> u32 \<times> u32"

definition prev_of :: "('k, 's) block_state \<Rightarrow> digest_type" where
  "prev_of b = bh_previous (bs_header b)"

definition num_of :: "('k, 's) block_state \<Rightarrow> num_key" where
  "num_of b = (bs_block_num b, bk_in_current_chain b)"

definition lib_of :: "('k, 's) block_state \<Rightarrow> lib_key" where
  "lib_of b = (dpos_irreversible_blocknum b, bft_irreversible_blocknum b, bs_block_num b)"

fun num_before :: "num_key \<Rightarrow> num_key \<Rightarrow> bool" where
  "num_before (n, c) (n', c') \<longleftrightarrow> n < n' \<or> n = n' \<and> c \<and> \<not> c'"

fun lib_before :: "lib_key \<Rightarrow> lib_key \<Rightarrow> bool" where
  "lib_before (d, b, n) (d', b', n') \<longleftrightarrow> d > d' \<or> d = d' \<and> (b > b' \<or> b = b' \<and> n > n')"

record ('k, 's) fork_db =
  fk_index :: "(digest_type, ('k, 's) block_state) index"
  fk_by_prev :: "digest_type ordered"
  fk_by_num :: "num_key ordered"
  fk_by_lib :: "lib_key ordered"
  fk_head :: "('k, 's) block_state option"
  fk_irreversible :: "('k, 's) block_state list"

definition empty_fork_db :: "('k, 's) fork_db" where
  "empty_fork_db = \<lparr>fk_index = [], fk_by_prev = [], fk_by_num = [], fk_by_lib = [], fk_head = None, fk_irreversible = []\<rparr>"

definition get_block :: "('k, 's) fork_db \<Rightarrow> digest_type \<Rightarrow> ('k, 's) block_state option" where
  "get_block db i = idx_find (fk_index db) i"

text \<open>Insertion says whether the id was new.\<close>

definition fk_insert :: "('k, 's) block_state \<Rightarrow> ('k, 's) fork_db \<Rightarrow> ('k, 's) fork_db \<times> bool" where
  "fk_insert b db =
    (if get_block db (bs_id b) \<noteq> None then (db, False)
     else (db\<lparr>fk_index := idx_put (bs_id b) b (fk_index db),
              fk_by_prev := ord_insert (<) (prev_of b) (bs_id b) (fk_by_prev db),
              fk_by_num := ord_insert num_before (num_of b) (bs_id b) (fk_by_num db),
              fk_by_lib := ord_insert lib_before (lib_of b) (bs_id b) (fk_by_lib db)\<rparr>, True))"

definition fk_erase :: "digest_type \<Rightarrow> ('k, 's) fork_db \<Rightarrow> ('k, 's) fork_db" where
  "fk_erase i db = db\<lparr>fk_index := idx_remove i (fk_index db), fk_by_prev := ord_erase i (fk_by_prev db),
     fk_by_num := ord_erase i (fk_by_num db), fk_by_lib := ord_erase i (fk_by_lib db)\<rparr>"

definition fk_modify :: "digest_type \<Rightarrow> (('k, 's) block_state \<Rightarrow> ('k, 's) block_state) \<Rightarrow> ('k, 's) fork_db \<Rightarrow> ('k, 's) fork_db" where
  "fk_modify i f db =
    (case get_block db i of
       None \<Rightarrow> db
     | Some b \<Rightarrow> let b = f b in
         db\<lparr>fk_index := idx_put i b (fk_index db), fk_by_prev := ord_modify (<) (prev_of b) i (fk_by_prev db),
            fk_by_num := ord_modify num_before (num_of b) i (fk_by_num db),
            fk_by_lib := ord_modify lib_before (lib_of b) i (fk_by_lib db),
            fk_head := map_option (\<lambda>h. if bs_id h = i then f h else h) (fk_head db)\<rparr>)"

text \<open>Reading the first element of an ordered index; on an empty index this is not defined.\<close>

definition first_of :: "'q ordered \<Rightarrow> ('k, 's) fork_db \<Rightarrow> ('k, 's) block_state result" where
  "first_of es db = (case es of [] \<Rightarrow> Inl undefined_behaviour
     | e # _ \<Rightarrow> (case get_block db (snd e) of None \<Rightarrow> Inl undefined_behaviour | Some b \<Rightarrow> Inr b))"

text \<open>The blocks of the container whose previous block is the given one.\<close>

definition fk_children :: "('k, 's) fork_db \<Rightarrow> digest_type \<Rightarrow> digest_type list" where
  "fk_children db i = filter (\<lambda>c. get_block db c \<noteq> None) (map snd (filter (\<lambda>e. fst e = i) (fk_by_prev db)))"

section \<open>Operations\<close>

definition fork_set :: "('k, 's) header_env \<Rightarrow> ('k, 's) fork_db \<Rightarrow> ('k, 's) block_state \<Rightarrow> ('k, 's) fork_db result" where
  "fork_set en db s =
    (let (db, inserted) = fk_insert s db in
     SNAX_ASSERT (bs_id s = header_id en (bs_header s)) fork_database_exception (
     SNAX_ASSERT inserted fork_database_exception (
     case fk_head db of
       None \<Rightarrow> Inr (db\<lparr>fk_head := Some s\<rparr>)
     | Some h \<Rightarrow> if bs_block_num h < bs_block_num s then Inr (db\<lparr>fk_head := Some s\<rparr>) else Inr db)))"

text \<open>The queue of \<^verbatim>\<open>remove\<close>, from the position of the loop on.  The position is a 32-bit counter, which does not wrap
  while fewer than \<open>2 ^ 32\<close> blocks are queued.\<close>

function remove_queue :: "('k, 's) fork_db \<Rightarrow> digest_type list \<Rightarrow> ('k, 's) fork_db" where
  "remove_queue db [] = db"
| "remove_queue db (i # queue) = (let db = fk_erase i db in remove_queue db (queue @ fk_children db i))"
  by pat_completeness auto

lemma get_block_erase: "get_block (fk_erase i db) j = (if j = i then None else get_block db j)"
  by (simp add: get_block_def fk_erase_def idx_find_remove)

lemma length_erase: "get_block db i \<noteq> None \<Longrightarrow> length (fk_index (fk_erase i db)) < length (fk_index db)"
  unfolding get_block_def fk_erase_def idx_remove_def idx_find_def
  by (auto simp: map_of_eq_None_iff intro!: length_filter_less)

lemma erase_absent: "get_block db i = None \<Longrightarrow> fk_index (fk_erase i db) = fk_index db"
  unfolding get_block_def fk_erase_def idx_remove_def idx_find_def
  by (auto simp: map_of_eq_None_iff intro!: filter_True)

termination remove_queue
proof (relation "measures [\<lambda>(db, q). length (fk_index db), \<lambda>(db, q). length (filter (\<lambda>i. get_block db i = None) q)]")
  fix db :: "('k, 's) fork_db" and i queue x
  assume x: "x = fk_erase i db"
  show "((x, queue @ fk_children x i), db, i # queue)
    \<in> measures [\<lambda>(db, q). length (fk_index db), \<lambda>(db, q). length (filter (\<lambda>i. get_block db i = None) q)]"
  proof (cases "get_block db i")
    case None
    then have same: "fk_index x = fk_index db" unfolding x by (rule erase_absent)
    then have g: "get_block x = get_block db" by (simp add: get_block_def fun_eq_iff)
    have "filter (\<lambda>i. get_block db i = None) (fk_children x i) = []" by (auto simp: fk_children_def g filter_empty_conv)
    with None same g show ?thesis by simp
  next
    case (Some b)
    then show ?thesis using length_erase [of db i] unfolding x by simp
  qed
qed simp

definition fork_remove :: "('k, 's) fork_db \<Rightarrow> digest_type \<Rightarrow> ('k, 's) fork_db result" where
  "fork_remove db i =
    (let db = remove_queue db [i] in ebind (first_of (fk_by_lib db) db) (\<lambda>h. Inr (db\<lparr>fk_head := Some h\<rparr>)))"

text \<open>\<^verbatim>\<open>prune\<close> of the block with the least number, for which its loop over older blocks does
  nothing: the block is reported irreversible and erased, then the others of its number are removed with
  all that builds on them.  The iterator of that loop is advanced before the removal; when the removal
  erases the element it stands on, reading it is not defined.\<close>

function prune_num :: "('k, 's) fork_db \<Rightarrow> digest_type option \<Rightarrow> u32 \<Rightarrow> ('k, 's) fork_db result" where
  "prune_num db None num = Inr db"
| "prune_num db (Some i) num =
    (case get_block db i of
       None \<Rightarrow> Inl undefined_behaviour
     | Some b \<Rightarrow>
         if bs_block_num b \<noteq> num then Inr db
         else case fork_remove db i of
             Inl e \<Rightarrow> Inl e
           | Inr db' \<Rightarrow> prune_num db' (ord_next i (fk_by_num db)) num)"
  by pat_completeness auto

lemma remove_queue_length: "length (fk_index (remove_queue db q)) \<le> length (fk_index db)"
proof (induction db q rule: remove_queue.induct)
  case (2 db i queue)
  have "length (fk_index (fk_erase i db)) \<le> length (fk_index db)"
    by (simp add: fk_erase_def idx_remove_def)
  with 2 show ?case by (simp add: Let_def)
qed simp

lemma fork_remove_length:
  assumes "fork_remove db i = Inr db'" "get_block db i \<noteq> None"
  shows "length (fk_index db') < length (fk_index db)"
proof -
  have "length (fk_index db') = length (fk_index (remove_queue db [i]))"
    using assms(1) by (auto simp: fork_remove_def Let_def)
  also have "\<dots> \<le> length (fk_index (fk_erase i db))"
    using remove_queue_length [of "fk_erase i db"] by (simp add: Let_def)
  also have "\<dots> < length (fk_index db)" by (rule length_erase [OF assms(2)])
  finally show ?thesis .
qed

termination prune_num
  by (relation "measure (\<lambda>(db, i, num). length (fk_index db))") (auto intro: fork_remove_length)

definition num_lower_bound :: "('k, 's) fork_db \<Rightarrow> u32 \<Rightarrow> digest_type option" where
  "num_lower_bound db num =
    (case dropWhile (\<lambda>e. fst (fst e) < num) (fk_by_num db) of [] \<Rightarrow> None | e # _ \<Rightarrow> Some (snd e))"

definition prune_one :: "('k, 's) fork_db \<Rightarrow> ('k, 's) block_state \<Rightarrow> ('k, 's) fork_db result" where
  "prune_one db h =
    (let db = (case get_block db (bs_id h) of
         None \<Rightarrow> db
       | Some b \<Rightarrow> fk_erase (bs_id h) (db\<lparr>fk_irreversible := fk_irreversible db @ [b]\<rparr>)) in
     prune_num db (num_lower_bound db (bs_block_num h)) (bs_block_num h))"

lemma prune_num_length: "prune_num db i num = Inr db' \<Longrightarrow> length (fk_index db') \<le> length (fk_index db)"
proof (induction db i num rule: prune_num.induct)
  case (2 db i num)
  show ?case
  proof (cases "get_block db i")
    case None
    with 2 show ?thesis by simp
  next
    case (Some b)
    show ?thesis
    proof (cases "bs_block_num b \<noteq> num")
      case True
      with 2 Some show ?thesis by simp
    next
      case False
      then obtain d where d: "fork_remove db i = Inr d" using 2 Some by (cases "fork_remove db i") auto
      have "length (fk_index d) < length (fk_index db)" using fork_remove_length [OF d] Some by simp
      with 2(1) [OF Some False d] 2(2) Some False d show ?thesis by simp
    qed
  qed
qed simp

lemma prune_one_length:
  assumes "prune_one db h = Inr db'" "get_block db (bs_id h) \<noteq> None"
  shows "length (fk_index db') < length (fk_index db)"
proof -
  obtain b where b: "get_block db (bs_id h) = Some b" using assms(2) by auto
  let ?db = "db\<lparr>fk_irreversible := fk_irreversible db @ [b]\<rparr>"
  have "get_block ?db (bs_id h) \<noteq> None" using b by (simp add: get_block_def)
  from length_erase [OF this] have "length (fk_index (fk_erase (bs_id h) ?db)) < length (fk_index db)" by simp
  moreover have "length (fk_index db') \<le> length (fk_index (fk_erase (bs_id h) ?db))"
    by (rule prune_num_length) (use assms(1) b in \<open>simp add: prune_one_def Let_def\<close>)
  ultimately show ?thesis by simp
qed

text \<open>\<^verbatim>\<open>prune\<close>: as long as the first block has a lower number, it is pruned first.  An
  element stored under another id than its own is outside what the container can hold.\<close>

function prune_older :: "('k, 's) fork_db \<Rightarrow> u32 \<Rightarrow> ('k, 's) fork_db result" where
  "prune_older db num =
    (case fk_by_num db of
       [] \<Rightarrow> Inr db
     | e # _ \<Rightarrow>
         (case get_block db (snd e) of
            None \<Rightarrow> Inl undefined_behaviour
          | Some b \<Rightarrow>
              if bs_id b \<noteq> snd e then Inl undefined_behaviour
              else if bs_block_num b < num
              then case prune_one db b of Inl x \<Rightarrow> Inl x | Inr db' \<Rightarrow> prune_older db' num
              else Inr db))"
  by pat_completeness auto

termination prune_older
  by (relation "measure (\<lambda>(db, num). length (fk_index db))") (auto intro: prune_one_length)

declare prune_older.simps [simp del]

definition fork_prune :: "('k, 's) fork_db \<Rightarrow> ('k, 's) block_state \<Rightarrow> ('k, 's) fork_db result" where
  "fork_prune db h = ebind (prune_older db (bs_block_num h)) (\<lambda>db. prune_one db h)"

definition fork_add :: "('k, 's) fork_db \<Rightarrow> ('k, 's) block_state \<Rightarrow> bool \<Rightarrow> ('k, 's) fork_db result" where
  "fork_add db n skip_validate_previous =
    SNAX_ASSERT (fk_head db \<noteq> None) fork_db_block_not_found (
    ebind (if skip_validate_previous then Inr ()
           else case bk_block n of
               None \<Rightarrow> Inl undefined_behaviour
             | Some b \<Rightarrow> SNAX_ASSERT (get_block db (bh_previous b) \<noteq> None) unlinkable_block_exception (Inr ())) (\<lambda>_.
    let (db, inserted) = fk_insert n db in
    SNAX_ASSERT inserted fork_database_exception (
    ebind (first_of (fk_by_lib db) db) (\<lambda>head.
    let db = db\<lparr>fk_head := Some head\<rparr> in
    ebind (first_of (fk_by_num db) db) (\<lambda>oldest.
    if bs_block_num oldest < dpos_irreversible_blocknum head then fork_prune db oldest else Inr db)))))"

definition fork_add_block ::
  "('k, 's) header_env \<Rightarrow> ('k, 's) fork_db \<Rightarrow> ('k, 's) signed_block_header \<Rightarrow> bool \<Rightarrow>
   (('k, 's) fork_db \<times> ('k, 's) block_state) result" where
  "fork_add_block en db b skip_validate_signee =
    SNAX_ASSERT (fk_head db \<noteq> None) fork_db_block_not_found (
    SNAX_ASSERT (get_block db (header_id en b) = None) fork_database_exception (
    case get_block db (bh_previous b) of
      None \<Rightarrow> Inl unlinkable_block_exception
    | Some prior \<Rightarrow>
        ebind (block_state_of_block en prior b skip_validate_signee) (\<lambda>r.
        ebind (fork_add db r True) (\<lambda>db. Inr (db, r)))))"

text \<open>
  The loops of \<^verbatim>\<open>fetch_branch_from\<close>; \<^term>\<open>None\<close> is a loop that does not end.  A null block is
  read by the loop conditions, and by the message of the assertion that should report it.
\<close>

type_synonym ('k, 's) branch = "('k, 's) block_state list"

partial_function (option) walk_down ::
  "('k, 's) fork_db \<Rightarrow> ('k, 's) block_state \<Rightarrow> u32 \<Rightarrow> ('k, 's) branch \<Rightarrow>
   (('k, 's) branch \<times> ('k, 's) block_state) result option" where
  "walk_down db b num branch =
    (if bs_block_num b > num then
       case get_block db (prev_of b) of
         None \<Rightarrow> Some (Inl undefined_behaviour)
       | Some p \<Rightarrow> walk_down db p num (branch @ [b])
     else Some (Inr (branch, b)))"

partial_function (option) walk_both ::
  "('k, 's) fork_db \<Rightarrow> ('k, 's) block_state \<Rightarrow> ('k, 's) block_state \<Rightarrow> ('k, 's) branch \<Rightarrow> ('k, 's) branch \<Rightarrow>
   (('k, 's) branch \<times> ('k, 's) branch) result option" where
  "walk_both db b c first second =
    (if prev_of b \<noteq> prev_of c then
       case (get_block db (prev_of b), get_block db (prev_of c)) of
         (Some b', Some c') \<Rightarrow> walk_both db b' c' (first @ [b]) (second @ [c])
       | _ \<Rightarrow> Some (Inl undefined_behaviour)
     else Some (Inr (first @ [b], second @ [c])))"

definition fetch_branch_from ::
  "('k, 's) fork_db \<Rightarrow> digest_type \<Rightarrow> digest_type \<Rightarrow> (('k, 's) branch \<times> ('k, 's) branch) result option" where
  "fetch_branch_from db first second =
    (case (get_block db first, get_block db second) of
       (Some b, Some c) \<Rightarrow>
         Option.bind (walk_down db b (bs_block_num c) []) (\<lambda>r. case r of
           Inl e \<Rightarrow> Some (Inl e)
         | Inr (first_branch, b) \<Rightarrow>
             Option.bind (walk_down db c (bs_block_num b) []) (\<lambda>r. case r of
               Inl e \<Rightarrow> Some (Inl e)
             | Inr (second_branch, c) \<Rightarrow> walk_both db b c first_branch second_branch))
     | _ \<Rightarrow> Some (Inl undefined_behaviour))"

definition set_validity :: "('k, 's) fork_db \<Rightarrow> ('k, 's) block_state \<Rightarrow> bool \<Rightarrow> ('k, 's) fork_db result" where
  "set_validity db h valid =
    (if \<not> valid then fork_remove db (bs_id h)
     else Inr (fk_modify (bs_id h) (\<lambda>b. b\<lparr>bk_validated := True\<rparr>) db))"

definition mark_in_current_chain :: "('k, 's) fork_db \<Rightarrow> ('k, 's) block_state \<Rightarrow> bool \<Rightarrow> ('k, 's) fork_db result" where
  "mark_in_current_chain db h in_current_chain =
    (if bk_in_current_chain h = in_current_chain then Inr db
     else SNAX_ASSERT (get_block db (bs_id h) \<noteq> None) fork_db_block_not_found (
       Inr (fk_modify (bs_id h) (\<lambda>b. b\<lparr>bk_in_current_chain := in_current_chain\<rparr>) db)))"

definition get_block_in_current_chain_by_num :: "('k, 's) fork_db \<Rightarrow> u32 \<Rightarrow> ('k, 's) block_state option" where
  "get_block_in_current_chain_by_num db n =
    (case num_lower_bound db n of
       None \<Rightarrow> None
     | Some i \<Rightarrow>
         (case get_block db i of
            None \<Rightarrow> None
          | Some b \<Rightarrow> if bs_block_num b \<noteq> n \<or> bk_in_current_chain b \<noteq> True then None else Some b))"

text \<open>One layer of \<^verbatim>\<open>set_bft_irreversible\<close>: the children of the given blocks whose number is raised.\<close>

definition raise_bft :: "u32 \<Rightarrow> ('k, 's) fork_db \<times> digest_type list \<Rightarrow> digest_type \<Rightarrow> ('k, 's) fork_db \<times> digest_type list" where
  "raise_bft block_num st c =
    (case get_block (fst st) c of
       None \<Rightarrow> st
     | Some b \<Rightarrow>
         if bft_irreversible_blocknum b < block_num
         then (fk_modify c (\<lambda>b. b\<lparr>bft_irreversible_blocknum := block_num\<rparr>) (fst st), snd st @ [c]) else st)"

definition bft_layer :: "u32 \<Rightarrow> ('k, 's) fork_db \<Rightarrow> digest_type list \<Rightarrow> ('k, 's) fork_db \<times> digest_type list" where
  "bft_layer block_num db ids = foldl (\<lambda>st i. foldl (raise_bft block_num) st (fk_children (fst st) i)) (db, []) ids"

partial_function (option) bft_loop :: "u32 \<Rightarrow> ('k, 's) fork_db \<Rightarrow> digest_type list \<Rightarrow> ('k, 's) fork_db option" where
  "bft_loop block_num db queue =
    (if queue = [] then Some db
     else let st = bft_layer block_num db queue in bft_loop block_num (fst st) (snd st))"

definition set_bft_irreversible :: "('k, 's) fork_db \<Rightarrow> digest_type \<Rightarrow> ('k, 's) fork_db result option" where
  "set_bft_irreversible db i =
    (case get_block db i of
       None \<Rightarrow> Some (Inl undefined_behaviour)
     | Some b \<Rightarrow>
         map_option Inr (bft_loop (bs_block_num b)
           (fk_modify i (\<lambda>b. b\<lparr>bft_irreversible_blocknum := bs_block_num b\<rparr>) db) [i]))"

definition confirm_block ::
  "('k, 's) header_env \<Rightarrow> ('k, 's) block_state \<Rightarrow> 's header_confirmation \<Rightarrow> ('k, 's) block_state result" where
  "confirm_block en b c =
    ebind (add_confirmation en (block_header_state.truncate b) c) (\<lambda>s. Inr (b\<lparr>confirmations := confirmations s\<rparr>))"

definition fork_confirm ::
  "('k, 's) header_env \<Rightarrow> ('k, 's) fork_db \<Rightarrow> 's header_confirmation \<Rightarrow> ('k, 's) fork_db result option" where
  "fork_confirm en db c =
    (case get_block db (hc_block_id c) of
       None \<Rightarrow> Some (Inl fork_db_block_not_found)
     | Some b \<Rightarrow>
         (case confirm_block en b c of
            Inl e \<Rightarrow> Some (Inl e)
          | Inr b' \<Rightarrow>
              let db = fk_modify (hc_block_id c) (\<lambda>_. b') db in
              if bft_irreversible_blocknum b' < bs_block_num b'
                 \<and> length (confirmations b') \<ge> length (ps_producers (active_schedule b')) * 2 div 3 + 1
              then set_bft_irreversible db (hc_block_id c) else Some (Inr db)))"

section \<open>Order of the indices\<close>

text \<open>A strict order whose incomparability is transitive, and the lists it leaves in order.\<close>

locale weak_order =
  fixes lt :: "'q \<Rightarrow> 'q \<Rightarrow> bool"
  assumes asym: "lt x y \<Longrightarrow> \<not> lt y x"
    and cotrans: "lt x z \<Longrightarrow> lt x y \<or> lt y z"
begin

definition in_order :: "'q ordered \<Rightarrow> bool" where
  "in_order es \<longleftrightarrow> sorted_wrt (\<lambda>e f. \<not> lt (fst f) (fst e)) es"

lemma trans_not: "\<not> lt y x \<Longrightarrow> \<not> lt z y \<Longrightarrow> \<not> lt z x"
  using cotrans by blast

lemma irrefl: "\<not> lt x x"
  using asym by blast

lemma set_ord_insert: "set (ord_insert lt k i es) = insert (k, i) (set es)"
  by (induction es) auto

lemma map_snd_ord_insert: "distinct (map snd (ord_insert lt k i es)) \<longleftrightarrow> distinct (map snd es) \<and> i \<notin> snd ` set es"
  by (induction es) (auto simp: set_ord_insert)

lemma in_order_insert: "in_order es \<Longrightarrow> in_order (ord_insert lt k i es)"
proof (induction es)
  case (Cons e es)
  show ?case
  proof (cases "lt k (fst e)")
    case True
    then have "\<not> lt (fst e) k" by (rule asym)
    moreover have "\<not> lt (fst f) k" if "f \<in> set es" for f
      using Cons.prems that trans_not [OF calculation] by (auto simp: in_order_def)
    ultimately show ?thesis using Cons.prems True by (auto simp: in_order_def)
  next
    case False
    with Cons show ?thesis by (auto simp: in_order_def set_ord_insert)
  qed
qed (simp add: in_order_def)

lemma in_order_erase: "in_order es \<Longrightarrow> in_order (ord_erase i es)"
  unfolding in_order_def ord_erase_def by (rule sorted_wrt_filter)

lemma in_order_first: "in_order (e # es) \<Longrightarrow> f \<in> set (e # es) \<Longrightarrow> \<not> lt (fst f) (fst e)"
  using irrefl by (auto simp: in_order_def)

lemma in_place_split:
  assumes "distinct (map snd es)" "(k0, i) \<in> set es"
  obtains as bs where "es = as @ (k0, i) # bs" "takeWhile (\<lambda>e. snd e \<noteq> i) es = as"
    "tl (dropWhile (\<lambda>e. snd e \<noteq> i) es) = bs" "i \<notin> snd ` set as" "i \<notin> snd ` set bs"
proof -
  obtain as bs where es: "es = as @ (k0, i) # bs" using split_list [OF assms(2)] by blast
  with assms(1) have n: "i \<notin> snd ` set as" "i \<notin> snd ` set bs" by auto
  then have "takeWhile (\<lambda>e. snd e \<noteq> i) es = as" "dropWhile (\<lambda>e. snd e \<noteq> i) es = (k0, i) # bs"
    unfolding es by (auto simp: takeWhile_append dropWhile_append)
  then show thesis by (intro that [of as bs]) (use es n in auto)
qed

lemma in_order_modify:
  assumes "in_order es" "distinct (map snd es)" "(k0, i) \<in> set es"
  shows "in_order (ord_modify lt k i es)"
proof (cases "ord_in_place lt k i es")
  case False
  then show ?thesis unfolding ord_modify_def using assms(1) by (simp add: in_order_insert in_order_erase)
next
  case True
  obtain as bs where es: "es = as @ (k0, i) # bs" and w: "takeWhile (\<lambda>e. snd e \<noteq> i) es = as"
    "tl (dropWhile (\<lambda>e. snd e \<noteq> i) es) = bs" and n: "i \<notin> snd ` set as" "i \<notin> snd ` set bs"
    by (rule in_place_split [OF assms(2,3)])
  have p: "as = [] \<or> \<not> lt k (fst (last as))" "bs = [] \<or> \<not> lt (fst (hd bs)) k"
    using True unfolding ord_in_place_def w by (simp_all add: Let_def)
  have m: "map (\<lambda>e. if snd e = i then (k, i) else e) es = as @ (k, i) # bs"
    unfolding es using n by (auto simp: image_iff intro!: map_idI)
  have o: "sorted_wrt (\<lambda>e f. \<not> lt (fst f) (fst e)) as" "sorted_wrt (\<lambda>e f. \<not> lt (fst f) (fst e)) bs"
    "\<forall>e\<in>set as. \<forall>f\<in>set bs. \<not> lt (fst f) (fst e)"
    using assms(1) unfolding in_order_def es by (auto simp: sorted_wrt_append)
  have a: "\<not> lt k (fst e)" if e: "e \<in> set as" for e
  proof (cases "e = last as")
    case True
    with p(1) e show ?thesis by auto
  next
    case False
    have "as = butlast as @ [last as]" using e by (cases as) auto
    with o(1) have "sorted_wrt (\<lambda>e f. \<not> lt (fst f) (fst e)) (butlast as @ [last as])" by simp
    moreover have "e \<in> set (butlast as)" using False e \<open>as = butlast as @ [last as]\<close> by (metis in_set_butlastD set_append Un_iff empty_iff insert_iff list.set)
    ultimately have "\<not> lt (fst (last as)) (fst e)" by (auto simp: sorted_wrt_append)
    with p(1) e trans_not show ?thesis by auto
  qed
  have b: "\<not> lt (fst f) k" if f: "f \<in> set bs" for f
  proof (cases bs)
    case (Cons g gs)
    with p(2) o(2) f trans_not show ?thesis by auto
  qed (use f in simp)
  show ?thesis unfolding ord_modify_def using True o a b by (simp add: m in_order_def sorted_wrt_append)
qed

lemma set_ord_modify:
  assumes "distinct (map snd es)" "(k0, i) \<in> set es"
  shows "set (ord_modify lt k i es) = insert (k, i) {e \<in> set es. snd e \<noteq> i}"
    "distinct (map snd (ord_modify lt k i es))"
proof -
  have c: "map snd (map (\<lambda>e. if snd e = i then (k, i) else e) es) = map snd es" by (auto)
  show "set (ord_modify lt k i es) = insert (k, i) {e \<in> set es. snd e \<noteq> i}"
    using assms(2) by (auto simp: ord_modify_def set_ord_insert ord_erase_def split: if_splits)
  show "distinct (map snd (ord_modify lt k i es))"
    unfolding ord_modify_def using assms(1)
    by (cases "ord_in_place lt k i es")
      (auto simp add: c map_snd_ord_insert ord_erase_def distinct_map_filter simp del: map_map)
qed

end

lemma linorder_cotrans: "x < z \<Longrightarrow> x < y \<or> y < z" for x :: "'a::linorder"
  by (cases "x < y") (simp_all add: not_less order_le_less_trans)

interpretation prev_order: weak_order "(<) :: digest_type \<Rightarrow> digest_type \<Rightarrow> bool"
  by unfold_locales auto

lemma num_before_lex: "num_before x y \<longleftrightarrow> (fst x, \<not> snd x) < (fst y, \<not> snd y)"
  by (cases x; cases y) auto

interpretation num_order: weak_order num_before
proof
  show "num_before x y \<Longrightarrow> \<not> num_before y x" for x y unfolding num_before_lex by (rule less_not_sym)
  show "num_before x z \<Longrightarrow> num_before x y \<or> num_before y z" for x y z
    unfolding num_before_lex by (rule linorder_cotrans)
qed

lemma lib_before_lex: "lib_before x y \<longleftrightarrow> y < x"
  by (cases x; cases y) auto

interpretation lib_order: weak_order lib_before
proof
  show "lib_before x y \<Longrightarrow> \<not> lib_before y x" for x y unfolding lib_before_lex by (rule less_not_sym)
  show "lib_before x z \<Longrightarrow> lib_before x y \<or> lib_before y z" for x y z
    unfolding lib_before_lex using linorder_cotrans [of z x y] by blast
qed

context weak_order
begin

text \<open>The index holds exactly the objects of the container, with their keys.\<close>

definition mirrors :: "('b \<Rightarrow> 'q) \<Rightarrow> 'q ordered \<Rightarrow> (digest_type \<rightharpoonup> 'b) \<Rightarrow> bool" where
  "mirrors f es m \<longleftrightarrow> in_order es \<and> distinct (map snd es) \<and>
    (\<forall>k i. (k, i) \<in> set es \<longleftrightarrow> (\<exists>b. m i = Some b \<and> k = f b))"

lemma mirrors_insert:
  assumes "mirrors f es m" "m i = None"
  shows "mirrors f (ord_insert lt (f b) i es) (m(i \<mapsto> b))"
proof -
  have e: "in_order es" "distinct (map snd es)" "\<forall>k i. (k, i) \<in> set es \<longleftrightarrow> (\<exists>b. m i = Some b \<and> k = f b)"
    using assms(1) by (simp_all add: mirrors_def)
  have "i \<notin> snd ` set es" using e(3) assms(2) by force
  then show ?thesis
    using e assms(2) by (auto simp: mirrors_def in_order_insert map_snd_ord_insert set_ord_insert)
qed

lemma mirrors_erase:
  assumes "mirrors f es m"
  shows "mirrors f (ord_erase i es) (m(i := None))"
  using assms by (auto simp: mirrors_def in_order_erase) (auto simp: ord_erase_def distinct_map_filter)

lemma mirrors_modify:
  assumes "mirrors f es m" "m i = Some b0"
  shows "mirrors f (ord_modify lt (f b) i es) (m(i \<mapsto> b))"
proof -
  have e: "in_order es" "distinct (map snd es)" "\<forall>k i. (k, i) \<in> set es \<longleftrightarrow> (\<exists>b. m i = Some b \<and> k = f b)"
    using assms(1) by (simp_all add: mirrors_def)
  have i: "(f b0, i) \<in> set es" using e(3) assms(2) by auto
  have "(k, j) \<in> set (ord_modify lt (f b) i es) \<longleftrightarrow> (\<exists>c. (m(i \<mapsto> b)) j = Some c \<and> k = f c)" for k j
    unfolding set_ord_modify(1) [OF e(2) i] using e(3) by auto
  then show ?thesis
    using in_order_modify [OF e(1,2) i] set_ord_modify(2) [OF e(2) i] by (simp add: mirrors_def)
qed

lemma mirrors_first:
  assumes "mirrors f (e # es) m"
  obtains b where "m (snd e) = Some b" "fst e = f b" "\<And>i c. m i = Some c \<Longrightarrow> \<not> lt (f c) (f b)"
proof -
  have s: "(k, i) \<in> set (e # es) \<longleftrightarrow> (\<exists>b. m i = Some b \<and> k = f b)" for k i
    using assms unfolding mirrors_def by blast
  have o: "in_order (e # es)" using assms by (simp add: mirrors_def)
  have "(fst e, snd e) \<in> set (e # es)" by simp
  then obtain b where b: "m (snd e) = Some b" "fst e = f b" unfolding s by blast
  have "\<not> lt (f c) (f b)" if "m i = Some c" for i c
  proof -
    have "(f c, i) \<in> set (e # es)" unfolding s using that by blast
    from in_order_first [OF o this] b(2) show ?thesis by simp
  qed
  with b that show thesis by blast
qed

end

section \<open>Well-formed fork databases\<close>

definition container_ok :: "('k, 's) fork_db \<Rightarrow> bool" where
  "container_ok db \<longleftrightarrow> idx_ok (fk_index db) \<and> (\<forall>i b. get_block db i = Some b \<longrightarrow> bs_id b = i) \<and>
    prev_order.mirrors prev_of (fk_by_prev db) (get_block db) \<and>
    num_order.mirrors num_of (fk_by_num db) (get_block db) \<and>
    lib_order.mirrors lib_of (fk_by_lib db) (get_block db)"

lemma container_okD:
  assumes "container_ok db"
  shows "idx_ok (fk_index db)" "get_block db i = Some b \<Longrightarrow> bs_id b = i"
    "prev_order.mirrors prev_of (fk_by_prev db) (get_block db)"
    "num_order.mirrors num_of (fk_by_num db) (get_block db)"
    "lib_order.mirrors lib_of (fk_by_lib db) (get_block db)"
  using assms by (auto simp: container_ok_def)

lemma get_block_frame [simp]:
  "get_block (db\<lparr>fk_head := h\<rparr>) = get_block db" "get_block (db\<lparr>fk_irreversible := is\<rparr>) = get_block db"
  by (simp_all add: get_block_def fun_eq_iff)

lemma container_ok_frame [simp]:
  "container_ok (db\<lparr>fk_head := h\<rparr>) = container_ok db" "container_ok (db\<lparr>fk_irreversible := is\<rparr>) = container_ok db"
  by (simp_all add: container_ok_def)

lemma container_ok_empty [simp]: "container_ok empty_fork_db"
  by (simp add: container_ok_def empty_fork_db_def get_block_def idx_ok_def prev_order.mirrors_def num_order.mirrors_def
    lib_order.mirrors_def prev_order.in_order_def num_order.in_order_def lib_order.in_order_def)

lemma fk_insert_ok:
  assumes "container_ok db" "fk_insert b db = (db', True)"
  shows "container_ok db'" "get_block db' = (get_block db)(bs_id b \<mapsto> b)" "fk_head db' = fk_head db" "get_block db (bs_id b) = None"
proof -
  note c = container_okD [OF assms(1)]
  show n: "get_block db (bs_id b) = None" using assms(2) by (auto simp: fk_insert_def split: if_splits)
  have e: "db' = db\<lparr>fk_index := idx_put (bs_id b) b (fk_index db),
              fk_by_prev := ord_insert (<) (prev_of b) (bs_id b) (fk_by_prev db),
              fk_by_num := ord_insert num_before (num_of b) (bs_id b) (fk_by_num db),
              fk_by_lib := ord_insert lib_before (lib_of b) (bs_id b) (fk_by_lib db)\<rparr>"
    using assms(2) n by (simp add: fk_insert_def)
  show g: "get_block db' = (get_block db)(bs_id b \<mapsto> b)"
    unfolding e get_block_def by (rule ext) (simp add: idx_find_put c(1))
  show "fk_head db' = fk_head db" unfolding e by simp
  have "idx_ok (fk_index db')" unfolding e by (simp add: idx_ok_put c(1))
  then show "container_ok db'"
    using c(2) prev_order.mirrors_insert [OF c(3) n] num_order.mirrors_insert [OF c(4) n] lib_order.mirrors_insert [OF c(5) n]
    unfolding container_ok_def g by (simp add: e)
qed

lemma fk_erase_ok:
  assumes "container_ok db"
  shows "container_ok (fk_erase i db)" "get_block (fk_erase i db) = (get_block db)(i := None)" "fk_head (fk_erase i db) = fk_head db"
proof -
  note c = container_okD [OF assms(1)]
  show g: "get_block (fk_erase i db) = (get_block db)(i := None)" by (rule ext) (simp add: get_block_erase)
  show "fk_head (fk_erase i db) = fk_head db" by (simp add: fk_erase_def)
  have "idx_ok (fk_index (fk_erase i db))" by (simp add: fk_erase_def idx_ok_remove c(1))
  then show "container_ok (fk_erase i db)"
    using c(2) prev_order.mirrors_erase [OF c(3)] num_order.mirrors_erase [OF c(4)] lib_order.mirrors_erase [OF c(5)]
    unfolding container_ok_def g by (simp add: fk_erase_def)
qed

lemma fk_modify_ok:
  assumes "container_ok db" "get_block db i = Some b" "bs_id (f b) = i"
  shows "container_ok (fk_modify i f db)" "get_block (fk_modify i f db) = (get_block db)(i \<mapsto> f b)"
proof -
  note c = container_okD [OF assms(1)]
  show g: "get_block (fk_modify i f db) = (get_block db)(i \<mapsto> f b)"
    by (rule ext) (simp add: fk_modify_def assms(2) get_block_def [of "_\<lparr>fk_index := _\<rparr>"] Let_def, simp add: get_block_def idx_find_put c(1))
  have "idx_ok (fk_index (fk_modify i f db))" by (simp add: fk_modify_def assms(2) Let_def idx_ok_put c(1))
  then show "container_ok (fk_modify i f db)"
    using c(2) assms(3) prev_order.mirrors_modify [OF c(3) assms(2)] num_order.mirrors_modify [OF c(4) assms(2)]
      lib_order.mirrors_modify [OF c(5) assms(2)]
    unfolding container_ok_def g by (simp add: fk_modify_def assms(2) Let_def)
qed

lemma first_by_lib:
  assumes "container_ok db" "first_of (fk_by_lib db) db = Inr h"
  shows "get_block db (bs_id h) = Some h" "\<And>i b. get_block db i = Some b \<Longrightarrow> \<not> lib_before (lib_of b) (lib_of h)"
proof -
  note c = container_okD [OF assms(1)]
  obtain e es where e: "fk_by_lib db = e # es" "get_block db (snd e) = Some h"
    using assms(2) by (auto simp: first_of_def split: list.splits option.splits)
  with c(2) show "get_block db (bs_id h) = Some h" by simp
  show "\<not> lib_before (lib_of b) (lib_of h)" if b: "get_block db i = Some b" for i b
    using lib_order.mirrors_first [OF c(5) [unfolded e(1)]] b e(2) by (metis option.inject)
qed

lemma first_by_num:
  assumes "container_ok db" "first_of (fk_by_num db) db = Inr h"
  shows "get_block db (bs_id h) = Some h" "\<And>i b. get_block db i = Some b \<Longrightarrow> bs_block_num h \<le> bs_block_num b"
proof -
  note c = container_okD [OF assms(1)]
  obtain e es where e: "fk_by_num db = e # es" "get_block db (snd e) = Some h"
    using assms(2) by (auto simp: first_of_def split: list.splits option.splits)
  with c(2) show "get_block db (bs_id h) = Some h" by simp
  show "bs_block_num h \<le> bs_block_num b" if b: "get_block db i = Some b" for i b
  proof -
    have "\<not> num_before (num_of b) (num_of h)"
      using num_order.mirrors_first [OF c(4) [unfolded e(1)]] b e(2) by (metis option.inject)
    then show ?thesis by (auto simp: num_of_def not_less)
  qed
qed

section \<open>Removal of a branch\<close>

definition child :: "('k, 's) fork_db \<Rightarrow> digest_type \<Rightarrow> digest_type \<Rightarrow> bool" where
  "child db i j \<longleftrightarrow> (\<exists>b. get_block db j = Some b \<and> prev_of b = i)"

lemma set_fk_children:
  assumes "container_ok db"
  shows "set (fk_children db i) = {j. child db i j}"
  using container_okD(3) [OF assms]
  by (force simp: fk_children_def child_def prev_order.mirrors_def image_iff)

lemma child_erase: "child (fk_erase i db) k j \<longleftrightarrow> j \<noteq> i \<and> child db k j"
  by (auto simp: child_def get_block_erase)

lemma path_avoiding:
  assumes "(child db)\<^sup>*\<^sup>* k j"
  shows "(child (fk_erase i db))\<^sup>*\<^sup>* k j \<or> j = i \<or> (\<exists>c. child (fk_erase i db) i c \<and> (child (fk_erase i db))\<^sup>*\<^sup>* c j)"
  using assms
proof induction
  case (step y j)
  then show ?case
    by (cases "j = i") (auto simp: child_erase intro: rtranclp.rtrancl_into_rtrancl)
qed simp

lemma path_erase: "(child (fk_erase i db))\<^sup>*\<^sup>* k j \<Longrightarrow> (child db)\<^sup>*\<^sup>* k j"
  by (erule rtranclp_mono [THEN predicate2D, rotated]) (auto simp: child_erase)

lemma remove_queue_spec:
  "container_ok db \<Longrightarrow> container_ok (remove_queue db q) \<and> fk_irreversible (remove_queue db q) = fk_irreversible db \<and>
    (\<forall>j. get_block (remove_queue db q) j = (if \<exists>k\<in>set q. (child db)\<^sup>*\<^sup>* k j then None else get_block db j))"
proof (induction db q rule: remove_queue.induct)
  case (2 db i queue)
  let ?db = "fk_erase i db"
  have ok: "container_ok ?db" by (rule fk_erase_ok(1) [OF 2(2)])
  note IH = 2(1) [OF refl ok]
  have reach: "(\<exists>k\<in>set (i # queue). (child db)\<^sup>*\<^sup>* k j) \<longleftrightarrow>
      j = i \<or> (\<exists>k\<in>set (queue @ fk_children ?db i). (child ?db)\<^sup>*\<^sup>* k j)" for j
  proof
    assume "\<exists>k\<in>set (i # queue). (child db)\<^sup>*\<^sup>* k j"
    then obtain k where k: "k = i \<or> k \<in> set queue" "(child db)\<^sup>*\<^sup>* k j" by auto
    from path_avoiding [OF k(2), of i] k(1) show "j = i \<or> (\<exists>k\<in>set (queue @ fk_children ?db i). (child ?db)\<^sup>*\<^sup>* k j)"
      by (auto simp: set_fk_children [OF ok] elim: converse_rtranclpE)
  next
    assume "j = i \<or> (\<exists>k\<in>set (queue @ fk_children ?db i). (child ?db)\<^sup>*\<^sup>* k j)"
    then show "\<exists>k\<in>set (i # queue). (child db)\<^sup>*\<^sup>* k j"
      by (auto simp: set_fk_children [OF ok] child_erase dest: path_erase intro: converse_rtranclp_into_rtranclp)
  qed
  have "fk_irreversible ?db = fk_irreversible db" by (simp add: fk_erase_def)
  with IH show ?case unfolding remove_queue.simps Let_def reach by (simp add: get_block_erase)
qed simp

section \<open>The head\<close>

text \<open>The head is a block of the database that no block goes before, in the order of the fork choice.\<close>

definition head_best :: "('k, 's) fork_db \<Rightarrow> bool" where
  "head_best db \<longleftrightarrow> (\<exists>h. fk_head db = Some h \<and> get_block db (bs_id h) = Some h \<and>
    (\<forall>i b. get_block db i = Some b \<longrightarrow> \<not> lib_before (lib_of b) (lib_of h)))"

definition kept_from :: "('k, 's) fork_db \<Rightarrow> ('k, 's) fork_db \<Rightarrow> bool" where
  "kept_from db db' \<longleftrightarrow> (\<forall>j b. get_block db' j = Some b \<longrightarrow> get_block db j = Some b)"

lemma first_of_Inr_iff:
  assumes "container_ok db"
  shows "(\<exists>h. first_of (fk_by_lib db) db = Inr h) \<longleftrightarrow> (\<exists>j. get_block db j \<noteq> None)"
proof (cases "fk_by_lib db")
  case Nil
  have "(lib_of b, j) \<in> set (fk_by_lib db)" if "get_block db j = Some b" for j b
    using container_okD(5) [OF assms] that unfolding lib_order.mirrors_def by blast
  then have "get_block db j = None" for j unfolding Nil by (cases "get_block db j") auto
  with Nil show ?thesis by (simp add: first_of_def)
next
  case (Cons e es)
  obtain b where "get_block db (snd e) = Some b"
    by (rule lib_order.mirrors_first [OF container_okD(5) [OF assms, unfolded Cons]])
  then show ?thesis by (auto simp: first_of_def Cons)
qed

lemma fork_remove_spec:
  assumes "container_ok db" "fork_remove db i = Inr db'"
  shows "container_ok db'" "head_best db'"
    "get_block db' j = (if (child db)\<^sup>*\<^sup>* i j then None else get_block db j)"
proof -
  let ?d = "remove_queue db [i]"
  have r: "container_ok ?d" "\<forall>j. get_block ?d j = (if (child db)\<^sup>*\<^sup>* i j then None else get_block db j)"
    using remove_queue_spec [OF assms(1), of "[i]"] by simp_all
  obtain h where h: "first_of (fk_by_lib ?d) ?d = Inr h" and e: "db' = ?d\<lparr>fk_head := Some h\<rparr>"
    using assms(2) by (auto simp: fork_remove_def Let_def)
  show "container_ok db'" using r(1) unfolding e by simp
  show "get_block db' j = (if (child db)\<^sup>*\<^sup>* i j then None else get_block db j)" using r(2) unfolding e by simp
  show "head_best db'" unfolding head_best_def e using first_by_lib [OF r(1) h] by auto
qed

text \<open>C16. Removing a block from the fork database removes exactly the block and all blocks that build on
  it, directly or not, and then the head is a best one among those left; it has a result exactly when
  some block is left.\<close>

theorem fork_remove_exact:
  assumes "container_ok db"
  shows "(\<forall>db'. fork_remove db i = Inr db' \<longrightarrow>
      (\<forall>j. get_block db' j = (if (child db)\<^sup>*\<^sup>* i j then None else get_block db j)) \<and> container_ok db' \<and> head_best db') \<and>
    ((\<exists>db'. fork_remove db i = Inr db') \<longleftrightarrow> (\<exists>j. get_block db j \<noteq> None \<and> \<not> (child db)\<^sup>*\<^sup>* i j))"
proof -
  let ?d = "remove_queue db [i]"
  have r: "container_ok ?d" "\<forall>j. get_block ?d j = (if (child db)\<^sup>*\<^sup>* i j then None else get_block db j)"
    using remove_queue_spec [OF assms(1), of "[i]"] by simp_all
  have "(\<exists>db'. fork_remove db i = Inr db') \<longleftrightarrow> (\<exists>h. first_of (fk_by_lib ?d) ?d = Inr h)"
    by (auto simp: fork_remove_def Let_def)
  also have "\<dots> \<longleftrightarrow> (\<exists>j. get_block db j \<noteq> None \<and> \<not> (child db)\<^sup>*\<^sup>* i j)"
    unfolding first_of_Inr_iff [OF r(1)] using r(2) by auto
  finally show ?thesis using fork_remove_spec [OF assms] by blast
qed

lemma fork_remove_kept:
  assumes "container_ok db" "fork_remove db i = Inr db'"
  shows "kept_from db db'"
  using fork_remove_spec(3) [OF assms] by (auto simp: kept_from_def split: if_splits)

lemma kept_from_trans: "kept_from a b \<Longrightarrow> kept_from b c \<Longrightarrow> kept_from a c"
  by (simp add: kept_from_def)

lemma prune_num_spec:
  "prune_num db i num = Inr db' \<Longrightarrow> container_ok db \<Longrightarrow> head_best db \<Longrightarrow>
    container_ok db' \<and> head_best db' \<and> kept_from db db'"
proof (induction db i num rule: prune_num.induct)
  case (2 db i num)
  show ?case
  proof (cases "get_block db i")
    case None
    with 2 show ?thesis by simp
  next
    case (Some b)
    show ?thesis
    proof (cases "bs_block_num b \<noteq> num")
      case True
      with 2 Some show ?thesis by (simp add: kept_from_def)
    next
      case False
      then obtain d where d: "fork_remove db i = Inr d" using 2 Some by (cases "fork_remove db i") auto
      note s = fork_remove_spec(1,2) [OF 2(3) d]
      have "prune_num d (ord_next i (fk_by_num db)) num = Inr db'" using 2(2) Some False d by simp
      from 2(1) [OF Some False d this s] kept_from_trans [OF fork_remove_kept [OF 2(3) d]] show ?thesis by blast
    qed
  qed
qed (simp add: kept_from_def)

lemma prune_one_spec:
  assumes "container_ok db" "head_best db" "fk_head db = Some h" "bs_id b \<noteq> bs_id h" "prune_one db b = Inr db'"
  shows "container_ok db' \<and> head_best db' \<and> kept_from db db'"
proof -
  define d where "d = (case get_block db (bs_id b) of None \<Rightarrow> db
    | Some x \<Rightarrow> fk_erase (bs_id b) (db\<lparr>fk_irreversible := fk_irreversible db @ [x]\<rparr>))"
  have p: "prune_num d (num_lower_bound d (bs_block_num b)) (bs_block_num b) = Inr db'"
    using assms(5) by (simp add: prune_one_def Let_def d_def)
  have g: "get_block d = (get_block db)(bs_id b := None)"
    by (cases "get_block db (bs_id b)") (auto simp: d_def fun_eq_iff get_block_erase)
  have ok: "container_ok d" unfolding d_def using assms(1) by (auto intro: fk_erase_ok(1) split: option.splits)
  have hd: "fk_head d = Some h" unfolding d_def using assms(3) by (simp add: fk_erase_def split: option.splits)
  have "head_best d" using assms(2-4) unfolding head_best_def hd g by auto
  note q = prune_num_spec [OF p ok this]
  have "kept_from db d" by (auto simp: kept_from_def g split: if_splits)
  with q kept_from_trans show ?thesis by blast
qed

lemma prune_older_none:
  assumes "container_ok db" "\<And>i b. get_block db i = Some b \<Longrightarrow> num \<le> bs_block_num b"
  shows "prune_older db num = Inr db"
proof (cases "fk_by_num db")
  case Nil
  then show ?thesis by (simp add: prune_older.simps)
next
  case (Cons e es)
  obtain b where b: "get_block db (snd e) = Some b"
    by (rule num_order.mirrors_first [OF container_okD(4) [OF assms(1), unfolded Cons]])
  have "\<not> bs_block_num b < num" using assms(2) [OF b] by (simp add: not_less)
  with b container_okD(2) [OF assms(1) b] show ?thesis by (simp add: prune_older.simps [of db] Cons)
qed

text \<open>C15. Fork choice: after a block is added, the head is a block of the database with the greatest
  irreversible block, confirmed block and number, in this order, also after the pruning that the addition
  may start; pruning never removes the head, and nothing but the new block is added.\<close>

theorem fork_add_head:
  assumes "container_ok db" "\<forall>i b. get_block db i = Some b \<longrightarrow> dpos_irreversible_blocknum b \<le> bs_block_num b"
    and "dpos_irreversible_blocknum n \<le> bs_block_num n" "fork_add db n skip = Inr db'"
  shows "container_ok db' \<and> head_best db' \<and>
    (\<forall>i b. get_block db' i = Some b \<longrightarrow> b = n \<or> get_block db i = Some b)"
proof -
  obtain d where d: "fk_insert n db = (d, True)" using assms(4) by (auto simp: fork_add_def split: prod.splits)
  note i = fk_insert_ok [OF assms(1) d]
  obtain h old where h: "first_of (fk_by_lib d) d = Inr h"
    and o1: "first_of (fk_by_num d) (d\<lparr>fk_head := Some h\<rparr>) = Inr old"
    and e: "(if bs_block_num old < dpos_irreversible_blocknum h then fork_prune (d\<lparr>fk_head := Some h\<rparr>) old
       else Inr (d\<lparr>fk_head := Some h\<rparr>)) = Inr db'"
    using assms(4) unfolding fork_add_def d by (auto simp: Let_def)
  let ?d = "d\<lparr>fk_head := Some h\<rparr>"
  have ok: "container_ok ?d" using i(1) by simp
  note hl = first_by_lib [OF i(1) h]
  have best: "head_best ?d" using hl by (auto simp: head_best_def)
  have oo: "first_of (fk_by_num ?d) ?d = Inr old" using o1 by simp
  note on = first_by_num [OF ok oo]
  have "container_ok db' \<and> head_best db' \<and> kept_from ?d db'"
  proof (cases "bs_block_num old < dpos_irreversible_blocknum h")
    case False
    with e ok best show ?thesis by (auto simp: kept_from_def)
  next
    case True
    have "dpos_irreversible_blocknum h \<le> bs_block_num h"
      using hl(1) assms(2,3) unfolding i(2) by (auto split: if_splits)
    with True have lt: "bs_block_num old < bs_block_num h" by (rule order_less_le_trans)
    have ne: "bs_id old \<noteq> bs_id h"
    proof
      assume same: "bs_id old = bs_id h"
      have "get_block d (bs_id h) = Some old" using on(1) unfolding same by simp
      then have "Some old = Some h" unfolding hl(1) by (rule sym)
      with lt show False by (metis less_irrefl option.inject)
    qed
    have older: "prune_older ?d (bs_block_num old) = Inr ?d"
      by (rule prune_older_none [OF ok]) (rule on(2))
    have "fork_prune ?d old = Inr db'" using e True by (simp only: if_True)
    then have "prune_one ?d old = Inr db'" unfolding fork_prune_def older by (simp only: ebind_Inr)
    from prune_one_spec [OF ok best _ ne this] show ?thesis by simp
  qed
  note k = this
  have "b = n \<or> get_block db j = Some b" if "get_block db' j = Some b" for j b
  proof -
    from k that have "get_block d j = Some b" by (simp add: kept_from_def)
    then show ?thesis unfolding i(2) by (cases "j = bs_id n") simp_all
  qed
  with k show ?thesis by blast
qed

section \<open>Branches\<close>

text \<open>The blocks that previous links pass from \<open>b\<close> on before they come to \<open>e\<close>.\<close>

fun linked :: "('k, 's) fork_db \<Rightarrow> ('k, 's) block_state \<Rightarrow> ('k, 's) branch \<Rightarrow> ('k, 's) block_state \<Rightarrow> bool" where
  "linked db b [] e \<longleftrightarrow> b = e"
| "linked db b (x # xs) e \<longleftrightarrow> x = b \<and> (case get_block db (prev_of b) of None \<Rightarrow> False | Some p \<Rightarrow> linked db p xs e)"

text \<open>A block has the number that follows its predecessor's.\<close>

definition numbered :: "('k, 's) fork_db \<Rightarrow> bool" where
  "numbered db \<longleftrightarrow> (\<forall>i b p. get_block db i = Some b \<longrightarrow> get_block db (prev_of b) = Some p \<longrightarrow>
     unat (bs_block_num b) = Suc (unat (bs_block_num p)))"

lemma linked_append: "linked db b xs e \<Longrightarrow> linked db e ys f \<Longrightarrow> linked db b (xs @ ys) f"
  by (induction xs arbitrary: b) (auto split: option.splits)

lemma linked_known: "linked db b xs e \<Longrightarrow> get_block db i = Some b \<Longrightarrow> \<exists>j. get_block db j = Some e"
  by (induction xs arbitrary: b i) (auto split: option.splits)

lemma linked_of_descendant:
  assumes "(child db)\<^sup>*\<^sup>* a i" "get_block db a = Some x" "get_block db i = Some b"
  shows "\<exists>xs. linked db b xs x"
  using assms(1,3)
proof (induction arbitrary: b)
  case base
  then have "linked db b [] x" using assms(2) by simp
  then show ?case ..
next
  case (step y z)
  from step(2,4) have y: "prev_of b = y" by (simp add: child_def)
  have "get_block db y \<noteq> None"
    using step(1) assms(2) by (cases rule: rtranclp.cases) (auto simp: child_def)
  then obtain p where p: "get_block db y = Some p" by auto
  from step(3) [OF p] obtain xs where "linked db p xs x" ..
  then have "linked db b (b # xs) x" using p y by simp
  then show ?case ..
qed

lemma linked_numbers:
  assumes "numbered db" "linked db b xs e" "get_block db i = Some b"
  shows "unat (bs_block_num b) = unat (bs_block_num e) + length xs"
    "\<forall>x\<in>set xs. bs_block_num e < bs_block_num x \<and> bs_block_num x \<le> bs_block_num b"
proof -
  have "unat (bs_block_num b) = unat (bs_block_num e) + length xs \<and>
    (\<forall>x\<in>set xs. bs_block_num e < bs_block_num x \<and> bs_block_num x \<le> bs_block_num b)"
    using assms(2,3)
  proof (induction xs arbitrary: b i)
    case (Cons x xs)
    then obtain p where p: "get_block db (prev_of b) = Some p" "linked db p xs e" "x = b" by (auto split: option.splits)
    have "unat (bs_block_num b) = Suc (unat (bs_block_num p))"
      using assms(1) Cons(3) p(1) unfolding numbered_def by blast
    with Cons(1) [OF p(2,1)] p(3) show ?case by (auto simp: word_less_nat_alt word_le_nat_alt)
  qed simp
  then show "unat (bs_block_num b) = unat (bs_block_num e) + length xs"
    "\<forall>x\<in>set xs. bs_block_num e < bs_block_num x \<and> bs_block_num x \<le> bs_block_num b" by blast+
qed

lemma apart_by_number:
  assumes "\<forall>x\<in>A. n < f x" "\<forall>y\<in>B. f y \<le> (n :: 'n::linorder)"
  shows "A \<inter> B = {}"
  using assms by (auto dest: leD)

lemma walk_down_stop: "bs_block_num b \<le> num \<Longrightarrow> walk_down db b num br = Some (Inr (br, b))"
  by (subst walk_down.simps) (simp add: not_less [symmetric] del: not_less)

lemma walk_down_spec:
  assumes "numbered db" "linked db b xs a" "get_block db i = Some b" "bs_block_num a \<le> num"
  shows "\<exists>us u ys. walk_down db b num br = Some (Inr (br @ us, u)) \<and> linked db b us u \<and> linked db u ys a \<and>
    (\<forall>x\<in>set us. num < bs_block_num x) \<and> bs_block_num u = min num (bs_block_num b)"
  using assms(2,3)
proof (induction xs arbitrary: b i br)
  case Nil
  then have "walk_down db b num br = Some (Inr (br @ [], b))" using assms(4) by (simp add: walk_down_stop)
  with Nil assms(4) show ?case by (intro exI [of _ "[]"] exI [of _ b]) (auto simp: min_def)
next
  case (Cons x xs)
  show ?case
  proof (cases "num < bs_block_num b")
    case False
    then have "walk_down db b num br = Some (Inr (br @ [], b))" by (simp add: walk_down_stop not_less)
    with False Cons(2) show ?thesis
      by (intro exI [of _ "[]"] exI [of _ b] exI [of _ "x # xs"]) (auto simp: min_def not_less)
  next
    case True
    from Cons obtain p where p: "get_block db (prev_of b) = Some p" "linked db p xs a" by (auto split: option.splits)
    from Cons(1) [OF p(2,1), of "br @ [b]"] obtain us u ys where
      w: "walk_down db p num ((br @ [b]) @ []) = Some (Inr ((br @ [b]) @ us, u))" "linked db p us u" "linked db u ys a"
        "\<forall>x\<in>set us. num < bs_block_num x" "bs_block_num u = min num (bs_block_num p)" by auto
    have "unat (bs_block_num b) = Suc (unat (bs_block_num p))"
      using assms(1) Cons(3) p(1) unfolding numbered_def by blast
    then have "min num (bs_block_num p) = min num (bs_block_num b)"
      using True by (simp add: min_def word_less_nat_alt word_le_nat_alt)
    moreover have "walk_down db b num br = Some (Inr (br @ b # us, u))"
      using w(1) True p(1) by (simp add: walk_down.simps [of db b])
    ultimately show ?thesis using w p(1) True
      by (intro exI [of _ "b # us"] exI [of _ u] exI [of _ ys]) auto
  qed
qed

lemma walk_both_spec:
  assumes "container_ok db" "numbered db" "prev_of x = prev_of y" "bs_block_num x = bs_block_num y"
    and "linked db b xs x" "get_block db i = Some b"
    and "linked db c ys y" "get_block db j = Some c" "bs_block_num b = bs_block_num c"
  shows "\<exists>us u vs v. walk_both db b c f s = Some (Inr (f @ us @ [u], s @ vs @ [v])) \<and> linked db b us u \<and> linked db c vs v \<and>
    prev_of u = prev_of v \<and> bs_block_num u = bs_block_num v \<and> (u = v \<longrightarrow> us = [] \<and> vs = []) \<and>
    set us \<inter> set (vs @ [v]) = {} \<and> set vs \<inter> set (us @ [u]) = {}"
  using assms(5-9)
proof (induction xs arbitrary: b i c ys j f s)
  case Nil
  have "length ys = 0" using linked_numbers(1) [OF assms(2) Nil(3,4)] assms(4) Nil(1,5) by simp
  with Nil have "b = x" "c = y" by simp_all
  with assms(3,4) show ?case
    by (intro exI [of _ "[]"] exI [of _ b] exI [of _ c]) (simp add: walk_both.simps)
next
  case (Cons z xs)
  show ?case
  proof (cases "prev_of b = prev_of c")
    case True
    with Cons(6) show ?thesis
      by (intro exI [of _ "[]"] exI [of _ b] exI [of _ c]) (simp add: walk_both.simps)
  next
    case False
    have "length ys = length (z # xs)"
      using linked_numbers(1) [OF assms(2) Cons(4,5)] linked_numbers(1) [OF assms(2) Cons(2,3)] assms(4) Cons(6) by simp
    then obtain z' ys' where ys: "ys = z' # ys'" by (cases ys) auto
    from Cons(2) obtain p where p: "get_block db (prev_of b) = Some p" "linked db p xs x" by (auto split: option.splits)
    from Cons(4) ys obtain q where q: "get_block db (prev_of c) = Some q" "linked db q ys' y" by (auto split: option.splits)
    have n: "unat (bs_block_num b) = Suc (unat (bs_block_num p))" "unat (bs_block_num c) = Suc (unat (bs_block_num q))"
      using assms(2) Cons(3,5) p(1) q(1) unfolding numbered_def by blast+
    have pq: "bs_block_num p = bs_block_num q" using n Cons(6) by (simp add: word_unat_eq_iff)
    from Cons(1) [OF p(2,1) q(2,1) pq, of "f @ [b]" "s @ [c]"] obtain us u vs v where
      w: "walk_both db p q (f @ [b]) (s @ [c]) = Some (Inr ((f @ [b]) @ us @ [u], (s @ [c]) @ vs @ [v]))"
        "linked db p us u" "linked db q vs v" "prev_of u = prev_of v" "bs_block_num u = bs_block_num v"
        "u = v \<longrightarrow> us = [] \<and> vs = []" "set us \<inter> set (vs @ [v]) = {}" "set vs \<inter> set (us @ [u]) = {}" by blast
    have "bs_block_num z < bs_block_num b" if "z \<in> set (us @ [u]) \<union> set (vs @ [v])" for z
      using that linked_numbers [OF assms(2) w(2) p(1)] linked_numbers [OF assms(2) w(3) q(1)] n pq
      by (auto simp: word_less_nat_alt word_le_nat_alt)
    then have "b \<notin> set (us @ [u]) \<union> set (vs @ [v])" "c \<notin> set (us @ [u]) \<union> set (vs @ [v])"
      using Cons(6) by (metis less_irrefl)+
    moreover have "b \<noteq> c" using False by auto
    moreover have "u \<noteq> v"
      using w(2,3,6) container_okD(2) [OF assms(1) p(1)] container_okD(2) [OF assms(1) q(1)] False by auto
    moreover have "walk_both db b c f s = Some (Inr (f @ (b # us) @ [u], s @ (c # vs) @ [v]))"
      using w(1) False p(1) q(1) by (simp add: walk_both.simps [of db b c])
    ultimately show ?thesis using w(2-5,7-) p(1) q(1)
      by (intro exI [of _ "b # us"] exI [of _ u] exI [of _ "c # vs"] exI [of _ v]) auto
  qed
qed

lemma fetch_branch_between:
  assumes ok: "container_ok db" and nb: "numbered db" and b: "get_block db i = Some b" and c: "get_block db j = Some c"
    and xs: "linked db b xs x" and ys: "linked db c ys y" and xy: "prev_of x = prev_of y" "bs_block_num x = bs_block_num y"
  shows "\<exists>us u vs v. fetch_branch_from db i j = Some (Inr (us @ [u], vs @ [v])) \<and>
    linked db b us u \<and> linked db c vs v \<and> prev_of u = prev_of v \<and> bs_block_num u = bs_block_num v \<and>
    (u = v \<longrightarrow> us = [] \<or> vs = []) \<and> set us \<inter> set (vs @ [v]) = {} \<and> set vs \<inter> set (us @ [u]) = {}"
proof -
  have le: "bs_block_num x \<le> bs_block_num b" "bs_block_num x \<le> bs_block_num c"
    using linked_numbers(1) [OF nb xs b] linked_numbers(1) [OF nb ys c] xy(2)
    by (simp_all add: word_le_nat_alt)
  from walk_down_spec [OF nb xs b le(2), of "[]"] obtain us u xs' where
    d1: "walk_down db b (bs_block_num c) [] = Some (Inr (us, u))" "linked db b us u" "linked db u xs' x"
      "\<forall>z\<in>set us. bs_block_num c < bs_block_num z" "bs_block_num u = min (bs_block_num c) (bs_block_num b)" by auto
  have leu: "bs_block_num y \<le> bs_block_num u" using le d1(5) xy(2) by simp
  from walk_down_spec [OF nb ys c leu, of "[]"] obtain vs v ys' where
    d2: "walk_down db c (bs_block_num u) [] = Some (Inr (vs, v))" "linked db c vs v" "linked db v ys' y"
      "\<forall>z\<in>set vs. bs_block_num u < bs_block_num z" "bs_block_num v = min (bs_block_num u) (bs_block_num c)" by auto
  have same: "bs_block_num u = bs_block_num v" using d1(5) d2(5) by simp
  obtain k l where k: "get_block db k = Some u" "get_block db l = Some v"
    using linked_known [OF d1(2) b] linked_known [OF d2(2) c] by blast
  from walk_both_spec [OF ok nb xy d1(3) k(1) d2(3) k(2) same, of us vs] obtain us' u' vs' v' where
    w: "walk_both db u v us vs = Some (Inr (us @ us' @ [u'], vs @ vs' @ [v']))" "linked db u us' u'" "linked db v vs' v'"
      "prev_of u' = prev_of v'" "bs_block_num u' = bs_block_num v'"
      "u' = v' \<longrightarrow> us' = [] \<and> vs' = []"
      "set us' \<inter> set (vs' @ [v']) = {}" "set vs' \<inter> set (us' @ [u']) = {}" by blast
  let ?L = "set (us' @ [u']) \<union> set (vs' @ [v'])"
  have low: "\<forall>z\<in>?L. bs_block_num z \<le> bs_block_num u"
    using linked_numbers [OF nb w(2) k(1)] linked_numbers [OF nb w(3) k(2)] same
    by (auto simp: word_le_nat_alt)
  have vsle: "\<forall>z\<in>set vs. bs_block_num z \<le> bs_block_num c" using linked_numbers(2) [OF nb d2(2) c] by blast
  have ule: "bs_block_num u \<le> bs_block_num c" using d1(5) by simp
  have lowc: "\<forall>z\<in>?L. bs_block_num z \<le> bs_block_num c" using low ule by (blast intro: order_trans)
  have "set us \<inter> (set vs \<union> ?L) = {}"
    by (rule apart_by_number [OF d1(4)]) (use vsle lowc in blast)
  moreover have "set vs \<inter> ?L = {}" by (rule apart_by_number [OF d2(4) low])
  ultimately have apart: "set us \<inter> set vs = {}" "set us \<inter> ?L = {}" "set vs \<inter> ?L = {}" by blast+
  have "fetch_branch_from db i j = Some (Inr ((us @ us') @ [u'], (vs @ vs') @ [v']))"
    by (simp add: fetch_branch_from_def b c d1(1) d2(1) w(1))
  moreover have "linked db b (us @ us') u'" "linked db c (vs @ vs') v'"
    by (rule linked_append [OF d1(2) w(2)], rule linked_append [OF d2(2) w(3)])
  moreover have "set (us @ us') \<inter> set ((vs @ vs') @ [v']) = {}" "set (vs @ vs') \<inter> set ((us @ us') @ [u']) = {}"
    using w(7,8) apart by auto
  moreover have "us = [] \<or> vs = []"
    using linked_numbers(2) [OF nb d1(2) b] d1(4,5) d2(4) vsle by (cases us; cases vs) (auto simp: min_def not_le split: if_splits)
  ultimately show ?thesis using w(4-6) by blast
qed

section \<open>BFT irreversibility\<close>

definition raised :: "u32 \<Rightarrow> ('k, 's) block_state \<Rightarrow> ('k, 's) block_state" where
  "raised n b = b\<lparr>bft_irreversible_blocknum := max (bft_irreversible_blocknum b) n\<rparr>"

definition bft_high :: "u32 \<Rightarrow> ('k, 's) fork_db \<Rightarrow> digest_type \<Rightarrow> bool" where
  "bft_high n db i \<longleftrightarrow> (case get_block db i of None \<Rightarrow> False | Some b \<Rightarrow> n \<le> bft_irreversible_blocknum b)"

definition bft_low :: "u32 \<Rightarrow> ('k, 's) fork_db \<Rightarrow> digest_type set" where
  "bft_low n db = {i. \<exists>b. get_block db i = Some b \<and> bft_irreversible_blocknum b < n}"

text \<open>No block has a lower confirmed block than its predecessor.\<close>

definition bft_monotone :: "('k, 's) fork_db \<Rightarrow> bool" where
  "bft_monotone db \<longleftrightarrow> (\<forall>i b p. get_block db i = Some b \<longrightarrow> get_block db (prev_of b) = Some p \<longrightarrow>
     bft_irreversible_blocknum p \<le> bft_irreversible_blocknum b)"

text \<open>During the search, with the queue \<open>Q\<close>: blocks are as before or raised, and a child of a
  high block is high unless its parent is still queued.\<close>

definition bft_search ::
  "u32 \<Rightarrow> ('k, 's) fork_db \<Rightarrow> digest_type \<Rightarrow> ('k, 's) fork_db \<Rightarrow> digest_type set \<Rightarrow> bool" where
  "bft_search n db0 i db Q \<longleftrightarrow> container_ok db \<and> Q \<subseteq> {j. (child db0)\<^sup>*\<^sup>* i j} \<and>
    (\<forall>j. get_block db j = get_block db0 j \<or>
       (child db0)\<^sup>*\<^sup>* i j \<and> get_block db j = map_option (raised n) (get_block db0 j)) \<and>
    (\<forall>j k. child db0 j k \<longrightarrow> bft_high n db j \<longrightarrow> j \<in> Q \<or> bft_high n db k)"

lemma raised_fields [simp]:
  "bs_id (raised n b) = bs_id b" "prev_of (raised n b) = prev_of b" "bs_block_num (raised n b) = bs_block_num b"
  "bft_irreversible_blocknum (raised n b) = max (bft_irreversible_blocknum b) n"
  by (simp_all add: raised_def prev_of_def)

lemma raised_high: "n \<le> bft_irreversible_blocknum b \<Longrightarrow> raised n b = b"
  by (simp add: raised_def max_absorb1)

lemma raised_twice [simp]: "raised n (raised n b) = raised n b"
  by (simp add: raised_high)

lemma bft_searchD:
  assumes "bft_search n db0 i db Q"
  shows "container_ok db" "j \<in> Q \<Longrightarrow> (child db0)\<^sup>*\<^sup>* i j"
    "get_block db j = get_block db0 j \<or> (child db0)\<^sup>*\<^sup>* i j \<and> get_block db j = map_option (raised n) (get_block db0 j)"
    "child db0 j k \<Longrightarrow> bft_high n db j \<Longrightarrow> j \<in> Q \<or> bft_high n db k"
  using assms by (auto simp: bft_search_def)

lemma bft_search_child:
  assumes "bft_search n db0 i db Q"
  shows "child db = child db0"
proof (intro ext)
  fix j k
  show "child db j k = child db0 j k"
    using bft_searchD(3) [OF assms, of k] by (cases "get_block db0 k") (auto simp: child_def)
qed

lemma bft_high_iff_low: "get_block db j = Some b \<Longrightarrow> bft_high n db j \<longleftrightarrow> j \<notin> bft_low n db"
  by (simp add: bft_high_def bft_low_def not_less)

lemma raise_bft_spec:
  assumes "bft_search n db0 i db (Q \<union> set upd)" "(child db0)\<^sup>*\<^sup>* i c" "get_block db c \<noteq> None"
    and "raise_bft n (db, upd) c = (db', upd')" "finite (bft_low n db)"
  shows "bft_search n db0 i db' (Q \<union> set upd') \<and> bft_high n db' c \<and> (\<forall>j. bft_high n db j \<longrightarrow> bft_high n db' j) \<and>
    finite (bft_low n db') \<and> card (bft_low n db') + length upd' = card (bft_low n db) + length upd"
proof -
  obtain b where b: "get_block db c = Some b" using assms(3) by auto
  show ?thesis
  proof (cases "bft_irreversible_blocknum b < n")
    case False
    then have "db' = db" "upd' = upd" using assms(4) b by (auto simp: raise_bft_def)
    with assms(1,5) False b show ?thesis by (simp add: bft_high_def not_less)
  next
    case True
    let ?f = "\<lambda>b. b\<lparr>bft_irreversible_blocknum := n\<rparr>"
    have e: "db' = fk_modify c ?f db" "upd' = upd @ [c]" using assms(4) b True by (auto simp: raise_bft_def)
    have fb: "?f b = raised n b" using True by (simp add: raised_def max_absorb2)
    have idb: "bs_id (?f b) = c" using container_okD(2) [OF bft_searchD(1) [OF assms(1)] b] by simp
    note m = fk_modify_ok [where f = ?f, OF bft_searchD(1) [OF assms(1)] b idb, folded e(1), unfolded fb]
    have hi: "bft_high n db' j \<longleftrightarrow> bft_high n db j \<or> j = c" for j by (simp add: bft_high_def m(2))
    have low: "bft_low n db' = bft_low n db - {c}" by (auto simp: bft_low_def m(2) split: if_splits)
    have inlow: "c \<in> bft_low n db" using b True by (simp add: bft_low_def)
    have card: "Suc (card (bft_low n db')) = card (bft_low n db)"
      unfolding low by (rule card_Suc_Diff1 [OF assms(5) inlow])
    have blocks: "get_block db' j = get_block db0 j \<or>
       (child db0)\<^sup>*\<^sup>* i j \<and> get_block db' j = map_option (raised n) (get_block db0 j)" for j
      using bft_searchD(3) [OF assms(1), of j] b assms(2) by (auto simp: m(2) split: if_splits)
    have "bft_search n db0 i db' (Q \<union> set upd')"
      unfolding bft_search_def e(2) using m(1) assms(2) bft_searchD(2,4) [OF assms(1)] blocks hi by auto
    with hi low card assms(5) show ?thesis by (simp add: e(2))
  qed
qed

lemma raise_bft_children:
  assumes "bft_search n db0 i db (Q \<union> set upd)" "\<forall>c\<in>set cs. (child db0)\<^sup>*\<^sup>* i c \<and> get_block db0 c \<noteq> None"
    and "foldl (raise_bft n) (db, upd) cs = (db', upd')" "finite (bft_low n db)"
  shows "bft_search n db0 i db' (Q \<union> set upd') \<and> (\<forall>c\<in>set cs. bft_high n db' c) \<and> (\<forall>j. bft_high n db j \<longrightarrow> bft_high n db' j) \<and>
    finite (bft_low n db') \<and> card (bft_low n db') + length upd' = card (bft_low n db) + length upd"
  using assms
proof (induction cs arbitrary: db upd)
  case (Cons c cs)
  obtain d u where d: "raise_bft n (db, upd) c = (d, u)" by (cases "raise_bft n (db, upd) c")
  have "get_block db c \<noteq> None" using bft_searchD(3) [OF Cons(2), of c] Cons(3) by auto
  from raise_bft_spec [OF Cons(2) _ this d Cons(5)] Cons(3) have s: "bft_search n db0 i d (Q \<union> set u)" "bft_high n d c"
      "\<forall>j. bft_high n db j \<longrightarrow> bft_high n d j" "finite (bft_low n d)"
      "card (bft_low n d) + length u = card (bft_low n db) + length upd" by simp_all
  from Cons(3,4) d have "\<forall>c\<in>set cs. (child db0)\<^sup>*\<^sup>* i c \<and> get_block db0 c \<noteq> None" "foldl (raise_bft n) (d, u) cs = (db', upd')"
    by simp_all
  from Cons(1) [OF s(1) this s(4)] s show ?case by simp
qed simp

lemma bft_layer_spec:
  assumes "bft_search n db0 i db (set ids \<union> set upd)" "finite (bft_low n db)"
    and "foldl (\<lambda>st i. foldl (raise_bft n) st (fk_children (fst st) i)) (db, upd) ids = (db', upd')"
  shows "bft_search n db0 i db' (set upd') \<and> finite (bft_low n db') \<and>
    card (bft_low n db') + length upd' = card (bft_low n db) + length upd \<and> (\<forall>j. bft_high n db j \<longrightarrow> bft_high n db' j)"
  using assms
proof (induction ids arbitrary: db upd)
  case (Cons j ids)
  obtain d u where d: "foldl (raise_bft n) (db, upd) (fk_children db j) = (d, u)"
    by (cases "foldl (raise_bft n) (db, upd) (fk_children db j)")
  have cs: "set (fk_children db j) = {k. child db0 j k}"
    using set_fk_children [OF bft_searchD(1) [OF Cons(2)]] bft_search_child [OF Cons(2)] by simp
  have below: "\<forall>c\<in>set (fk_children db j). (child db0)\<^sup>*\<^sup>* i c \<and> get_block db0 c \<noteq> None"
    using bft_searchD(2) [OF Cons(2), of j] unfolding cs by (auto simp: child_def intro: rtranclp.rtrancl_into_rtrancl)
  from raise_bft_children [OF Cons(2) below d Cons(3)] have s: "bft_search n db0 i d (set (j # ids) \<union> set u)"
      "\<forall>c\<in>set (fk_children db j). bft_high n d c" "\<forall>j. bft_high n db j \<longrightarrow> bft_high n d j" "finite (bft_low n d)"
      "card (bft_low n d) + length u = card (bft_low n db) + length upd" by simp_all
  have "bft_search n db0 i d (set ids \<union> set u)"
    using s(1,2) unfolding bft_search_def cs by auto blast
  from Cons(1) [OF this s(4)] Cons(4) d s(3,5) show ?case by simp
qed simp

lemma bft_loop_ends:
  assumes "bft_search n db0 i db (set q)" "finite (bft_low n db)"
  shows "\<exists>db'. bft_loop n db q = Some db' \<and> bft_search n db0 i db' {} \<and> (\<forall>j. bft_high n db j \<longrightarrow> bft_high n db' j)"
  using assms
proof (induction "card (bft_low n db) + (if q = [] then 0 else 1)" arbitrary: db q rule: less_induct)
  case less
  show ?case
  proof (cases "q = []")
    case True
    with less(2) show ?thesis by (simp add: bft_loop.simps)
  next
    case False
    obtain d u where d: "bft_layer n db q = (d, u)" by (cases "bft_layer n db q")
    from bft_layer_spec [of n db0 i db q "[]" d u] less(2,3) d
    have s: "bft_search n db0 i d (set u)" "finite (bft_low n d)" "card (bft_low n d) + length u = card (bft_low n db)"
        "\<forall>j. bft_high n db j \<longrightarrow> bft_high n d j" by (simp_all add: bft_layer_def)
    have "card (bft_low n d) + (if u = [] then 0 else 1) < card (bft_low n db) + (if q = [] then 0 else 1)"
      using s(3) False by (cases u) simp_all
    from less(1) [OF this s(1,2)] obtain db' where "bft_loop n d u = Some db'" "bft_search n db0 i db' {}"
      "\<forall>j. bft_high n d j \<longrightarrow> bft_high n db' j" by blast
    with s(4) d False show ?thesis by (simp add: bft_loop.simps [of n db q])
  qed
qed

lemma finite_bft_low: "finite (bft_low n db)"
proof (rule finite_subset)
  show "bft_low n db \<subseteq> dom (map_of (fk_index db))" by (auto simp: bft_low_def get_block_def idx_find_def)
qed (rule finite_dom_map_of)

lemma bft_search_end:
  assumes "bft_search n db i db' {}" "bft_high n db' i"
  shows "get_block db' j = (if (child db)\<^sup>*\<^sup>* i j then map_option (raised n) (get_block db j) else get_block db j)"
proof (cases "(child db)\<^sup>*\<^sup>* i j")
  case True
  then have "bft_high n db' j"
    using assms(2) by induction (use bft_searchD(4) [OF assms(1)] in blast)+
  with True bft_searchD(3) [OF assms(1), of j] show ?thesis
    by (cases "get_block db j") (auto simp: bft_high_def raised_high)
next
  case False
  with bft_searchD(3) [OF assms(1), of j] show ?thesis by auto
qed

lemma bft_monotone_raised:
  assumes "bft_monotone db"
    and g: "\<And>j. get_block db' j = (if (child db)\<^sup>*\<^sup>* i j then map_option (raised n) (get_block db j) else get_block db j)"
  shows "bft_monotone db'"
  unfolding bft_monotone_def
proof (intro allI impI)
  fix k b' p'
  assume k: "get_block db' k = Some b'" and p: "get_block db' (prev_of b') = Some p'"
  obtain b where b: "get_block db k = Some b" "b' = (if (child db)\<^sup>*\<^sup>* i k then raised n b else b)"
    using k unfolding g by (auto split: if_splits)
  have prev: "prev_of b' = prev_of b" using b(2) by simp
  obtain q where q: "get_block db (prev_of b) = Some q" "p' = (if (child db)\<^sup>*\<^sup>* i (prev_of b) then raised n q else q)"
    using p unfolding g prev by (auto split: if_splits)
  have le: "bft_irreversible_blocknum q \<le> bft_irreversible_blocknum b"
    using assms(1) b(1) q(1) unfolding bft_monotone_def by blast
  have "child db (prev_of b) k" using b(1) by (simp add: child_def)
  then have "(child db)\<^sup>*\<^sup>* i k" if "(child db)\<^sup>*\<^sup>* i (prev_of b)" using that by (rule rtranclp.rtrancl_into_rtrancl [rotated])
  with le show "bft_irreversible_blocknum p' \<le> bft_irreversible_blocknum b'"
    unfolding b(2) q(2) by (auto intro: max.coboundedI1)
qed

lemma set_bft_result:
  assumes "container_ok db" "bft_monotone db" "get_block db i = Some b" "bft_irreversible_blocknum b \<le> bs_block_num b"
  shows "\<exists>db'. set_bft_irreversible db i = Some (Inr db') \<and> container_ok db' \<and> bft_monotone db' \<and>
    (\<forall>j. get_block db' j =
      (if (child db)\<^sup>*\<^sup>* i j then map_option (raised (bs_block_num b)) (get_block db j) else get_block db j))"
proof -
  let ?n = "bs_block_num b" and ?f = "\<lambda>b. b\<lparr>bft_irreversible_blocknum := bs_block_num b\<rparr>"
  define d where "d = fk_modify i ?f db"
  have fb: "?f b = raised ?n b" using assms(4) by (simp add: raised_def max_absorb2)
  have idb: "bs_id (?f b) = i" using container_okD(2) [OF assms(1,3)] by simp
  note m = fk_modify_ok [where f = ?f, OF assms(1,3) idb, folded d_def, unfolded fb]
  have up: "bft_high ?n db k" if "child db j k" "bft_high ?n db j" for j k
    using that assms(2) unfolding bft_high_def child_def bft_monotone_def
    by (auto split: option.splits intro: order_trans)
  have hi: "bft_high ?n d j \<longleftrightarrow> bft_high ?n db j \<or> j = i" for j by (simp add: bft_high_def m(2))
  have "bft_search ?n db i d (set [i])"
    unfolding bft_search_def using m(1) assms(3) up hi by (auto simp: m(2))
  from bft_loop_ends [OF this finite_bft_low] obtain db' where l: "bft_loop ?n d [i] = Some db'"
    "bft_search ?n db i db' {}" "bft_high ?n db' i" using hi by blast
  have g: "get_block db' j = (if (child db)\<^sup>*\<^sup>* i j then map_option (raised ?n) (get_block db j) else get_block db j)" for j
    by (rule bft_search_end [OF l(2,3)])
  have "set_bft_irreversible db i = Some (Inr db')" using l(1) assms(3) by (simp add: set_bft_irreversible_def d_def)
  with bft_searchD(1) [OF l(2)] bft_monotone_raised [OF assms(2) g] g show ?thesis by blast
qed

text \<open>C17. Marking a block BFT irreversible always ends: the block and every block that builds on it then have
  at least its number as their last confirmed block, no other block changes, and no block has a lower
  confirmed block than its predecessor.\<close>

theorem set_bft_irreversible_exact:
  assumes "container_ok db" "bft_monotone db" "get_block db i = Some b" "bft_irreversible_blocknum b \<le> bs_block_num b"
  shows "\<exists>db'. set_bft_irreversible db i = Some (Inr db') \<and> container_ok db' \<and> bft_monotone db' \<and>
    (\<forall>j. get_block db' j =
      (if (child db)\<^sup>*\<^sup>* i j then map_option (raised (bs_block_num b)) (get_block db j) else get_block db j))"
  using set_bft_result [OF assms] .

section \<open>A small fork\<close>

text \<open>Block 1 with two branches, of the blocks 2 and 4 and of the blocks 3 and 5.\<close>

definition demo_id :: "u64 \<Rightarrow> digest_type" where
  "demo_id n = Digest n 0 0 0"

definition demo_block :: "u64 \<Rightarrow> u64 \<Rightarrow> u32 \<Rightarrow> u32 \<Rightarrow> (nat, nat) block_state" where
  "demo_block i p n lib = (new_block_state demo_genesis (bs_header demo_genesis))
     \<lparr>bs_id := demo_id i, bs_block_num := n, bs_header := (bs_header demo_genesis)\<lparr>bh_previous := demo_id p\<rparr>,
      dpos_irreversible_blocknum := lib, bft_irreversible_blocknum := 0\<rparr>"

definition demo_fork :: "(nat, nat) fork_db" where
  "demo_fork = (foldl (\<lambda>db b. fst (fk_insert b db)) empty_fork_db
     [demo_block 1 0 1 0, demo_block 2 1 2 0, demo_block 3 1 2 1, demo_block 4 2 3 0, demo_block 5 3 3 1])
     \<lparr>fk_head := Some (demo_block 5 3 3 1)\<rparr>"

lemma demo_insert_ok:
  assumes "container_ok db"
  shows "container_ok (fst (fk_insert b db))"
proof (cases "get_block db (bs_id b)")
  case None
  then have "fk_insert b db = (fst (fk_insert b db), True)" by (simp add: fk_insert_def)
  then show ?thesis by (rule fk_insert_ok(1) [OF assms])
qed (simp add: fk_insert_def assms)

lemma demo_fork_ok: "container_ok demo_fork"
  unfolding demo_fork_def by (simp add: demo_insert_ok)

lemma every_block: "list_all P (fk_index db) \<Longrightarrow> get_block db i = Some b \<Longrightarrow> P (i, b)"
  by (auto simp: get_block_def idx_find_def list_all_iff dest: map_of_SomeD)

lemma demo_fork_known:
  "get_block demo_fork (demo_id 1) \<noteq> None"
  "get_block demo_fork (demo_id 2) = Some (demo_block 2 1 2 0)"
  "get_block demo_fork (demo_id 3) = Some (demo_block 3 1 2 1)"
  "get_block demo_fork (demo_id 4) = Some (demo_block 4 2 3 0)"
  "get_block demo_fork (demo_id 5) = Some (demo_block 5 3 3 1)"
  by code_simp+

lemma demo_fork_numbered: "numbered demo_fork"
proof -
  have c: "list_all (\<lambda>e. case get_block demo_fork (prev_of (snd e)) of None \<Rightarrow> True
      | Some p \<Rightarrow> unat (bs_block_num (snd e)) = Suc (unat (bs_block_num p))) (fk_index demo_fork)" by code_simp
  show ?thesis unfolding numbered_def
  proof (intro allI impI)
    fix i b p
    assume "get_block demo_fork i = Some b" "get_block demo_fork (prev_of b) = Some p"
    with every_block [OF c this(1)] show "unat (bs_block_num b) = Suc (unat (bs_block_num p))" by simp
  qed
qed

lemma demo_fork_monotone: "bft_monotone demo_fork"
proof -
  have c: "list_all (\<lambda>e. case get_block demo_fork (prev_of (snd e)) of None \<Rightarrow> True
      | Some p \<Rightarrow> bft_irreversible_blocknum p \<le> bft_irreversible_blocknum (snd e)) (fk_index demo_fork)" by code_simp
  show ?thesis unfolding bft_monotone_def
  proof (intro allI impI)
    fix i b p
    assume "get_block demo_fork i = Some b" "get_block demo_fork (prev_of b) = Some p"
    with every_block [OF c this(1)] show "bft_irreversible_blocknum p \<le> bft_irreversible_blocknum b" by simp
  qed
qed

lemma demo_prev: "prev_of (demo_block i p n l) = demo_id p"
  by (simp add: prev_of_def demo_block_def)

lemma demo_children:
  "child demo_fork (demo_id 1) (demo_id 2)" "child demo_fork (demo_id 1) (demo_id 3)"
  "child demo_fork (demo_id 2) (demo_id 4)" "child demo_fork (demo_id 3) (demo_id 5)"
  by (simp_all add: child_def demo_fork_known demo_prev)

lemma demo_paths:
  "(child demo_fork)\<^sup>*\<^sup>* (demo_id 1) (demo_id 4)" "(child demo_fork)\<^sup>*\<^sup>* (demo_id 1) (demo_id 5)"
  "(child demo_fork)\<^sup>*\<^sup>* (demo_id 2) (demo_id 4)" "(child demo_fork)\<^sup>*\<^sup>* (demo_id 3) (demo_id 5)"
  using demo_children by (meson converse_rtranclp_into_rtranclp r_into_rtranclp)+

theorem fork_remove_exact_witness:
  "\<exists>db'. fork_remove demo_fork (demo_id 3) = Inr db' \<and> get_block db' (demo_id 5) = None \<and> head_best db' \<and>
    map_option bs_id (fk_head db') = Some (demo_id 4)"
proof -
  have "\<not> isl (fork_remove demo_fork (demo_id 3))" by code_simp
  then obtain db' where r: "fork_remove demo_fork (demo_id 3) = Inr db'" by (cases "fork_remove demo_fork (demo_id 3)") auto
  have h: "map_option bs_id (fk_head (projr (fork_remove demo_fork (demo_id 3)))) = Some (demo_id 4)" by code_simp
  have s: "(\<forall>j. get_block db' j = (if (child demo_fork)\<^sup>*\<^sup>* (demo_id 3) j then None else get_block demo_fork j)) \<and>
      container_ok db' \<and> head_best db'"
    using fork_remove_exact [OF demo_fork_ok, of "demo_id 3"] r by blast
  then have "get_block db' (demo_id 5) = None" using demo_paths(4) by simp
  with s r h show ?thesis by simp
qed

theorem fork_add_head_witness:
  "\<exists>db'. fork_add demo_fork (demo_block 6 4 4 2) True = Inr db' \<and> head_best db' \<and>
    map_option bs_id (fk_head db') = Some (demo_id 6) \<and> map bs_id (fk_irreversible db') = [demo_id 1]"
proof -
  let ?r = "fork_add demo_fork (demo_block 6 4 4 2) True"
  have "\<not> isl ?r" by code_simp
  then obtain db' where r: "?r = Inr db'" by (cases ?r) auto
  have v: "map_option bs_id (fk_head (projr ?r)) = Some (demo_id 6)" "map bs_id (fk_irreversible (projr ?r)) = [demo_id 1]"
    by code_simp+
  have c: "list_all (\<lambda>e. dpos_irreversible_blocknum (snd e) \<le> bs_block_num (snd e)) (fk_index demo_fork)" by code_simp
  have "head_best db'"
    using fork_add_head [OF demo_fork_ok _ _ r] every_block [OF c] by (auto simp: demo_block_def)
  with r v show ?thesis by (auto simp: r)
qed

theorem set_bft_irreversible_exact_witness:
  "\<exists>db'. set_bft_irreversible demo_fork (demo_id 2) = Some (Inr db') \<and>
    map_option bft_irreversible_blocknum (get_block db' (demo_id 4)) = Some 2"
proof -
  have le: "bft_irreversible_blocknum (demo_block 2 1 2 0) \<le> bs_block_num (demo_block 2 1 2 0)" by (simp add: demo_block_def)
  from set_bft_irreversible_exact [OF demo_fork_ok demo_fork_monotone demo_fork_known(2) le]
  obtain db' where db': "set_bft_irreversible demo_fork (demo_id 2) = Some (Inr db')"
    "get_block db' (demo_id 4) = map_option (raised (bs_block_num (demo_block 2 1 2 0))) (get_block demo_fork (demo_id 4))"
    using demo_paths(3) by auto
  then show ?thesis by (simp add: demo_fork_known) (simp add: demo_block_def raised_def)
qed

end
