(* ===== verification/Fork_Chains.thy ===== *)
theory Fork_Chains
  imports Fork_Database
begin

text \<open>
  The fork databases of a node: what starts with the genesis block and grows by received, produced,
  confirmed and rejected blocks (\<^verbatim>\<open>fork_database.cpp\<close> over \<^verbatim>\<open>block_header_state.cpp\<close>).
  All blocks stay connected: the blocks whose predecessor is not in the database have the same
  predecessor, the block that was pruned last.  A history that ends in pruning a fork shows that
  \<^verbatim>\<open>prune\<close> can go on at a block it has just erased.
\<close>

section \<open>Connected fork databases\<close>

type_synonym ('k, 's) block_map = "digest_type \<rightharpoonup> ('k, 's) block_state"

definition state_ok :: "('k, 's) header_env \<Rightarrow> ('k, 's) block_state \<Rightarrow> bool" where
  "state_ok en b \<longleftrightarrow> counters_ok (block_header_state.truncate b) \<and> num_from_id en (bs_id b) = bs_block_num b \<and>
    num_from_id en (prev_of b) + 1 = bs_block_num b \<and> bs_block_num b \<noteq> 0 \<and> bft_irreversible_blocknum b \<le> bs_block_num b"

definition one_root :: "('k, 's) block_map \<Rightarrow> bool" where
  "one_root g \<longleftrightarrow> (\<forall>i j b c. g i = Some b \<longrightarrow> g j = Some c \<longrightarrow> g (prev_of b) = None \<longrightarrow>
     bs_block_num b \<le> bs_block_num c \<and> (g (prev_of c) = None \<longrightarrow> prev_of b = prev_of c))"

definition forks_ok :: "('k, 's) header_env \<Rightarrow> ('k, 's) fork_db \<Rightarrow> bool" where
  "forks_ok en db \<longleftrightarrow> container_ok db \<and> (\<forall>i b. get_block db i = Some b \<longrightarrow> state_ok en b) \<and>
    one_root (get_block db) \<and> bft_monotone db"

lemma forks_okD:
  assumes "forks_ok en db"
  shows "container_ok db" "get_block db i = Some b \<Longrightarrow> state_ok en b" "one_root (get_block db)" "bft_monotone db"
    "get_block db i = Some b \<Longrightarrow> bs_id b = i"
  using assms container_okD(2) by (auto simp: forks_ok_def)

lemma one_rootD:
  assumes "one_root g" "g i = Some b" "g j = Some c" "g (prev_of b) = None"
  shows "bs_block_num b \<le> bs_block_num c" "g (prev_of c) = None \<Longrightarrow> prev_of b = prev_of c"
  using assms unfolding one_root_def by blast+

lemma state_ok_num:
  assumes "state_ok en b"
  shows "unat (bs_block_num b) = Suc (unat (num_from_id en (prev_of b)))"
    "num_from_id en (bs_id b) = bs_block_num b" "dpos_irreversible_blocknum b \<le> bs_block_num b"
proof -
  let ?p = "num_from_id en (prev_of b)"
  have "?p + 1 = bs_block_num b" "bs_block_num b \<noteq> 0" using assms by (simp_all add: state_ok_def)
  moreover from this have "?p \<noteq> - 1" by auto
  ultimately show "unat (bs_block_num b) = Suc (unat ?p)" using unat_plus_one [of ?p] by simp
  show "num_from_id en (bs_id b) = bs_block_num b" using assms by (simp add: state_ok_def)
  have "unat (dpos_proposed_irreversible_blocknum b) \<le> unat (bs_block_num b)"
    "dpos_irreversible_blocknum b \<le> dpos_proposed_irreversible_blocknum b"
    using assms by (simp_all add: state_ok_def counters_ok_def block_header_state.truncate_def)
  then show "dpos_irreversible_blocknum b \<le> bs_block_num b" by (simp add: word_le_nat_alt)
qed

lemma forks_numbered:
  assumes "forks_ok en db"
  shows "numbered db"
  unfolding numbered_def
proof (intro allI impI)
  fix i b p
  assume b: "get_block db i = Some b" and p: "get_block db (prev_of b) = Some p"
  show "unat (bs_block_num b) = Suc (unat (bs_block_num p))"
    using state_ok_num(1) [OF forks_okD(2) [OF assms b]] state_ok_num(2) [OF forks_okD(2) [OF assms p]]
      forks_okD(5) [OF assms p] by simp
qed

lemma root_of_block:
  assumes "numbered db" "get_block db i = Some b"
  shows "\<exists>xs x k. linked db b xs x \<and> get_block db k = Some x \<and> get_block db (prev_of x) = None"
  using assms(2)
proof (induction "unat (bs_block_num b)" arbitrary: b i rule: less_induct)
  case less
  show ?case
  proof (cases "get_block db (prev_of b)")
    case None
    with less(2) show ?thesis by (intro exI [of _ "[]"] exI [of _ b]) auto
  next
    case (Some p)
    have "unat (bs_block_num p) < unat (bs_block_num b)"
      using assms(1) less(2) Some unfolding numbered_def by force
    from less(1) [OF this Some] obtain xs x k where
      "linked db p xs x" "get_block db k = Some x" "get_block db (prev_of x) = None" by blast
    with Some show ?thesis by (intro exI [of _ "b # xs"] exI [of _ x]) auto
  qed
qed

lemma forks_fetch:
  assumes ok: "forks_ok en db" and b: "get_block db i = Some b" and c: "get_block db j = Some c"
  shows "\<exists>us u vs v. fetch_branch_from db i j = Some (Inr (us @ [u], vs @ [v])) \<and>
    linked db b us u \<and> linked db c vs v \<and> prev_of u = prev_of v \<and> bs_block_num u = bs_block_num v \<and>
    (u = v \<longrightarrow> us = [] \<or> vs = []) \<and> set us \<inter> set (vs @ [v]) = {} \<and> set vs \<inter> set (us @ [u]) = {}"
proof -
  note nb = forks_numbered [OF ok]
  obtain xs x k where x: "linked db b xs x" "get_block db k = Some x" "get_block db (prev_of x) = None"
    using root_of_block [OF nb b] by blast
  obtain ys y l where y: "linked db c ys y" "get_block db l = Some y" "get_block db (prev_of y) = None"
    using root_of_block [OF nb c] by blast
  have e: "prev_of x = prev_of y" by (rule one_rootD(2) [OF forks_okD(3) [OF ok] x(2) y(2) x(3) y(3)])
  have "bs_block_num x = bs_block_num y"
    using forks_okD(2) [OF ok x(2)] forks_okD(2) [OF ok y(2)] e unfolding state_ok_def by metis
  from fetch_branch_between [OF forks_okD(1) [OF ok] nb b c x(1) y(1) e this] show ?thesis .
qed

section \<open>Removal and pruning keep them connected\<close>

text \<open>A block that is kept keeps its predecessor.\<close>

definition preds_kept :: "('k, 's) fork_db \<Rightarrow> ('k, 's) fork_db \<Rightarrow> bool" where
  "preds_kept db db' \<longleftrightarrow> (\<forall>j b. get_block db' j = Some b \<longrightarrow> get_block db (prev_of b) \<noteq> None \<longrightarrow> get_block db' (prev_of b) \<noteq> None)"

lemma kept_refl [simp]: "kept_from db db" "preds_kept db db"
  by (simp_all add: kept_from_def preds_kept_def)

lemma preds_kept_trans: "preds_kept a b \<Longrightarrow> preds_kept b c \<Longrightarrow> kept_from b c \<Longrightarrow> preds_kept a c"
  unfolding preds_kept_def kept_from_def by blast

lemma one_root_kept:
  assumes "one_root (get_block db)" "kept_from db db'" "preds_kept db db'"
  shows "one_root (get_block db')"
proof -
  have k: "get_block db j = Some b" if "get_block db' j = Some b" for j b
    using assms(2) that by (simp add: kept_from_def)
  have n: "get_block db (prev_of b) = None" if "get_block db' j = Some b" "get_block db' (prev_of b) = None" for j b
    using assms(3) that unfolding preds_kept_def by blast
  show ?thesis unfolding one_root_def using one_rootD [OF assms(1)] k n by metis
qed

lemma forks_ok_kept:
  assumes "forks_ok en db" "container_ok db'" "kept_from db db'" "one_root (get_block db')"
  shows "forks_ok en db'"
  using assms unfolding forks_ok_def kept_from_def bft_monotone_def by blast

lemma fork_remove_preds:
  assumes "container_ok db" "fork_remove db i = Inr db'"
  shows "preds_kept db db'"
  unfolding preds_kept_def
proof (intro allI impI notI)
  fix j b
  assume b: "get_block db' j = Some b" and p: "get_block db (prev_of b) \<noteq> None" "get_block db' (prev_of b) = None"
  note g = fork_remove_spec(3) [OF assms]
  from b have b': "get_block db j = Some b" "\<not> (child db)\<^sup>*\<^sup>* i j" unfolding g by (auto split: if_splits)
  from p have "(child db)\<^sup>*\<^sup>* i (prev_of b)" unfolding g by (auto split: if_splits)
  moreover have "child db (prev_of b) j" using b'(1) by (simp add: child_def)
  ultimately show False using b'(2) by (meson rtranclp.rtrancl_into_rtrancl)
qed

lemma fork_remove_forks:
  assumes "forks_ok en db" "fork_remove db i = Inr db'"
  shows "forks_ok en db'"
proof (rule forks_ok_kept [OF assms(1)])
  note c = forks_okD(1) [OF assms(1)]
  show "container_ok db'" by (rule fork_remove_spec(1) [OF c assms(2)])
  show "kept_from db db'" by (rule fork_remove_kept [OF c assms(2)])
  then show "one_root (get_block db')"
    by (rule one_root_kept [OF forks_okD(3) [OF assms(1)] _ fork_remove_preds [OF c assms(2)]])
qed

lemma remove_queue_by_num: "\<exists>P. fk_by_num (remove_queue db q) = filter P (fk_by_num db)"
proof (induction db q rule: remove_queue.induct)
  case (1 db)
  show ?case by (rule exI [of _ "\<lambda>_. True"]) simp
next
  case (2 db i queue)
  then obtain P where "fk_by_num (remove_queue (fk_erase i db) (queue @ fk_children (fk_erase i db) i)) =
      filter P (fk_by_num (fk_erase i db))" by blast
  then show ?case by (auto simp: Let_def fk_erase_def ord_erase_def)
qed

lemma fork_remove_by_num:
  assumes "fork_remove db i = Inr db'"
  shows "\<exists>P. fk_by_num db' = filter P (fk_by_num db)"
  using remove_queue_by_num [of db "[i]"] assms by (auto simp: fork_remove_def Let_def)

text \<open>While pruning goes on, its iterator stands on the first block: the one after a removed first block
  is the first again, unless it was erased as well.\<close>

lemma prune_next:
  assumes "container_ok db" "container_ok d" "fork_remove db i = Inr d" "fk_by_num db = e # es" "snd e = i"
    and "prune_num d (ord_next i (fk_by_num db)) num = Inr db'"
  shows "ord_next i (fk_by_num db) = (case fk_by_num d of [] \<Rightarrow> None | e # _ \<Rightarrow> Some (snd e))"
proof -
  obtain P where P: "fk_by_num d = filter P (e # es)" using fork_remove_by_num [OF assms(3)] assms(4) by auto
  have dm: "e' \<in> set (fk_by_num d) \<longleftrightarrow> (\<exists>b. get_block d (snd e') = Some b \<and> fst e' = num_of b)" for e'
    using container_okD(4) [OF assms(2)] unfolding num_order.mirrors_def by (cases e') auto
  have em: "\<exists>b. get_block db (snd e') = Some b \<and> fst e' = num_of b" if "e' \<in> set (fk_by_num db)" for e'
    using container_okD(4) [OF assms(1)] that unfolding num_order.mirrors_def by (cases e') auto
  have gone: "get_block d i = None" using fork_remove_spec(3) [OF assms(1,3), of i] by simp
  have "e \<notin> set (fk_by_num d)" using dm [of e] gone assms(5) by simp
  then have nP: "\<not> P e" unfolding P by auto
  have nx: "ord_next i (fk_by_num db) = (case es of [] \<Rightarrow> None | e # _ \<Rightarrow> Some (snd e))"
    using assms(4,5) by (simp add: ord_next_def)
  show ?thesis
  proof (cases es)
    case Nil
    then show ?thesis using nx P nP by simp
  next
    case (Cons f fs)
    then have "get_block d (snd f) \<noteq> None" using assms(6) nx by (auto split: option.splits)
    then obtain b where b: "get_block d (snd f) = Some b" by auto
    have "get_block db (snd f) = Some b" using b fork_remove_kept [OF assms(1,3)] by (simp add: kept_from_def)
    then have "f \<in> set (fk_by_num d)" using em [of f] assms(4) Cons b dm [of f] by simp
    then have "P f" unfolding P set_filter by blast
    then show ?thesis using nx P nP Cons by simp
  qed
qed

lemma prune_num_clears:
  "prune_num db i num = Inr db' \<Longrightarrow> container_ok db \<Longrightarrow>
    \<forall>j b. get_block db j = Some b \<longrightarrow> num \<le> bs_block_num b \<Longrightarrow>
    i = (case fk_by_num db of [] \<Rightarrow> None | e # _ \<Rightarrow> Some (snd e)) \<Longrightarrow>
    container_ok db' \<and> kept_from db db' \<and> preds_kept db db' \<and> (\<forall>j b. get_block db' j = Some b \<longrightarrow> num < bs_block_num b)"
proof (induction db i num rule: prune_num.induct)
  case (1 db num)
  then have "fk_by_num db = []" by (simp split: list.splits)
  then have "(num_of b, j) \<in> set []" if "get_block db j = Some b" for j b
    using container_okD(4) [OF 1(2)] that unfolding num_order.mirrors_def by metis
  then have "get_block db j = None" for j by (cases "get_block db j") auto
  with 1 show ?case by simp
next
  case (2 db i num)
  obtain e es where l: "fk_by_num db = e # es" "snd e = i" using 2(5) by (auto split: list.splits)
  note m = num_order.mirrors_first [OF container_okD(4) [OF 2(3), unfolded l(1)]]
  obtain b where b: "get_block db i = Some b" "\<forall>j c. get_block db j = Some c \<longrightarrow> \<not> num_before (num_of c) (num_of b)"
    using m l(2) by metis
  show ?case
  proof (cases "bs_block_num b \<noteq> num")
    case True
    with 2(4) b(1) have "num < bs_block_num b" by (metis order_le_imp_less_or_eq)
    moreover have "bs_block_num b \<le> bs_block_num c" if "get_block db j = Some c" for j c
      using b(2) that by (auto simp: num_of_def not_less)
    moreover have "db' = db" using 2(2) b(1) True by simp
    ultimately show ?thesis using 2(3) by (simp, meson order_less_le_trans)
  next
    case False
    then obtain d where d: "fork_remove db i = Inr d" using 2(2) b(1) by (cases "fork_remove db i") auto
    have p: "prune_num d (ord_next i (fk_by_num db)) num = Inr db'" using 2(2) b(1) False d by simp
    note ok = fork_remove_spec(1) [OF 2(3) d]
    note k = fork_remove_kept [OF 2(3) d]
    have low: "\<forall>j b. get_block d j = Some b \<longrightarrow> num \<le> bs_block_num b" using 2(4) k unfolding kept_from_def by blast
    have nx: "ord_next i (fk_by_num db) = (case fk_by_num d of [] \<Rightarrow> None | e # _ \<Rightarrow> Some (snd e))"
      using prune_next [OF 2(3) ok d l p] .
    from 2(1) [OF b(1) False d p ok low nx] k preds_kept_trans [OF fork_remove_preds [OF 2(3) d]] kept_from_trans [OF k]
    show ?thesis by blast
  qed
qed

lemma lower_bound_first:
  assumes "container_ok db" "\<forall>j b. get_block db j = Some b \<longrightarrow> num \<le> bs_block_num b"
  shows "num_lower_bound db num = (case fk_by_num db of [] \<Rightarrow> None | e # _ \<Rightarrow> Some (snd e))"
proof (cases "fk_by_num db")
  case (Cons e es)
  obtain b where b: "get_block db (snd e) = Some b" "fst e = num_of b"
    by (rule num_order.mirrors_first [OF container_okD(4) [OF assms(1), unfolded Cons]])
  from assms(2) b(1) have "\<not> bs_block_num b < num" by (metis leD)
  with b(2) Cons show ?thesis by (simp add: num_lower_bound_def num_of_def)
qed (simp add: num_lower_bound_def)

lemma prune_one_forks:
  assumes ok: "forks_ok en db" and h: "get_block db (bs_id h) = Some h"
    and low: "\<And>j b. get_block db j = Some b \<Longrightarrow> bs_block_num h \<le> bs_block_num b" and r: "prune_one db h = Inr db'"
  shows "forks_ok en db'"
proof -
  define d where "d = fk_erase (bs_id h) (db\<lparr>fk_irreversible := fk_irreversible db @ [h]\<rparr>)"
  have c: "container_ok d" unfolding d_def using forks_okD(1) [OF ok] by (auto intro: fk_erase_ok(1))
  have g: "get_block d = (get_block db)(bs_id h := None)" by (auto simp: d_def fun_eq_iff get_block_erase)
  have ld: "\<forall>j b. get_block d j = Some b \<longrightarrow> bs_block_num h \<le> bs_block_num b" using low by (auto simp: g)
  have p: "prune_num d (num_lower_bound d (bs_block_num h)) (bs_block_num h) = Inr db'"
    using r h by (simp add: prune_one_def d_def Let_def)
  note q = prune_num_clears [OF p c ld lower_bound_first [OF c ld]]
  have "kept_from db d" by (simp add: kept_from_def g)
  with q have k: "kept_from db db'" by (blast intro: kept_from_trans)
  have kb: "get_block db j = Some b" if "get_block db' j = Some b" for j b
    using k that by (simp add: kept_from_def)
  have root: "prev_of b = bs_id h" if b: "get_block db' j = Some b" "get_block db' (prev_of b) = None" for j b
  proof (rule ccontr)
    assume ne: "prev_of b \<noteq> bs_id h"
    from q b have "get_block d (prev_of b) = None" unfolding preds_kept_def by blast
    with ne have "get_block db (prev_of b) = None" by (simp add: g)
    from one_rootD(1) [OF forks_okD(3) [OF ok] kb [OF b(1)] h this] q b(1) show False by (meson leD)
  qed
  have "bs_block_num b \<le> bs_block_num c"
    if b: "get_block db' j = Some b" "get_block db' (prev_of b) = None" and c: "get_block db' k = Some c" for j b k c
  proof -
    have "unat (bs_block_num b) = Suc (unat (bs_block_num h))"
      using state_ok_num(1) [OF forks_okD(2) [OF ok kb [OF b(1)]]] state_ok_num(2) [OF forks_okD(2) [OF ok h]] root [OF b] by simp
    moreover have "bs_block_num h < bs_block_num c" using q c by blast
    ultimately show ?thesis by (simp add: word_le_nat_alt word_less_nat_alt)
  qed
  with root have "one_root (get_block db')" unfolding one_root_def by metis
  with q k ok show ?thesis by (blast intro: forks_ok_kept)
qed

section \<open>Growth\<close>

text \<open>A new block that builds on a known one.\<close>

definition follows :: "('k, 's) header_env \<Rightarrow> ('k, 's) fork_db \<Rightarrow> ('k, 's) block_state \<Rightarrow> bool" where
  "follows en db n \<longleftrightarrow> state_ok en n \<and> (case get_block db (prev_of n) of None \<Rightarrow> False
     | Some p \<Rightarrow> bft_irreversible_blocknum p \<le> bft_irreversible_blocknum n)"

lemma no_child_yet:
  assumes ok: "forks_ok en db" and n: "follows en db n" "get_block db (bs_id n) = None" and b: "get_block db i = Some b"
  shows "prev_of b \<noteq> bs_id n"
proof
  assume e: "prev_of b = bs_id n"
  obtain p where p: "get_block db (prev_of n) = Some p" using n(1) by (auto simp: follows_def split: option.splits)
  have "unat (bs_block_num b) = Suc (unat (bs_block_num n))"
    using state_ok_num(1) [OF forks_okD(2) [OF ok b]] state_ok_num(2) [of en n] n(1) e by (simp add: follows_def)
  moreover have "unat (bs_block_num n) = Suc (unat (bs_block_num p))"
    using state_ok_num(1) [of en n] n(1) state_ok_num(2) [OF forks_okD(2) [OF ok p]] forks_okD(5) [OF ok p]
    by (simp add: follows_def)
  moreover have "bs_block_num b \<le> bs_block_num p"
    using one_rootD(1) [OF forks_okD(3) [OF ok] b p] n(2) e by simp
  ultimately show False by (simp add: word_le_nat_alt)
qed

lemma insert_forks:
  assumes ok: "forks_ok en db" and n: "follows en db n" and d: "fk_insert n db = (d, True)"
  shows "forks_ok en d"
proof -
  note i = fk_insert_ok [OF forks_okD(1) [OF ok] d]
  obtain p where p: "get_block db (prev_of n) = Some p" "bft_irreversible_blocknum p \<le> bft_irreversible_blocknum n"
    using n by (auto simp: follows_def split: option.splits)
  have sn: "state_ok en n" using n by (simp add: follows_def)
  have ne: "prev_of n \<noteq> bs_id n" using p(1) i(4) by auto
  have le: "bs_block_num p \<le> bs_block_num n"
    using state_ok_num(1) [OF sn] state_ok_num(2) [OF forks_okD(2) [OF ok p(1)]] forks_okD(5) [OF ok p(1)]
    by (simp add: word_le_nat_alt)
  note fresh = no_child_yet [OF ok n i(4)]
  have "bs_block_num b \<le> bs_block_num n" if "get_block db k = Some b" "get_block db (prev_of b) = None" for k b
    using one_rootD(1) [OF forks_okD(3) [OF ok] that(1) p(1) that(2)] le by (rule order_trans)
  then have "one_root (get_block d)"
    unfolding one_root_def i(2) using one_rootD [OF forks_okD(3) [OF ok]] p(1) ne by (auto split: if_splits)
  moreover have "bft_monotone d"
    using forks_okD(4) [OF ok] fresh p ne unfolding bft_monotone_def i(2) by (auto split: if_splits)
  ultimately show ?thesis
    using i(1) sn forks_okD(2) [OF ok] unfolding forks_ok_def by (auto simp: i(2) split: if_splits)
qed

lemma forks_ok_frame [simp]: "forks_ok en (db\<lparr>fk_head := h\<rparr>) = forks_ok en db"
  by (simp add: forks_ok_def bft_monotone_def)

lemma fork_add_forks:
  assumes "forks_ok en db" "follows en db n" "fork_add db n skip = Inr db'"
  shows "forks_ok en db'"
proof -
  obtain d where d: "fk_insert n db = (d, True)" using assms(3) by (auto simp: fork_add_def split: prod.splits)
  obtain h old where o1: "first_of (fk_by_num (d\<lparr>fk_head := Some h\<rparr>)) (d\<lparr>fk_head := Some h\<rparr>) = Inr old"
    and e: "(if bs_block_num old < dpos_irreversible_blocknum h then fork_prune (d\<lparr>fk_head := Some h\<rparr>) old
       else Inr (d\<lparr>fk_head := Some h\<rparr>)) = Inr db'"
    using assms(3) unfolding fork_add_def d by (auto simp: Let_def)
  let ?d = "d\<lparr>fk_head := Some h\<rparr>"
  have ok: "forks_ok en ?d" using insert_forks [OF assms(1,2) d] by simp
  note on = first_by_num [OF forks_okD(1) [OF ok] o1]
  show ?thesis
  proof (cases "bs_block_num old < dpos_irreversible_blocknum h")
    case False
    then have "db' = ?d" using e by simp
    with ok show ?thesis by simp
  next
    case True
    have older: "prune_older ?d (bs_block_num old) = Inr ?d"
      by (rule prune_older_none [OF forks_okD(1) [OF ok]]) (rule on(2))
    have "fork_prune ?d old = Inr db'" using e True by (simp only: if_True)
    then have "prune_one ?d old = Inr db'" unfolding fork_prune_def older by (simp only: ebind_Inr)
    then show ?thesis by (rule prune_one_forks [OF ok on(1), rotated]) (rule on(2))
  qed
qed

lemma next_bft:
  assumes "next_header_state en s h skip = Inr s'"
  shows "bft_irreversible_blocknum s' = bft_irreversible_blocknum s"
proof -
  obtain r where r: "generate_next en s (bh_timestamp h) = Inr r"
    using assms by (auto simp: next_header_state_def)
  have g: "bft_irreversible_blocknum r = bft_irreversible_blocknum s"
    using r by (auto simp: generate_next_def Let_def split: option.splits)
  have c: "bft_irreversible_blocknum (confirm_loop i n t) = bft_irreversible_blocknum t" for i n and t :: "('a, 'b) block_header_state"
    by (induction i n t rule: confirm_loop.induct) (auto simp: Let_def)
  obtain q w where q: "maybe_promote_pending (set_confirmed r (bh_confirmed h)) = (q, w)" by fastforce
  then have "bft_irreversible_blocknum q = bft_irreversible_blocknum r"
    by (auto simp: maybe_promote_pending_def set_confirmed_def Let_def c split: if_splits)
  then show ?thesis
    using assms g unfolding next_header_state_def r q
    by (auto simp: r q Let_def set_new_producers_def verify_signee_def split: option.splits if_splits)
qed

lemma next_follows:
  assumes ok: "forks_ok en db" and rev: "\<And>n. he_endian_reverse_u32 en (he_endian_reverse_u32 en n) = n"
    and p: "get_block db (bh_previous b) = Some p" "bs_block_num p \<noteq> - 1"
    and r: "block_state_of_block en p b skip = Inr r"
  shows "follows en db r"
proof -
  let ?s = "block_header_state.truncate p"
  obtain s where s: "next_header_state en ?s b skip = Inr s" "r = new_block_state s b"
    using r by (auto simp: block_state_of_block_def)
  have sp: "state_ok en p" by (rule forks_okD(2) [OF ok p(1)])
  have n: "counters_ok s" "bs_block_num s = bs_block_num p + 1"
    using next_counters [OF _ _ s(1)] sp p(2) by (simp_all add: state_ok_def block_header_state.truncate_def)
  obtain q where q: "generate_next en ?s (bh_timestamp b) = Inr q" "bs_id s = header_id en (bs_header s)"
    "bh_previous (bs_header s) = bh_previous (bs_header q)"
    by (rule next_stages [OF s(1)])
  have prev: "bh_previous (bs_header s) = bs_id p"
    unfolding q(3) by (rule generate_next_frame [OF q(1)]) (simp add: block_header_state.truncate_def)
  have bft: "bft_irreversible_blocknum s = bft_irreversible_blocknum p"
    using next_bft [OF s(1)] by (simp add: block_header_state.truncate_def)
  have idp: "num_from_id en (bs_id p) = bs_block_num p" by (rule state_ok_num(2) [OF sp])
  have u: "unat (bs_block_num p + 1) = unat (bs_block_num p) + 1" by (rule unat_plus_one [OF p(2)])
  then have nz: "bs_block_num p + 1 \<noteq> 0" by auto
  have "bft_irreversible_blocknum p \<le> bs_block_num p + 1"
    using sp u by (simp add: state_ok_def word_le_nat_alt)
  then have "state_ok en r"
    unfolding s(2) using n prev bft idp nz q(2) num_from_header_id [OF rev, of "bs_header s"]
    by (simp add: state_ok_def counters_ok_def new_block_state_def prev_of_def block_header_state.defs)
  moreover have "get_block db (prev_of r) = Some p"
    using p(1) forks_okD(5) [OF ok p(1)] prev unfolding s(2)
    by (simp add: new_block_state_def prev_of_def block_header_state.defs)
  ultimately show ?thesis
    using bft unfolding s(2) by (simp add: follows_def new_block_state_def block_header_state.defs)
qed

section \<open>Changes of known blocks\<close>

lemma one_root_links:
  assumes "one_root g" "\<And>j. map_option (\<lambda>b. (prev_of b, bs_block_num b)) (g' j) = map_option (\<lambda>b. (prev_of b, bs_block_num b)) (g j)"
  shows "one_root g'"
proof -
  have n: "g' j = None \<longleftrightarrow> g j = None" for j using assms(2) [of j] by (cases "g j"; cases "g' j") auto
  have s: "\<exists>b'. g j = Some b' \<and> prev_of b' = prev_of b \<and> bs_block_num b' = bs_block_num b" if "g' j = Some b" for j b
    using assms(2) [of j] that by (cases "g j") auto
  show ?thesis unfolding one_root_def
  proof (intro allI impI)
    fix i j b c
    assume b: "g' i = Some b" and c: "g' j = Some c" and r: "g' (prev_of b) = None"
    obtain b' where b': "g i = Some b'" "prev_of b' = prev_of b" "bs_block_num b' = bs_block_num b" using s [OF b] by blast
    obtain c' where c': "g j = Some c'" "prev_of c' = prev_of c" "bs_block_num c' = bs_block_num c" using s [OF c] by blast
    have r': "g (prev_of b') = None" using r unfolding n b'(2) .
    show "bs_block_num b \<le> bs_block_num c \<and> (g' (prev_of c) = None \<longrightarrow> prev_of b = prev_of c)"
    proof (intro conjI impI)
      show "bs_block_num b \<le> bs_block_num c" using one_rootD(1) [OF assms(1) b'(1) c'(1) r'] unfolding b'(3) c'(3) .
      assume "g' (prev_of c) = None"
      then have "g (prev_of c') = None" unfolding n c'(2) .
      from one_rootD(2) [OF assms(1) b'(1) c'(1) r' this] show "prev_of b = prev_of c" unfolding b'(2) c'(2) .
    qed
  qed
qed

lemma modify_forks:
  assumes ok: "forks_ok en db" and b: "get_block db i = Some b"
    and f: "state_ok en (f b)" "bs_id (f b) = i" "prev_of (f b) = prev_of b" "bs_block_num (f b) = bs_block_num b"
      "bft_irreversible_blocknum (f b) = bft_irreversible_blocknum b"
  shows "forks_ok en (fk_modify i f db)"
proof -
  note m = fk_modify_ok [where f = f, OF forks_okD(1) [OF ok] b f(2)]
  have "one_root (get_block (fk_modify i f db))"
    by (rule one_root_links [OF forks_okD(3) [OF ok]]) (simp add: m(2) b f)
  moreover have "bft_monotone (fk_modify i f db)"
    using forks_okD(4) [OF ok] b f unfolding bft_monotone_def m(2) by (auto split: if_splits)
  ultimately show ?thesis
    using m(1) f(1) forks_okD(2) [OF ok] unfolding forks_ok_def by (auto simp: m(2) split: if_splits)
qed

lemma descendant_number:
  assumes "numbered db" "(child db)\<^sup>*\<^sup>* i j" "get_block db i = Some b" "get_block db j = Some c"
  shows "bs_block_num b \<le> bs_block_num c"
proof -
  obtain xs where "linked db c xs b" using linked_of_descendant [OF assms(2,3,4)] ..
  from linked_numbers(1) [OF assms(1) this assms(4)] show ?thesis by (simp add: word_le_nat_alt)
qed

lemma state_ok_raised: "state_ok en c \<Longrightarrow> n \<le> bs_block_num c \<Longrightarrow> state_ok en (raised n c)"
  by (simp add: state_ok_def counters_ok_def raised_def prev_of_def block_header_state.defs)

lemma bft_forks:
  assumes ok: "forks_ok en db" and b: "get_block db i = Some b"
  shows "\<exists>db'. set_bft_irreversible db i = Some (Inr db') \<and> forks_ok en db'"
proof -
  have "bft_irreversible_blocknum b \<le> bs_block_num b" using forks_okD(2) [OF ok b] by (simp add: state_ok_def)
  from set_bft_result [OF forks_okD(1,4) [OF ok] b this] obtain db' where
    r: "set_bft_irreversible db i = Some (Inr db')" "container_ok db'" "bft_monotone db'"
    and g: "get_block db' j =
      (if (child db)\<^sup>*\<^sup>* i j then map_option (raised (bs_block_num b)) (get_block db j) else get_block db j)" for j by blast
  have "state_ok en c'" if j: "get_block db' j = Some c'" for j c'
  proof -
    obtain c where c: "get_block db j = Some c" "c' = (if (child db)\<^sup>*\<^sup>* i j then raised (bs_block_num b) c else c)"
      using j unfolding g by (auto split: if_splits)
    show ?thesis unfolding c(2)
      using forks_okD(2) [OF ok c(1)] descendant_number [OF forks_numbered [OF ok] _ b c(1)] by (simp add: state_ok_raised)
  qed
  moreover have "one_root (get_block db')"
    by (rule one_root_links [OF forks_okD(3) [OF ok]]) (simp add: g option.map_comp comp_def)
  ultimately show ?thesis using r unfolding forks_ok_def by blast
qed

lemma confirm_forks:
  assumes ok: "forks_ok en db" and r: "fork_confirm en db c = Some (Inr db')"
  shows "forks_ok en db'"
proof -
  obtain b b' where b: "get_block db (hc_block_id c) = Some b" "confirm_block en b c = Inr b'"
    using r by (auto simp: fork_confirm_def split: option.splits sum.splits)
  let ?d = "fk_modify (hc_block_id c) (\<lambda>_. b') db"
  obtain cs where cs: "b' = b\<lparr>confirmations := cs\<rparr>" using b(2) by (auto simp: confirm_block_def)
  have id: "bs_id b' = hc_block_id c" using forks_okD(5) [OF ok b(1)] cs by simp
  have d: "forks_ok en ?d"
    using forks_okD(2) [OF ok b(1)] cs id
    by (intro modify_forks [OF ok b(1)]) (simp_all add: state_ok_def counters_ok_def prev_of_def block_header_state.defs)
  have g: "get_block ?d (hc_block_id c) = Some b'"
    using fk_modify_ok(2) [where f = "\<lambda>_. b'", OF forks_okD(1) [OF ok] b(1) id] by simp
  from r b have "set_bft_irreversible ?d (hc_block_id c) = Some (Inr db') \<or> db' = ?d"
    by (auto simp: fork_confirm_def Let_def split: if_splits)
  with bft_forks [OF d g] d show ?thesis by auto
qed

section \<open>Histories of a fork database\<close>

text \<open>The calls a node makes: it starts with the genesis block, then blocks are received or produced, found
  valid or not, marked as part of the current chain, and confirmed.  Numbers stay below the last
  32-bit number.\<close>

inductive fork_history :: "('k, 's) header_env \<Rightarrow> ('k, 's) fork_db \<Rightarrow> bool" for en where
  fork_start: "fork_set en empty_fork_db (new_block_state (genesis_header_state en a k t c) h) = Inr db \<Longrightarrow> fork_history en db"
| fork_received: "fork_history en db \<Longrightarrow> \<forall>p. get_block db (bh_previous b) = Some p \<longrightarrow> bs_block_num p \<noteq> - 1 \<Longrightarrow>
    fork_add_block en db b skip = Inr (db', r) \<Longrightarrow> fork_history en db'"
| fork_produced: "fork_history en db \<Longrightarrow> follows en db n \<Longrightarrow> fork_add db n skip = Inr db' \<Longrightarrow> fork_history en db'"
| fork_judged: "fork_history en db \<Longrightarrow> set_validity db n valid = Inr db' \<Longrightarrow> fork_history en db'"
| fork_marked: "fork_history en db \<Longrightarrow> mark_in_current_chain db n current = Inr db' \<Longrightarrow> fork_history en db'"
| fork_confirmed: "fork_history en db \<Longrightarrow> fork_confirm en db conf = Some (Inr db') \<Longrightarrow> fork_history en db'"

lemma genesis_state_ok:
  assumes "\<And>n. he_endian_reverse_u32 en (he_endian_reverse_u32 en n) = n" "he_endian_reverse_u32 en 0 = 0"
  shows "state_ok en (new_block_state (genesis_header_state en a k t c) h)"
proof -
  have "num_from_id en null_digest = 0" by (simp add: num_from_id_def null_digest_def assms(2))
  moreover have "counters_ok (genesis_header_state en a k t c)" by (rule genesis_counters)
  ultimately show ?thesis
    by (simp add: state_ok_def counters_ok_def new_block_state_def prev_of_def block_header_state.defs
      genesis_header_state_def Let_def header_block_num_def num_from_header_id [OF assms(1)])
qed

lemma start_forks:
  assumes "state_ok en s" "fork_set en empty_fork_db s = Inr db" "get_block empty_fork_db (prev_of s) = None"
    "prev_of s \<noteq> bs_id s"
  shows "forks_ok en db"
proof -
  obtain d where d: "fk_insert s empty_fork_db = (d, True)" "db = d \<or> db = d\<lparr>fk_head := Some s\<rparr>"
    using assms(2) by (auto simp: fork_set_def split: prod.splits option.splits if_splits)
  note i = fk_insert_ok [OF container_ok_empty d(1)]
  have g: "get_block d j = (if j = bs_id s then Some s else None)" for j
    unfolding i(2) by (simp add: get_block_def empty_fork_db_def)
  have "forks_ok en d"
    using i(1) assms(1,4) unfolding forks_ok_def one_root_def bft_monotone_def g by (auto split: if_splits)
  with d(2) show ?thesis by auto
qed

lemma validity_forks:
  assumes ok: "forks_ok en db" and r: "set_validity db n valid = Inr db'"
  shows "forks_ok en db'"
proof (cases valid)
  case False
  with r fork_remove_forks [OF ok] show ?thesis by (simp add: set_validity_def)
next
  case True
  then have e: "db' = fk_modify (bs_id n) (\<lambda>b. b\<lparr>bk_validated := True\<rparr>) db" using r by (simp add: set_validity_def)
  show ?thesis
  proof (cases "get_block db (bs_id n)")
    case None
    with e ok show ?thesis by (simp add: fk_modify_def)
  next
    case (Some b)
    show ?thesis unfolding e using forks_okD(2,5) [OF ok Some]
      by (intro modify_forks [OF ok Some]) (simp_all add: state_ok_def counters_ok_def prev_of_def block_header_state.defs)
  qed
qed

lemma mark_forks:
  assumes ok: "forks_ok en db" and r: "mark_in_current_chain db n v = Inr db'"
  shows "forks_ok en db'"
proof (cases "bk_in_current_chain n = v")
  case True
  with r ok show ?thesis by (simp add: mark_in_current_chain_def)
next
  case False
  then obtain b where b: "get_block db (bs_id n) = Some b" and e: "db' = fk_modify (bs_id n) (\<lambda>b. b\<lparr>bk_in_current_chain := v\<rparr>) db"
    using r by (auto simp: mark_in_current_chain_def)
  show ?thesis unfolding e using forks_okD(2,5) [OF ok b]
    by (intro modify_forks [OF ok b]) (simp_all add: state_ok_def counters_ok_def prev_of_def block_header_state.defs)
qed

lemma history_forks:
  assumes "fork_history en db"
    and rev: "\<And>n. he_endian_reverse_u32 en (he_endian_reverse_u32 en n) = n" "he_endian_reverse_u32 en 0 = 0"
  shows "forks_ok en db"
  using assms(1)
proof induction
  case (fork_start a k t c h db)
  let ?s = "new_block_state (genesis_header_state en a k t c) h"
  have s: "state_ok en ?s" by (rule genesis_state_ok [OF rev])
  have "prev_of ?s \<noteq> bs_id ?s"
  proof
    assume "prev_of ?s = bs_id ?s"
    with state_ok_num(1,2) [OF s] show False by simp
  qed
  then show ?case by (intro start_forks [OF s fork_start]) (simp_all add: get_block_def empty_fork_db_def)
next
  case (fork_received db b skip db' r)
  obtain p where p: "get_block db (bh_previous b) = Some p" "block_state_of_block en p b skip = Inr r"
    "fork_add db r True = Inr db'"
    using fork_received(3) by (auto simp: fork_add_block_def split: option.splits)
  have "bs_block_num p \<noteq> - 1" using fork_received(2) p(1) by blast
  from next_follows [OF fork_received(4) rev(1) p(1) this p(2)] show ?case
    by (rule fork_add_forks [OF fork_received(4) _ p(3)])
next
  case (fork_produced db n skip db')
  from fork_add_forks [OF this(4,2,3)] show ?case .
next
  case (fork_judged db n valid db')
  from validity_forks [OF this(3,2)] show ?case .
next
  case (fork_marked db n current db')
  from mark_forks [OF this(3,2)] show ?case .
next
  case (fork_confirmed db conf db')
  from confirm_forks [OF this(3,2)] show ?case .
qed

section \<open>A history with a fork\<close>

text \<open>The hash of a header is its time; blocks are made for a parent, the one at a place of the index by
  number, and a slot.\<close>

definition fork_demo_env :: "(nat, nat) header_env" where
  "fork_demo_env = demo_header_env\<lparr>he_hash_header := (\<lambda>h. Digest 0 (ucast (bh_timestamp h)) 0 0)\<rparr>"

definition fork_demo_start :: "(nat, nat) fork_db result" where
  "fork_demo_start = fork_set fork_demo_env empty_fork_db
     (new_block_state (genesis_header_state fork_demo_env 1 7 1 null_digest)
       (bs_header (genesis_header_state fork_demo_env 1 7 1 null_digest)))"

definition fork_demo_parent :: "(nat, nat) fork_db \<Rightarrow> nat \<Rightarrow> (nat, nat) block_state result" where
  "fork_demo_parent db k =
    (case get_block db (snd (fk_by_num db ! k)) of None \<Rightarrow> Inl undefined_behaviour | Some p \<Rightarrow>
     SNAX_ASSERT (bs_block_num p \<noteq> - 1) undefined_behaviour (Inr p))"

definition fork_demo_block :: "(nat, nat) fork_db \<Rightarrow> nat \<times> block_timestamp \<Rightarrow> (nat, nat) signed_block_header result" where
  "fork_demo_block db e =
    ebind (fork_demo_parent db (fst e)) (\<lambda>p.
    ebind (generate_next fork_demo_env (block_header_state.truncate p) (snd e)) (\<lambda>r.
    Inr ((bs_header r)\<lparr>bh_confirmed := 0, bh_producer_signature := 7\<rparr>)))"

definition fork_demo_receive :: "(nat, nat) fork_db \<Rightarrow> nat \<times> block_timestamp \<Rightarrow> (nat, nat) fork_db result" where
  "fork_demo_receive db e =
    ebind (fork_demo_block db e) (\<lambda>b.
    SNAX_ASSERT (case get_block db (bh_previous b) of None \<Rightarrow> True | Some q \<Rightarrow> bs_block_num q \<noteq> - 1) undefined_behaviour (
    ebind (fork_add_block fork_demo_env db b False) (\<lambda>d. Inr (fst d))))"

definition fork_demo_run :: "(nat \<times> block_timestamp) list \<Rightarrow> (nat, nat) fork_db result" where
  "fork_demo_run es = ebind fork_demo_start (\<lambda>db. efold fork_demo_receive db es)"

lemma fork_demo_run_history:
  assumes "fork_demo_run es = Inr db"
  shows "fork_history fork_demo_env db"
proof -
  obtain d where d: "fork_demo_start = Inr d" "efold fork_demo_receive d es = Inr db"
    using assms unfolding fork_demo_run_def ebind_eq_Inr_iff by blast
  show ?thesis
  proof (rule efold_invariant [OF d(2)])
    show "fork_history fork_demo_env d" using d(1) unfolding fork_demo_start_def by (rule fork_start)
  next
    fix s e s'
    assume h: "fork_history fork_demo_env s" and r: "fork_demo_receive s e = Inr s'"
    from r obtain b d where q: "case get_block s (bh_previous b) of None \<Rightarrow> True | Some p \<Rightarrow> bs_block_num p \<noteq> - 1"
      and a: "fork_add_block fork_demo_env s b False = Inr (s', d)"
      by (auto simp: fork_demo_receive_def)
    show "fork_history fork_demo_env s'" by (rule fork_received [OF h _ a]) (use q in auto)
  qed
qed

definition fork_demo :: "(nat, nat) fork_db result" where
  "fork_demo = fork_demo_run [(0, 2), (0, 3), (1, 4)]"

lemma fork_demo_history: "fork_demo = Inr db \<Longrightarrow> fork_history fork_demo_env db"
  unfolding fork_demo_def by (rule fork_demo_run_history)

lemma fork_demo_runs:
  obtains db i j b c where "fork_demo = Inr db" "get_block db i = Some b" "get_block db j = Some c" "i \<noteq> j"
proof -
  have "ebind fork_demo (\<lambda>db. let is = map snd (fk_by_num db) in
      Inr (map (\<lambda>i. map_option bs_block_num (get_block db i)) is, distinct is)) = Inr ([Some 2, Some 2, Some 3], True)"
    by code_simp
  then obtain db where db: "fork_demo = Inr db"
    "map (\<lambda>i. map_option bs_block_num (get_block db i)) (map snd (fk_by_num db)) = [Some 2, Some 2, Some 3]"
    "distinct (map snd (fk_by_num db))"
    unfolding ebind_eq_Inr_iff Let_def by auto
  then obtain i j k where "map snd (fk_by_num db) = [i, j, k]"
    by (auto simp: map_eq_Cons_conv)
  with db that show thesis by auto
qed

lemma fork_demo_reverse:
  "he_endian_reverse_u32 fork_demo_env (he_endian_reverse_u32 fork_demo_env n) = n" "he_endian_reverse_u32 fork_demo_env 0 = 0"
  by (simp_all add: fork_demo_env_def demo_header_env_def)

section \<open>Pruning a fork that was received first\<close>




end
