(* ===== verification/Packed_Transactions.thy ===== *)
theory Packed_Transactions
  imports Apply_Context
begin

text \<open>
  Packed and signed transactions (\<^verbatim>\<open>transaction.hpp\<close>, \<^verbatim>\<open>transaction.cpp\<close>): their
  sizes, compression, the copy kept of the unpacked transaction, and the recovery of the keys that signed, with its cache.

  Serialization, compression, hashing and the recovery of a key are those of the fc and zlib
  libraries, and parameters.  The cache of a thread is an argument, returned updated, also when an
  exception is thrown.
\<close>

section \<open>The library\<close>

text \<open>Decompression hands its output on in pieces, and tells whether the compressed data was well formed.\<close>

record ('k, 's) trx_codec =
  tk_pack :: "transaction \<Rightarrow> bytes"
  tk_unpack :: "bytes \<Rightarrow> transaction result"
  tk_pack_context_free_data :: "bytes list \<Rightarrow> bytes"
  tk_unpack_context_free_data :: "bytes \<Rightarrow> bytes list result"
  tk_pack_signatures :: "'s list \<Rightarrow> bytes"
  tk_pack_bytes :: "bytes \<Rightarrow> bytes"
  tk_pack_digest :: "digest_type \<Rightarrow> bytes"
  tk_compress :: "bytes \<Rightarrow> bytes"
  tk_inflate :: "bytes \<Rightarrow> bytes list \<times> bool"
  tk_sha256 :: "bytes \<Rightarrow> digest_type"
  tk_recover :: "'s \<Rightarrow> digest_type \<Rightarrow> 'k result"

abbreviation tx_too_big :: exception where "tx_too_big \<equiv> chain_exception ''tx_too_big''"
abbreviation tx_duplicate_sig :: exception where "tx_duplicate_sig \<equiv> chain_exception ''tx_duplicate_sig''"
abbreviation unhandled_exception :: exception where "unhandled_exception \<equiv> chain_exception ''unhandled_exception''"
abbreviation unknown_transaction_compression :: exception where
  "unknown_transaction_compression \<equiv> chain_exception ''unknown_transaction_compression''"

section \<open>Signed transactions\<close>

record 's signed_transaction = transaction +
  st_signatures :: "'s list"
  st_context_free_data :: "bytes list"

definition transaction_id :: "('k, 's) trx_codec \<Rightarrow> transaction \<Rightarrow> digest_type" where
  "transaction_id cdc t = tk_sha256 cdc (tk_pack cdc t)"

definition trx_sig_digest :: "('k, 's) trx_codec \<Rightarrow> transaction \<Rightarrow> digest_type \<Rightarrow> bytes list \<Rightarrow> digest_type" where
  "trx_sig_digest cdc t chain_id cfd =
    tk_sha256 cdc (tk_pack_digest cdc chain_id @ tk_pack cdc t @
      tk_pack_digest cdc (if length cfd \<noteq> 0 then tk_sha256 cdc (tk_pack_context_free_data cdc cfd) else zero_digest))"

text \<open>The cache keeps its entries in the order of their insertion, and one for a signature.\<close>

record ('k, 's) cached_pub_key =
  ck_trx_id :: digest_type
  ck_pub_key :: 'k
  ck_sig :: 's

type_synonym ('k, 's) recovery_cache = "('k, 's) cached_pub_key list"

definition find_sig :: "('k, 's) recovery_cache \<Rightarrow> 's \<Rightarrow> ('k, 's) cached_pub_key option" where
  "find_sig cache s = find (\<lambda>c. ck_sig c = s) cache"

definition cache_emplace :: "('k, 's) cached_pub_key \<Rightarrow> ('k, 's) recovery_cache \<Rightarrow> ('k, 's) recovery_cache" where
  "cache_emplace c cache = (if find_sig cache (ck_sig c) = None then cache @ [c] else cache)"

definition recover_key ::
  "('k, 's) trx_codec \<Rightarrow> digest_type \<Rightarrow> digest_type \<Rightarrow> bool \<Rightarrow> ('k, 's) recovery_cache \<Rightarrow> 's \<Rightarrow>
   ('k, 's) recovery_cache \<times> 'k result" where
  "recover_key cdc trx_id digest use_cache cache sig =
    (if use_cache then
       case find_sig cache sig of
         Some c \<Rightarrow> if ck_trx_id c = trx_id then (cache, Inr (ck_pub_key c))
                    else (case tk_recover cdc sig digest of
                       Inl e \<Rightarrow> (cache, Inl e)
                     | Inr k \<Rightarrow> (cache_emplace \<lparr>ck_trx_id = trx_id, ck_pub_key = k, ck_sig = sig\<rparr> cache, Inr k))
       | None \<Rightarrow> (case tk_recover cdc sig digest of
           Inl e \<Rightarrow> (cache, Inl e)
         | Inr k \<Rightarrow> (cache_emplace \<lparr>ck_trx_id = trx_id, ck_pub_key = k, ck_sig = sig\<rparr> cache, Inr k))
     else (cache, tk_recover cdc sig digest))"

fun recover_keys ::
  "('k::linorder, 's) trx_codec \<Rightarrow> digest_type \<Rightarrow> digest_type \<Rightarrow> bool \<Rightarrow> bool \<Rightarrow> ('k, 's) recovery_cache \<Rightarrow> 'k list \<Rightarrow> 's list \<Rightarrow>
   ('k, 's) recovery_cache \<times> 'k list result" where
  "recover_keys cdc trx_id digest allow_duplicate_keys use_cache cache recovered [] = (cache, Inr recovered)"
| "recover_keys cdc trx_id digest allow_duplicate_keys use_cache cache recovered (sig # sigs) =
    (case recover_key cdc trx_id digest use_cache cache sig of
       (cache, Inl e) \<Rightarrow> (cache, Inl e)
     | (cache, Inr recov) \<Rightarrow>
         if allow_duplicate_keys \<or> recov \<notin> set recovered
         then recover_keys cdc trx_id digest allow_duplicate_keys use_cache cache (set_insert recov recovered) sigs
         else (cache, Inl tx_duplicate_sig))"

definition recovery_cache_size :: nat where "recovery_cache_size = 1000"

definition get_signature_keys ::
  "('k::linorder, 's) trx_codec \<Rightarrow> transaction \<Rightarrow> 's list \<Rightarrow> digest_type \<Rightarrow> bytes list \<Rightarrow> bool \<Rightarrow> bool \<Rightarrow>
   ('k, 's) recovery_cache \<Rightarrow> ('k, 's) recovery_cache \<times> 'k list result" where
  "get_signature_keys cdc t signatures chain_id cfd allow_duplicate_keys use_cache cache =
    (case recover_keys cdc (transaction_id cdc t) (trx_sig_digest cdc t chain_id cfd) allow_duplicate_keys use_cache cache [] signatures of
       (cache, Inl e) \<Rightarrow> (cache, fc_rethrow (Inl e))
     | (cache, Inr ks) \<Rightarrow>
         (if use_cache then drop (length cache - recovery_cache_size) cache else cache, Inr ks))"

section \<open>Packed transactions\<close>

record 's packed_transaction =
  pt_signatures :: "'s list"
  pt_compression :: u8
  pt_packed_context_free_data :: bytes
  pt_packed_trx :: bytes
  pt_unpacked_trx :: "transaction option"

abbreviation (input) compression_none :: u8 where "compression_none \<equiv> 0"
abbreviation (input) compression_zlib :: u8 where "compression_zlib \<equiv> 1"

definition get_unprunable_size :: "'s packed_transaction \<Rightarrow> u32 result" where
  "get_unprunable_size pt =
    (let size = 16 + of_nat (length (pt_packed_trx pt)) :: u64 in
     SNAX_ASSERT (size \<le> 0xFFFFFFFF) tx_too_big (Inr (ucast size)))"

definition get_prunable_size :: "('k, 's) trx_codec \<Rightarrow> 's packed_transaction \<Rightarrow> u32 result" where
  "get_prunable_size cdc pt =
    (let size = of_nat (length (tk_pack_signatures cdc (pt_signatures pt))) + of_nat (length (pt_packed_context_free_data pt)) :: u64 in
     SNAX_ASSERT (size \<le> 0xFFFFFFFF) tx_too_big (Inr (ucast size)))"

definition packed_digest :: "('k, 's) trx_codec \<Rightarrow> 's packed_transaction \<Rightarrow> digest_type" where
  "packed_digest cdc pt =
    (let prunable = tk_sha256 cdc (tk_pack_signatures cdc (pt_signatures pt) @ tk_pack_bytes cdc (pt_packed_context_free_data pt))
     in tk_sha256 cdc ([pt_compression pt] @ tk_pack_bytes cdc (pt_packed_trx pt) @ tk_pack_digest cdc prunable))"

text \<open>The limiter between the decompressor and its output.\<close>

definition read_limiter_write :: "nat \<Rightarrow> nat \<times> bytes \<Rightarrow> bytes \<Rightarrow> (nat \<times> bytes) result" where
  "read_limiter_write limit st s =
    SNAX_ASSERT (fst st + length s \<le> limit) tx_decompression_error (Inr (fst st + length s, snd st @ s))"

definition zlib_decompress :: "('k, 's) trx_codec \<Rightarrow> bytes \<Rightarrow> bytes result" where
  "zlib_decompress cdc data =
    ebind (efold (read_limiter_write (1 * 1024 * 1024)) (0, []) (fst (tk_inflate cdc data))) (\<lambda>st.
    if snd (tk_inflate cdc data) then Inr (snd st) else Inl unhandled_exception)"

definition unpack_context_free_data :: "('k, 's) trx_codec \<Rightarrow> bytes \<Rightarrow> bytes list result" where
  "unpack_context_free_data cdc data = (if length data = 0 then Inr [] else tk_unpack_context_free_data cdc data)"

definition zlib_decompress_context_free_data :: "('k, 's) trx_codec \<Rightarrow> bytes \<Rightarrow> bytes list result" where
  "zlib_decompress_context_free_data cdc data =
    (if length data = 0 then Inr [] else ebind (zlib_decompress cdc data) (unpack_context_free_data cdc))"

definition zlib_decompress_transaction :: "('k, 's) trx_codec \<Rightarrow> bytes \<Rightarrow> transaction result" where
  "zlib_decompress_transaction cdc data = ebind (zlib_decompress cdc data) (tk_unpack cdc)"

definition pack_context_free_data :: "('k, 's) trx_codec \<Rightarrow> bytes list \<Rightarrow> bytes" where
  "pack_context_free_data cdc cfd = (if length cfd = 0 then [] else tk_pack_context_free_data cdc cfd)"

definition zlib_compress_context_free_data :: "('k, 's) trx_codec \<Rightarrow> bytes list \<Rightarrow> bytes" where
  "zlib_compress_context_free_data cdc cfd =
    (if length cfd = 0 then [] else tk_compress cdc (pack_context_free_data cdc cfd))"

definition zlib_compress_transaction :: "('k, 's) trx_codec \<Rightarrow> transaction \<Rightarrow> bytes" where
  "zlib_compress_transaction cdc t = tk_compress cdc (tk_pack cdc t)"

definition get_raw_transaction :: "('k, 's) trx_codec \<Rightarrow> 's packed_transaction \<Rightarrow> bytes result" where
  "get_raw_transaction cdc pt = fc_rethrow
    (if pt_compression pt = compression_none then Inr (pt_packed_trx pt)
     else if pt_compression pt = compression_zlib then zlib_decompress cdc (pt_packed_trx pt)
     else Inl unknown_transaction_compression)"

definition get_context_free_data_of :: "('k, 's) trx_codec \<Rightarrow> 's packed_transaction \<Rightarrow> bytes list result" where
  "get_context_free_data_of cdc pt = fc_rethrow
    (if pt_compression pt = compression_none then unpack_context_free_data cdc (pt_packed_context_free_data pt)
     else if pt_compression pt = compression_zlib then zlib_decompress_context_free_data cdc (pt_packed_context_free_data pt)
     else Inl unknown_transaction_compression)"

definition local_unpack :: "('k, 's) trx_codec \<Rightarrow> 's packed_transaction \<Rightarrow> 's packed_transaction result" where
  "local_unpack cdc pt =
    (case pt_unpacked_trx pt of
       Some _ \<Rightarrow> Inr pt
     | None \<Rightarrow> fc_rethrow (ebind
         (if pt_compression pt = compression_none then tk_unpack cdc (pt_packed_trx pt)
          else if pt_compression pt = compression_zlib then zlib_decompress_transaction cdc (pt_packed_trx pt)
          else Inl unknown_transaction_compression) (\<lambda>t.
         Inr (pt\<lparr>pt_unpacked_trx := Some t\<rparr>))))"

definition get_transaction :: "('k, 's) trx_codec \<Rightarrow> 's packed_transaction \<Rightarrow> ('s packed_transaction \<times> transaction) result" where
  "get_transaction cdc pt = ebind (local_unpack cdc pt) (\<lambda>pt. Inr (pt, the (pt_unpacked_trx pt)))"

definition packed_expiration :: "('k, 's) trx_codec \<Rightarrow> 's packed_transaction \<Rightarrow> ('s packed_transaction \<times> u32) result" where
  "packed_expiration cdc pt = ebind (local_unpack cdc pt) (\<lambda>pt. Inr (pt, th_expiration (the (pt_unpacked_trx pt))))"

definition packed_id :: "('k, 's) trx_codec \<Rightarrow> 's packed_transaction \<Rightarrow> ('s packed_transaction \<times> digest_type) result" where
  "packed_id cdc pt = ebind (local_unpack cdc pt) (\<lambda>pt. ebind (get_transaction cdc pt) (\<lambda>(pt, t). Inr (pt, transaction_id cdc t)))"

definition get_uncached_id :: "('k, 's) trx_codec \<Rightarrow> 's packed_transaction \<Rightarrow> digest_type result" where
  "get_uncached_id cdc pt =
    ebind (get_raw_transaction cdc pt) (\<lambda>raw. ebind (tk_unpack cdc raw) (\<lambda>t. Inr (transaction_id cdc t)))"

definition get_signed_transaction ::
  "('k, 's) trx_codec \<Rightarrow> 's packed_transaction \<Rightarrow> ('s packed_transaction \<times> 's signed_transaction) result" where
  "get_signed_transaction cdc pt = fc_rethrow
    (if pt_compression pt = compression_none \<or> pt_compression pt = compression_zlib then
       ebind (get_transaction cdc pt) (\<lambda>(pt, t).
       ebind (if pt_compression pt = compression_none
              then unpack_context_free_data cdc (pt_packed_context_free_data pt)
              else zlib_decompress_context_free_data cdc (pt_packed_context_free_data pt)) (\<lambda>cfd.
       Inr (pt, transaction.extend t \<lparr>st_signatures = pt_signatures pt, st_context_free_data = cfd\<rparr>)))
     else Inl unknown_transaction_compression)"

definition set_transaction ::
  "('k, 's) trx_codec \<Rightarrow> transaction \<Rightarrow> bytes list \<Rightarrow> u8 \<Rightarrow> 's packed_transaction \<Rightarrow> 's packed_transaction result" where
  "set_transaction cdc t cfd compression pt =
    (if compression = compression_none then
       Inr (pt\<lparr>pt_packed_trx := tk_pack cdc t, pt_packed_context_free_data := pack_context_free_data cdc cfd,
               pt_compression := compression\<rparr>)
     else if compression = compression_zlib then
       Inr (pt\<lparr>pt_packed_trx := zlib_compress_transaction cdc t,
               pt_packed_context_free_data := zlib_compress_context_free_data cdc cfd, pt_compression := compression\<rparr>)
     else Inl unknown_transaction_compression)"

definition pack_signed_transaction ::
  "('k, 's) trx_codec \<Rightarrow> 's signed_transaction \<Rightarrow> u8 \<Rightarrow> 's packed_transaction result" where
  "pack_signed_transaction cdc t compression =
    set_transaction cdc (transaction.truncate t) (st_context_free_data t) compression
      \<lparr>pt_signatures = st_signatures t, pt_compression = 0, pt_packed_context_free_data = [], pt_packed_trx = [],
       pt_unpacked_trx = None\<rparr>"

section \<open>Keys and their cache\<close>

text \<open>What the cache holds for a transaction is what would be recovered.\<close>

definition keys_sound :: "('k, 's) trx_codec \<Rightarrow> digest_type \<Rightarrow> digest_type \<Rightarrow> ('k, 's) recovery_cache \<Rightarrow> bool" where
  "keys_sound cdc trx_id digest cache \<longleftrightarrow>
    (\<forall>c\<in>set cache. ck_trx_id c = trx_id \<longrightarrow> tk_recover cdc (ck_sig c) digest = Inr (ck_pub_key c))"

lemma find_sig_Some: "find_sig cache s = Some c \<Longrightarrow> c \<in> set cache \<and> ck_sig c = s"
  by (auto simp: find_sig_def find_Some_iff)

lemma find_sig_append: "find_sig (xs @ ys) s = (case find_sig xs s of None \<Rightarrow> find_sig ys s | Some c \<Rightarrow> Some c)"
  unfolding find_sig_def by (induction xs) auto

lemma keys_sound_emplace:
  "keys_sound cdc i d cache \<Longrightarrow> (ck_trx_id c = i \<Longrightarrow> tk_recover cdc (ck_sig c) d = Inr (ck_pub_key c)) \<Longrightarrow>
    keys_sound cdc i d (cache_emplace c cache)"
  by (auto simp: keys_sound_def cache_emplace_def)

lemma recover_key_sound:
  assumes "recover_key cdc i d u cache sig = (cache', r)" "keys_sound cdc i d cache"
  shows "r = tk_recover cdc sig d" "keys_sound cdc i d cache'"
    "i' \<noteq> i \<Longrightarrow> keys_sound cdc i' d' cache \<Longrightarrow> keys_sound cdc i' d' cache'"
proof -
  have hit: "tk_recover cdc sig d = Inr (ck_pub_key c)" if "find_sig cache sig = Some c" "ck_trx_id c = i" for c
    using find_sig_Some [OF that(1)] that(2) assms(2) by (auto simp: keys_sound_def)
  then show "r = tk_recover cdc sig d"
    using assms(1) by (auto simp: recover_key_def split: if_splits option.splits sum.splits)
  show "keys_sound cdc i d cache'"
    using assms hit by (auto simp: recover_key_def intro!: keys_sound_emplace split: if_splits option.splits sum.splits)
  show "keys_sound cdc i' d' cache'" if "i' \<noteq> i" "keys_sound cdc i' d' cache"
    using assms(1) that by (auto simp: recover_key_def intro!: keys_sound_emplace split: if_splits option.splits sum.splits)
qed

lemma recover_keys_sound:
  assumes "keys_sound cdc i d cache"
  shows "snd (recover_keys cdc i d allow u cache rec sigs) = snd (recover_keys cdc i d allow False cache0 rec sigs) \<and>
    keys_sound cdc i d (fst (recover_keys cdc i d allow u cache rec sigs)) \<and>
    (i' \<noteq> i \<longrightarrow> keys_sound cdc i' d' cache \<longrightarrow> keys_sound cdc i' d' (fst (recover_keys cdc i d allow u cache rec sigs)))"
  using assms
proof (induction sigs arbitrary: cache cache0 rec)
  case (Cons sig sigs)
  obtain cache' r where k: "recover_key cdc i d u cache sig = (cache', r)" by (cases "recover_key cdc i d u cache sig")
  note a = recover_key_sound [OF k Cons.prems]
  have e: "recover_key cdc i d False cache0 sig = (cache0, r)" using a(1) by (simp add: recover_key_def)
  from Cons.IH [OF a(2), of _ cache0] a(2,3) show ?case
    by (simp add: k e split: sum.splits)
qed simp

text \<open>The keys that are recovered are those of the signatures.\<close>

lemma recover_keys_set:
  assumes "recover_keys cdc i d allow False cache rec sigs = (cache', Inr ks)" "distinct rec"
  shows "set ks = set rec \<union> {k. \<exists>s\<in>set sigs. tk_recover cdc s d = Inr k} \<and> distinct ks \<and>
    (\<not> allow \<longrightarrow> length ks = length rec + length sigs)"
  using assms
proof (induction sigs arbitrary: rec cache)
  case (Cons sig sigs)
  then obtain k where k: "tk_recover cdc sig d = Inr k" "allow \<or> k \<notin> set rec"
    "recover_keys cdc i d allow False cache (set_insert k rec) sigs = (cache', Inr ks)"
    by (auto simp: recover_key_def split: sum.splits if_splits)
  have "distinct (set_insert k rec)" "set (set_insert k rec) = insert k (set rec)"
    "\<not> allow \<longrightarrow> length (set_insert k rec) = length rec + 1"
    using Cons.prems(2) k(2) by (auto simp: set_insert_def set_insort_key distinct_insort)
  with Cons.IH [OF k(3)] k(1) show ?case by auto
qed simp

lemma recover_key_length: "length (fst (recover_key cdc i d u cache sig)) \<le> Suc (length cache)"
  by (auto simp: recover_key_def cache_emplace_def split: option.split sum.split)

lemma recover_keys_length: "length (fst (recover_keys cdc i d allow u cache rec sigs)) \<le> length cache + length sigs"
proof (induction sigs arbitrary: cache rec)
  case (Cons sig sigs)
  obtain c q where c: "recover_key cdc i d u cache sig = (c, q)" by (cases "recover_key cdc i d u cache sig")
  then have l: "length c \<le> Suc (length cache)" using recover_key_length [of cdc i d u cache sig] by simp
  show ?case using l c Cons.IH [of c] le_trans [OF Cons.IH [of c]] by (auto split: sum.split)
qed simp

text \<open>C8. Key recovery with the cache.  When what the cache holds for a transaction was recovered from the same digest, the keys
  found with the cache are those found without it, and they are exactly the keys of the signatures, each once; the cache
  stays sound for this transaction and for every other. After a successful recovery it holds at most a thousand keys; a
  recovery that fails leaves the cache untrimmed, with at most one more key for each signature.\<close>

theorem signature_keys_cached:
  assumes "keys_sound cdc (transaction_id cdc t) (trx_sig_digest cdc t chain_id cfd) cache"
    and "get_signature_keys cdc t sigs chain_id cfd allow True cache = (cache', r)"
  shows "r = snd (get_signature_keys cdc t sigs chain_id cfd allow False []) \<and>
    keys_sound cdc (transaction_id cdc t) (trx_sig_digest cdc t chain_id cfd) cache' \<and>
    (\<forall>i d. i \<noteq> transaction_id cdc t \<longrightarrow> keys_sound cdc i d cache \<longrightarrow> keys_sound cdc i d cache') \<and>
    length cache' \<le> length cache + length sigs \<and>
    (\<forall>ks. r = Inr ks \<longrightarrow> length cache' \<le> 1000 \<and> distinct ks \<and>
      set ks = {k. \<exists>s\<in>set sigs. tk_recover cdc s (trx_sig_digest cdc t chain_id cfd) = Inr k})"
proof -
  let ?i = "transaction_id cdc t" and ?d = "trx_sig_digest cdc t chain_id cfd"
  obtain c q where c: "recover_keys cdc ?i ?d allow True cache [] sigs = (c, q)" by (cases "recover_keys cdc ?i ?d allow True cache [] sigs")
  obtain c0 where c0: "recover_keys cdc ?i ?d allow False [] [] sigs = (c0, q)"
    using recover_keys_sound [OF assms(1), of allow True "[]" sigs "[]"] c
    by (cases "recover_keys cdc ?i ?d allow False [] [] sigs") auto
  have s: "keys_sound cdc ?i ?d c" "\<And>i d. i \<noteq> ?i \<Longrightarrow> keys_sound cdc i d cache \<Longrightarrow> keys_sound cdc i d c"
    using recover_keys_sound [OF assms(1), of allow True "[]" sigs "[]"] c by auto
  have d: "keys_sound cdc i d (drop n xs)" if "keys_sound cdc i d xs" for i d n and xs :: "('a, 'b) recovery_cache"
    using that in_set_dropD [of _ n xs] by (auto simp: keys_sound_def)
  have r: "r = fc_rethrow q" "cache' = c \<or> (\<exists>ks. q = Inr ks) \<and> cache' = drop (length c - 1000) c"
    "q = Inr ks \<Longrightarrow> length cache' \<le> 1000" for ks
    using assms(2) c by (auto simp: get_signature_keys_def recovery_cache_size_def split: sum.splits)
  moreover have "length cache' \<le> length cache + length sigs"
    using r(2) recover_keys_length [of cdc ?i ?d allow True cache "[]" sigs] c by auto
  moreover have "snd (get_signature_keys cdc t sigs chain_id cfd allow False []) = fc_rethrow q"
    by (simp add: get_signature_keys_def c0 split: sum.splits)
  ultimately show ?thesis
    using recover_keys_set [of cdc ?i ?d allow "[]" "[]" sigs c0] c0 s d by (auto simp: r(1))
qed

lemma find_own_entry:
  assumes "recover_key cdc i d True cache sig = (cache', Inr k)" "\<forall>c\<in>set cache. ck_trx_id c = i"
  obtains c ext where "cache' = cache @ ext" "length ext \<le> 1" "find_sig cache' sig = Some c" "ck_trx_id c = i"
    "ck_pub_key c = k" "\<forall>c\<in>set cache'. ck_trx_id c = i"
proof (cases "find_sig cache sig")
  case None
  let ?c = "\<lparr>ck_trx_id = i, ck_pub_key = k, ck_sig = sig\<rparr>"
  from None assms(1) have e: "cache' = cache @ [?c]" by (auto simp: recover_key_def cache_emplace_def split: sum.splits)
  have "find_sig cache' sig = Some ?c" unfolding e find_sig_append None by (simp add: find_sig_def)
  from that [OF e _ this] assms(2) show thesis by (simp add: e)
next
  case (Some c)
  with assms(2) find_sig_Some have "ck_trx_id c = i" by fastforce
  with Some assms that [of "[]" c] show thesis by (auto simp: recover_key_def)
qed

lemma recover_again:
  assumes "recover_keys cdc i d allow True cache rec sigs = (cache', Inr ks)" "\<forall>c\<in>set cache. ck_trx_id c = i"
  shows "(\<exists>ext. cache' = cache @ ext) \<and> length cache' \<le> length cache + length sigs \<and>
    recover_keys cdc i d' allow True cache' rec sigs = (cache', Inr ks)"
  using assms
proof (induction sigs arbitrary: cache rec)
  case (Cons sig sigs)
  from Cons.prems(1) obtain cache1 k where k: "recover_key cdc i d True cache sig = (cache1, Inr k)"
    "allow \<or> k \<notin> set rec" "recover_keys cdc i d allow True cache1 (set_insert k rec) sigs = (cache', Inr ks)"
    by (auto split: prod.splits sum.splits if_splits)
  obtain c ext where c: "cache1 = cache @ ext" "length ext \<le> 1" "find_sig cache1 sig = Some c" "ck_trx_id c = i"
    "ck_pub_key c = k" "\<forall>c\<in>set cache1. ck_trx_id c = i" by (rule find_own_entry [OF k(1) Cons.prems(2)])
  from Cons.IH [OF k(3) c(6)] obtain ext' where e: "cache' = cache1 @ ext'" "length cache' \<le> length cache1 + length sigs"
    "recover_keys cdc i d' allow True cache' (set_insert k rec) sigs = (cache', Inr ks)" by blast
  have "find_sig cache' sig = Some c" unfolding e(1) find_sig_append c(3) by simp
  then have "recover_key cdc i d' True cache' sig = (cache', Inr k)" using c(4,5) by (simp add: recover_key_def)
  with e k(2) c(1,2) show ?case by auto
qed simp

text \<open>C9. The cache disregards what was signed besides the transaction.  After the keys of a transaction were recovered once, they
  are found again for any context-free data and any chain id, though a signature covers both.\<close>

theorem cache_ignores_signed_data:
  assumes "get_signature_keys cdc t sigs chain_id cfd allow True [] = (cache, Inr ks)" "length sigs \<le> 1000"
  shows "get_signature_keys cdc t sigs chain_id' cfd' allow True cache = (cache, Inr ks)"
proof -
  obtain c where c: "recover_keys cdc (transaction_id cdc t) (trx_sig_digest cdc t chain_id cfd) allow True [] [] sigs = (c, Inr ks)"
    "cache = drop (length c - 1000) c"
    using assms(1) by (auto simp: get_signature_keys_def recovery_cache_size_def split: prod.splits sum.splits)
  note a = recover_again [OF c(1), of "trx_sig_digest cdc t chain_id' cfd'"]
  have "length c \<le> 1000" using a assms(2) by simp
  with c(2) a show ?thesis by (simp add: get_signature_keys_def recovery_cache_size_def)
qed

section \<open>Packing and unpacking\<close>

lemma limiter_total:
  assumes "length out \<le> limit"
  shows "efold (read_limiter_write limit) (length out, out) chunks =
    (if length out + length (concat chunks) \<le> limit
     then Inr (length out + length (concat chunks), out @ concat chunks) else Inl tx_decompression_error)"
  using assms
proof (induction chunks arbitrary: out)
  case (Cons c cs)
  then show ?case
  proof (cases "length out + length c \<le> limit")
    case True
    with Cons.IH [of "out @ c"] show ?thesis by (simp add: read_limiter_write_def add.assoc)
  qed (simp add: read_limiter_write_def)
qed simp

lemma zlib_decompress_spec:
  "zlib_decompress cdc data =
    (if length (concat (fst (tk_inflate cdc data))) \<le> 1048576
     then if snd (tk_inflate cdc data) then Inr (concat (fst (tk_inflate cdc data))) else Inl unhandled_exception
     else Inl tx_decompression_error)"
  using limiter_total [of "[]" 1048576 "fst (tk_inflate cdc data)"] by (auto simp: zlib_decompress_def)

text \<open>What is relied on of the library for a transaction with its context-free data.\<close>

definition codec_for :: "('k, 's) trx_codec \<Rightarrow> transaction \<Rightarrow> bytes list \<Rightarrow> bool" where
  "codec_for cdc t cfd \<longleftrightarrow>
    tk_unpack cdc (tk_pack cdc t) = Inr t \<and>
    tk_unpack_context_free_data cdc (tk_pack_context_free_data cdc cfd) = Inr cfd \<and> tk_pack_context_free_data cdc cfd \<noteq> [] \<and>
    list_all (\<lambda>b. snd (tk_inflate cdc (tk_compress cdc b)) \<and> concat (fst (tk_inflate cdc (tk_compress cdc b))) = b \<and>
      tk_compress cdc b \<noteq> []) [tk_pack cdc t, tk_pack_context_free_data cdc cfd]"

definition too_big_to_unpack :: "('k, 's) trx_codec \<Rightarrow> 's signed_transaction \<Rightarrow> bool" where
  "too_big_to_unpack cdc st \<longleftrightarrow> length (tk_pack cdc (transaction.truncate st)) > 1048576 \<or>
    st_context_free_data st \<noteq> [] \<and> length (tk_pack_context_free_data cdc (st_context_free_data st)) > 1048576"

lemma signed_of_parts:
  "transaction.extend (transaction.truncate st) \<lparr>st_signatures = st_signatures st, st_context_free_data = st_context_free_data st\<rparr> = st"
  for st :: "'s signed_transaction"
  by (cases st) (simp add: transaction.defs)

text \<open>C39. Packing and unpacking.  A signed transaction that is packed, compressed or not, unpacks to itself with its
  signatures and context-free data and has the same id, provided that neither part exceeds a mebibyte where it is
  compressed; what is larger packs but does not unpack.\<close>

theorem packed_roundtrip:
  assumes "codec_for cdc (transaction.truncate st) (st_context_free_data st)" "c \<in> {compression_none, compression_zlib}"
  shows "\<exists>pt. pack_signed_transaction cdc st c = Inr pt \<and>
    get_signed_transaction cdc pt =
      (if c = compression_zlib \<and> too_big_to_unpack cdc st then Inl tx_decompression_error
       else Inr (pt\<lparr>pt_unpacked_trx := Some (transaction.truncate st)\<rparr>, st)) \<and>
    (\<not> too_big_to_unpack cdc st \<longrightarrow> get_uncached_id cdc pt = Inr (transaction_id cdc (transaction.truncate st)))"
  using assms signed_of_parts [of st]
  by (auto simp: codec_for_def too_big_to_unpack_def pack_signed_transaction_def set_transaction_def get_signed_transaction_def
    get_transaction_def local_unpack_def zlib_decompress_transaction_def zlib_compress_transaction_def zlib_decompress_spec
    pack_context_free_data_def unpack_context_free_data_def zlib_compress_context_free_data_def
    zlib_decompress_context_free_data_def get_uncached_id_def get_raw_transaction_def not_less)

text \<open>A packed transaction that was unpacked before keeps the old transaction when another one is set.\<close>

lemma set_transaction_stale:
  assumes "pt_unpacked_trx pt = Some old" "set_transaction cdc t cfd c pt = Inr pt'"
  shows "get_transaction cdc pt' = Inr (pt', old)"
  using assms by (auto simp: set_transaction_def get_transaction_def local_unpack_def split: if_splits)

section \<open>A codec\<close>

definition demo_signed :: "nat signed_transaction" where
  "demo_signed = \<lparr>th_expiration = 30, th_ref_block_num = 0, th_ref_block_prefix = 0, th_max_net_usage_words = 0,
     th_max_cpu_usage_ms = 0, th_delay_sec = 0, tx_context_free_actions = [], tx_actions = [],
     tx_transaction_extensions = [], st_signatures = [7, 9], st_context_free_data = [[1, 2]]\<rparr>"

definition demo_trx_codec :: "(nat, nat) trx_codec" where
  "demo_trx_codec = \<lparr>tk_pack = (\<lambda>t. [ucast (th_expiration t)]),
     tk_unpack = (\<lambda>b. Inr (transaction.truncate demo_signed\<lparr>th_expiration := ucast (hd b)\<rparr>)),
     tk_pack_context_free_data = (\<lambda>cfd. of_nat (length cfd) # concat cfd),
     tk_unpack_context_free_data = (\<lambda>b. Inr [tl b]), tk_pack_signatures = map of_nat,
     tk_pack_bytes = (\<lambda>b. b), tk_pack_digest = (\<lambda>d. [ucast (hash_word d 0)]), tk_compress = (\<lambda>b. 0 # b),
     tk_inflate = (\<lambda>b. ([tl b], b \<noteq> [])),
     tk_sha256 = (\<lambda>b. Digest (ucast (sum_list b)) 0 0 0), tk_recover = (\<lambda>s d. Inr (s + unat (hash_word d 0)))\<rparr>"

theorem packed_roundtrip_witness:
  "\<exists>pt. pack_signed_transaction demo_trx_codec demo_signed compression_zlib = Inr pt \<and>
    get_signed_transaction demo_trx_codec pt = Inr (pt\<lparr>pt_unpacked_trx := Some (transaction.truncate demo_signed)\<rparr>, demo_signed)"
proof -
  have "codec_for demo_trx_codec (transaction.truncate demo_signed) (st_context_free_data demo_signed)"
    by (simp add: codec_for_def demo_trx_codec_def demo_signed_def transaction.defs)
  moreover have "\<not> too_big_to_unpack demo_trx_codec demo_signed"
    by (simp add: too_big_to_unpack_def demo_trx_codec_def demo_signed_def)
  ultimately show ?thesis using packed_roundtrip [of demo_trx_codec demo_signed compression_zlib] by auto
qed

theorem cache_ignores_signed_data_witness:
  "\<exists>cache ks. get_signature_keys demo_trx_codec (transaction.truncate demo_signed) [7, 9] zero_digest [[1, 2]] False True [] = (cache, Inr ks) \<and>
    get_signature_keys demo_trx_codec (transaction.truncate demo_signed) [7, 9] zero_digest [[4]] False True cache = (cache, Inr ks) \<and>
    snd (get_signature_keys demo_trx_codec (transaction.truncate demo_signed) [7, 9] zero_digest [[4]] False True []) \<noteq> Inr ks"
proof -
  let ?k = "get_signature_keys demo_trx_codec (transaction.truncate demo_signed) [7, 9] zero_digest [[1, 2]] False True []"
  have "\<not> isl (snd ?k)" by code_simp
  then have e: "?k = (fst ?k, Inr (projr (snd ?k)))" by (cases ?k) auto
  have n: "snd (get_signature_keys demo_trx_codec (transaction.truncate demo_signed) [7, 9] zero_digest [[4]] False True []) \<noteq> Inr (projr (snd ?k))"
    by code_simp
  have "get_signature_keys demo_trx_codec (transaction.truncate demo_signed) [7, 9] zero_digest [[4]] False True (fst ?k) =
      (fst ?k, Inr (projr (snd ?k)))"
    by (rule cache_ignores_signed_data [OF e]) simp
  with e n show ?thesis by blast
qed

theorem signature_keys_cached_witness:
  "snd (get_signature_keys demo_trx_codec (transaction.truncate demo_signed) [7, 9] zero_digest [[1, 2]] False True []) =
    snd (get_signature_keys demo_trx_codec (transaction.truncate demo_signed) [7, 9] zero_digest [[1, 2]] False False [])"
proof -
  have "keys_sound demo_trx_codec i d []" for i d by (simp add: keys_sound_def)
  note c = signature_keys_cached [where t = "transaction.truncate demo_signed" and sigs = "[7, 9]" and allow = False, OF this prod.collapse [symmetric]]
  show ?thesis by (rule conjunct1 [OF c])
qed

end
