(* ===== verification/Transaction_Context.thy ===== *)
theory Transaction_Context
  imports Native_Actions
begin

text \<open>
  Transaction contexts (\<^verbatim>\<open>transaction_context.cpp\<close>) and the execution of actions
  (\<^verbatim>\<open>exec\<close> and \<^verbatim>\<open>exec_one\<close> of \<^verbatim>\<open>apply_context.cpp\<close>): the limits of a transaction, its billing, and the
  tree of actions, notifications and inline actions.

  Every reading of the clock is an argument, and so is the flag of the deadline timer that a signal
  sets; running WebAssembly code is a parameter.  Of the traces, only the receipts of the executed
  actions are kept, in the order in which they are pushed.  Points in time are far from the bounds of
  their 64 bits, so that their sums are those of integers.
\<close>

section \<open>The environment\<close>

record 'k trx_env = "'k chain_env" +
  te_cbrt_mul :: "int \<Rightarrow> int \<Rightarrow> u128"
  te_block_summaries :: "(u16, digest_type) index"
  te_wasm_apply :: "digest_type \<Rightarrow> bytes \<Rightarrow> 'k apply_context \<Rightarrow> 'k apply_context result"
  te_hash_action :: "action \<Rightarrow> digest_type"

record action_receipt =
  ar_receiver :: account_name
  ar_act_digest :: digest_type
  ar_global_sequence :: u64
  ar_recv_sequence :: u64
  ar_auth_sequence :: "(account_name, u64) index"
  ar_code_sequence :: u32
  ar_abi_sequence :: u32

text \<open>A reading of the timer flag and of the clock.\<close>

type_synonym clock_reading = "bool \<times> microseconds"

definition time_point_maximum :: microseconds where "time_point_maximum = 2 ^ 63 - 1"

section \<open>Limits\<close>

definition new_trx_limits :: "microseconds \<Rightarrow> trx_limits" where
  "new_trx_limits s = \<lparr>tl_start = s, tl_deadline = time_point_maximum, tl_leeway = 3000, tl_billed_cpu_time_us = 0,
     tl_explicit_billed_cpu_time = False, tl_net_limit = 0, tl_net_limit_due_to_block = True,
     tl_net_limit_due_to_greylist = False, tl_eager_net_limit = 0, tl_net_usage = 0, tl_cpu_limit_due_to_greylist = False,
     tl_initial_objective_duration_limit = 0, tl_objective_duration_limit = 0, tl_current_deadline = time_point_maximum,
     tl_deadline_exception_code = block_cpu_code, tl_billing_timer_exception_code = block_cpu_code,
     tl_pseudo_start = s, tl_billed_time = 0, tl_billing_timer_duration_limit = 0\<rparr>"

definition new_transaction_context ::
  "'k chain_db \<Rightarrow> transaction \<Rightarrow> digest_type \<Rightarrow> microseconds \<Rightarrow> 'k transaction_context result" where
  "new_transaction_context db t trx_id s =
    SNAX_ASSERT (length (tx_transaction_extensions t) = 0) unsupported_feature (
    Inr (chain_db.extend db
      \<lparr>tc_trx = t, tc_id = trx_id, tc_published = 0, tc_bill_to_accounts = [], tc_validate_ram_usage = [], tc_delay = 0,
       tc_is_input = False, tc_apply_context_free = True, tc_enforce_whiteblacklist = True, tc_is_initialized = False,
       tc_limits = new_trx_limits s\<rparr>))"

definition checktime :: "trx_limits \<Rightarrow> clock_reading \<Rightarrow> unit result" where
  "checktime l r =
    (if \<not> fst r then Inr ()
     else if snd r > tl_current_deadline l then
       if tl_explicit_billed_cpu_time l \<or> tl_deadline_exception_code l = deadline_code then Inl deadline_exception
       else if tl_deadline_exception_code l = block_cpu_code then Inl block_cpu_usage_exceeded
       else if tl_deadline_exception_code l = tx_cpu_code then
         if tl_cpu_limit_due_to_greylist l then Inl greylist_cpu_usage_exceeded else Inl tx_cpu_usage_exceeded
       else if tl_deadline_exception_code l = leeway_code then Inl leeway_deadline_exception
       else Inl transaction_exception
     else Inr ())"

definition pause_billing_timer :: "trx_limits \<Rightarrow> microseconds \<Rightarrow> trx_limits" where
  "pause_billing_timer l now =
    (if tl_explicit_billed_cpu_time l \<or> tl_pseudo_start l = 0 then l
     else l\<lparr>tl_billed_time := now - tl_pseudo_start l, tl_deadline_exception_code := deadline_code, tl_pseudo_start := 0\<rparr>)"

definition resume_billing_timer :: "trx_limits \<Rightarrow> microseconds \<Rightarrow> trx_limits" where
  "resume_billing_timer l now =
    (if tl_explicit_billed_cpu_time l \<or> tl_pseudo_start l \<noteq> 0 then l
     else let l = l\<lparr>tl_pseudo_start := now - tl_billed_time l\<rparr> in
       if tl_pseudo_start l + tl_billing_timer_duration_limit l \<le> tl_deadline l
       then l\<lparr>tl_current_deadline := tl_pseudo_start l + tl_billing_timer_duration_limit l,
              tl_deadline_exception_code := tl_billing_timer_exception_code l\<rparr>
       else l\<lparr>tl_current_deadline := tl_deadline l, tl_deadline_exception_code := deadline_code\<rparr>)"

definition validate_cpu_usage_to_bill ::
  "'k controller_view \<Rightarrow> chain_config \<Rightarrow> trx_limits \<Rightarrow> int \<Rightarrow> bool \<Rightarrow> unit result" where
  "validate_cpu_usage_to_bill cv cfg l billed_us check_minimum =
    (if \<not> skip_trx_checks cv then
       ebind (if check_minimum then SNAX_ASSERT (billed_us \<ge> uint (min_transaction_cpu_usage cfg)) transaction_exception (Inr ())
              else Inr ()) (\<lambda>_.
       if tl_billing_timer_exception_code l = block_cpu_code
       then SNAX_ASSERT (billed_us \<le> tl_objective_duration_limit l) block_cpu_usage_exceeded (Inr ())
       else if tl_cpu_limit_due_to_greylist l
       then SNAX_ASSERT (billed_us \<le> tl_objective_duration_limit l) greylist_cpu_usage_exceeded (Inr ())
       else SNAX_ASSERT (billed_us \<le> tl_objective_duration_limit l) tx_cpu_usage_exceeded (Inr ()))
     else Inr ())"

definition update_billed_cpu_time :: "chain_config \<Rightarrow> trx_limits \<Rightarrow> microseconds \<Rightarrow> trx_limits \<times> u32" where
  "update_billed_cpu_time cfg l now =
    (if tl_explicit_billed_cpu_time l then (l, word_of_int (tl_billed_cpu_time_us l))
     else let l = l\<lparr>tl_billed_cpu_time_us := max (now - tl_pseudo_start l) (uint (min_transaction_cpu_usage cfg))\<rparr>
       in (l, word_of_int (tl_billed_cpu_time_us l)))"

definition large_number_no_overflow :: int where "large_number_no_overflow = (2 ^ 63 - 1) div 2"

type_synonym bandwidth = "int \<times> int \<times> bool \<times> bool"

fun afford :: "'k trx_env \<Rightarrow> rl_db \<Rightarrow> bool \<Rightarrow> bandwidth \<Rightarrow> account_name \<Rightarrow> bandwidth result" where
  "afford en rl force_elastic_limits (account_net_limit, account_cpu_limit, greylisted_net, greylisted_cpu) a =
    (let elastic = (force_elastic_limits \<or> \<not> (is_producing_block (en_view en) \<and> is_resource_greylisted (cv_conf (en_view en)) a)) in
     ebind (get_account_net_limit (te_cbrt_mul en) rl a elastic) (\<lambda>net_limit.
     let (account_net_limit, greylisted_net) =
           (if net_limit \<ge> 0 then (min account_net_limit net_limit, greylisted_net \<or> \<not> elastic)
            else (account_net_limit, greylisted_net)) in
     ebind (get_account_cpu_limit (te_cbrt_mul en) rl a elastic) (\<lambda>cpu_limit.
     let (account_cpu_limit, greylisted_cpu) =
           (if cpu_limit \<ge> 0 then (min account_cpu_limit cpu_limit, greylisted_cpu \<or> \<not> elastic)
            else (account_cpu_limit, greylisted_cpu)) in
     Inr (account_net_limit, account_cpu_limit, greylisted_net, greylisted_cpu))))"

definition max_bandwidth_billed_accounts_can_pay ::
  "'k trx_env \<Rightarrow> ('k, 'a) transaction_context_scheme \<Rightarrow> bool \<Rightarrow> bandwidth result" where
  "max_bandwidth_billed_accounts_can_pay en tc force_elastic_limits =
    efold (afford en (db_rl tc) force_elastic_limits) (large_number_no_overflow, large_number_no_overflow, False, False)
      (tc_bill_to_accounts tc)"

section \<open>Initialization\<close>

text \<open>The steps of \<^verbatim>\<open>init\<close> that lower the limits before the accounts are looked at.\<close>

definition lower_net_to_maximum :: "chain_config \<Rightarrow> trx_limits \<Rightarrow> trx_limits" where
  "lower_net_to_maximum cfg l =
    (if ucast (max_transaction_net_usage cfg) \<le> tl_net_limit l
     then l\<lparr>tl_net_limit := ucast (max_transaction_net_usage cfg), tl_net_limit_due_to_block := False\<rparr> else l)"

definition lower_cpu_to :: "microseconds \<Rightarrow> trx_limits \<Rightarrow> trx_limits" where
  "lower_cpu_to limit l =
    (if limit \<le> tl_objective_duration_limit l
     then l\<lparr>tl_objective_duration_limit := limit, tl_billing_timer_exception_code := tx_cpu_code,
            tl_current_deadline := tl_start l + limit\<rparr> else l)"

definition lower_net_to_header :: "transaction \<Rightarrow> trx_limits \<Rightarrow> trx_limits" where
  "lower_net_to_header trx l =
    (let trx_specified_net_usage_limit = ucast (th_max_net_usage_words trx) * 8 in
     if trx_specified_net_usage_limit > 0 \<and> trx_specified_net_usage_limit \<le> tl_net_limit l
     then l\<lparr>tl_net_limit := trx_specified_net_usage_limit, tl_net_limit_due_to_block := False\<rparr> else l)"

definition objective_limits :: "rl_db \<Rightarrow> chain_config \<Rightarrow> transaction \<Rightarrow> trx_limits \<Rightarrow> trx_limits" where
  "objective_limits rl cfg trx l =
    (let l = l\<lparr>tl_net_limit := get_block_net_limit rl, tl_objective_duration_limit := sint (get_block_cpu_limit rl),
               tl_current_deadline := tl_start l + sint (get_block_cpu_limit rl)\<rparr>;
         l = lower_net_to_maximum cfg l;
         l = lower_cpu_to (uint (max_transaction_cpu_usage cfg)) l;
         l = lower_net_to_header trx l;
         l = (if th_max_cpu_usage_ms trx > 0 then lower_cpu_to (uint (th_max_cpu_usage_ms trx) * 1000) l else l)
     in l\<lparr>tl_initial_objective_duration_limit := tl_objective_duration_limit l\<rparr>)"

definition record_billed_accounts :: "account_name list \<Rightarrow> action list \<Rightarrow> account_name list" where
  "record_billed_accounts as acts = foldl (\<lambda>s a. foldl (\<lambda>s auth. set_insert (fst auth) s) s (act_authorization a)) as acts"

text \<open>The steps that depend on what the accounts can pay, and the deadline.\<close>

definition eager_limits :: "chain_config \<Rightarrow> bandwidth \<Rightarrow> trx_limits \<Rightarrow> trx_limits" where
  "eager_limits cfg bw l =
    (let (account_net_limit, account_cpu_limit, greylisted_net, greylisted_cpu) = bw;
         l = l\<lparr>tl_net_limit_due_to_greylist := tl_net_limit_due_to_greylist l \<or> greylisted_net,
               tl_cpu_limit_due_to_greylist := tl_cpu_limit_due_to_greylist l \<or> greylisted_cpu,
               tl_eager_net_limit := tl_net_limit l\<rparr>;
         new_eager_net_limit = min (tl_eager_net_limit l) (word_of_int (account_net_limit + uint (net_usage_leeway cfg)));
         l = (if new_eager_net_limit < tl_eager_net_limit l
              then l\<lparr>tl_eager_net_limit := new_eager_net_limit, tl_net_limit_due_to_block := False\<rparr> else l);
         l = (if account_cpu_limit + tl_leeway l \<le> tl_current_deadline l - tl_start l
              then l\<lparr>tl_current_deadline := tl_start l + account_cpu_limit + tl_leeway l,
                     tl_billing_timer_exception_code := leeway_code\<rparr> else l);
         l = l\<lparr>tl_billing_timer_duration_limit := tl_current_deadline l - tl_start l\<rparr>;
         l = (if tl_explicit_billed_cpu_time l \<or> tl_deadline l < tl_current_deadline l
              then l\<lparr>tl_current_deadline := tl_deadline l, tl_deadline_exception_code := deadline_code\<rparr>
              else l\<lparr>tl_deadline_exception_code := tl_billing_timer_exception_code l\<rparr>)
     in l\<lparr>tl_eager_net_limit := tl_eager_net_limit l div 8 * 8\<rparr>)"

definition current_slot :: "('k, 'a) chain_db_scheme \<Rightarrow> u32" where
  "current_slot db = block_timestamp_of_time_point (ad_pending_block_time (db_auth db))"

definition trx_init ::
  "'k trx_env \<Rightarrow> clock_reading \<Rightarrow> 'k transaction_context \<Rightarrow> u64 \<Rightarrow> 'k transaction_context result" where
  "trx_init en clock tc initial_net_usage =
    SNAX_ASSERT (\<not> tc_is_initialized tc) transaction_exception (
    let cv = en_view en; cfg = db_config tc; l = objective_limits (db_rl tc) cfg (tc_trx tc) (tc_limits tc) in
    ebind (if tl_billed_cpu_time_us l > 0 then validate_cpu_usage_to_bill cv cfg l (tl_billed_cpu_time_us l) False
           else Inr ()) (\<lambda>_.
    let tc = tc\<lparr>tc_bill_to_accounts := record_billed_accounts (tc_bill_to_accounts tc) (tx_actions (tc_trx tc))\<rparr> in
    ebind (update_account_usage (db_rl tc) (tc_bill_to_accounts tc) (current_slot tc)) (\<lambda>rl.
    let tc = tc\<lparr>db_rl := rl\<rparr> in
    ebind (max_bandwidth_billed_accounts_can_pay en tc False) (\<lambda>bw.
    let l = eager_limits cfg bw l in
    ebind (if initial_net_usage > 0 then add_net_usage cv l initial_net_usage else Inr l) (\<lambda>l.
    ebind (checktime l clock) (\<lambda>_.
    Inr (tc\<lparr>tc_limits := l, tc_is_initialized := True\<rparr>)))))))"

definition init_for_implicit_trx ::
  "'k trx_env \<Rightarrow> clock_reading \<Rightarrow> 'k transaction_context \<Rightarrow> u64 \<Rightarrow> 'k transaction_context result" where
  "init_for_implicit_trx en clock tc initial_net_usage =
    trx_init en clock (tc\<lparr>tc_published := ad_pending_block_time (db_auth tc)\<rparr>) initial_net_usage"

definition discounted_size :: "chain_config \<Rightarrow> u64 \<Rightarrow> u64" where
  "discounted_size cfg packed_trx_prunable_size =
    (if context_free_discount_net_usage_den cfg > 0
        \<and> context_free_discount_net_usage_num cfg < context_free_discount_net_usage_den cfg
     then (packed_trx_prunable_size * ucast (context_free_discount_net_usage_num cfg)
             + ucast (context_free_discount_net_usage_den cfg) - 1) div ucast (context_free_discount_net_usage_den cfg)
     else packed_trx_prunable_size)"

definition initial_net_usage_of :: "chain_config \<Rightarrow> transaction \<Rightarrow> u64 \<Rightarrow> u64 \<Rightarrow> u64" where
  "initial_net_usage_of cfg trx packed_trx_unprunable_size packed_trx_prunable_size =
    (let u = ucast (base_per_transaction_net_usage cfg) + packed_trx_unprunable_size
               + discounted_size cfg packed_trx_prunable_size
     in if th_delay_sec trx > 0 then u + (ucast (base_per_transaction_net_usage cfg) + 32) else u)"

definition record_transaction ::
  "'k transaction_context \<Rightarrow> digest_type \<Rightarrow> u32 \<Rightarrow> 'k transaction_context result" where
  "record_transaction tc trx_id expire =
    (case idx_create trx_id expire (db_transactions tc) of
       Inl _ \<Rightarrow> Inl tx_duplicate
     | Inr t \<Rightarrow> Inr (tc\<lparr>db_transactions := t\<rparr>))"

definition init_for_input_trx ::
  "'k trx_env \<Rightarrow> clock_reading \<Rightarrow> 'k transaction_context \<Rightarrow> u64 \<Rightarrow> u64 \<Rightarrow> bool \<Rightarrow> 'k transaction_context result" where
  "init_for_input_trx en clock tc packed_trx_unprunable_size packed_trx_prunable_size skip_recording =
    (let cv = en_view en; trx = tc_trx tc;
         initial_net_usage = initial_net_usage_of (db_config tc) trx packed_trx_unprunable_size packed_trx_prunable_size;
         tc = tc\<lparr>tc_published := ad_pending_block_time (db_auth tc), tc_is_input := True\<rparr> in
     ebind (if \<not> skip_trx_checks cv then
              ebind (validate_expiration (db_config tc) (ad_pending_block_time (db_auth tc)) (transaction_header.truncate trx)) (\<lambda>_.
              ebind (validate_tapos (en_endian_reverse_u32 en) (te_block_summaries en) (transaction_header.truncate trx)) (\<lambda>_.
              validate_referenced_accounts cv tc trx (tc_enforce_whiteblacklist tc \<and> is_producing_block cv)))
            else Inr ()) (\<lambda>_.
     ebind (trx_init en clock tc initial_net_usage) (\<lambda>tc.
     if \<not> skip_recording then record_transaction tc (tc_id tc) (th_expiration trx) else Inr tc)))"

definition init_for_deferred_trx ::
  "'k trx_env \<Rightarrow> clock_reading \<Rightarrow> 'k transaction_context \<Rightarrow> microseconds \<Rightarrow> 'k transaction_context result" where
  "init_for_deferred_trx en clock tc p =
    trx_init en clock (tc\<lparr>tc_published := p, tc_apply_context_free := False\<rparr>) 0"

section \<open>Execution of actions\<close>

definition new_apply_context ::
  "'k transaction_context \<Rightarrow> action \<Rightarrow> u32 \<Rightarrow> bool \<Rightarrow> account_name \<Rightarrow> 'k apply_context" where
  "new_apply_context tc a depth context_free receiver = transaction_context.extend tc
     \<lparr>ac_act = a, ac_receiver = receiver, ac_used_authorizations = replicate (length (act_authorization a)) False,
      ac_recurse_depth = depth, ac_privileged = False, ac_context_free = context_free,
      ac_keyval_cache = new_iterator_cache, ac_notified = [], ac_inline_actions = [], ac_cfa_inline_actions = [],
      ac_account_ram_deltas = []\<rparr>"

definition check_producer_lists :: "'k trx_env \<Rightarrow> 'k apply_context \<Rightarrow> account_name \<Rightarrow> action \<Rightarrow> unit result" where
  "check_producer_lists en cx receiver a =
    (if tc_enforce_whiteblacklist cx \<and> is_producing_block (en_view en) then
       ebind (check_contract_list (cv_conf (en_view en)) receiver) (\<lambda>_.
       check_action_list (cv_conf (en_view en)) (act_account a) (act_name a))
     else Inr ())"

text \<open>The native handler, then the contract.  The account is a reference into the database: its code is
  read after the native handler ran.\<close>

definition run_handlers :: "'k::linorder trx_env \<Rightarrow> 'k apply_context \<Rightarrow> 'k apply_context result" where
  "run_handlers en cx =
    fc_rethrow (let a = ac_act cx; receiver = ac_receiver cx in
     ebind (idx_get (db_accounts cx) receiver) (\<lambda>acc.
     let cx = cx\<lparr>ac_privileged := ao_privileged acc\<rparr> in
     ebind (case find_apply_handler (chain_env.truncate en) receiver (act_account a) (act_name a) of
         None \<Rightarrow> Inr cx
       | Some native \<Rightarrow> ebind (check_producer_lists en cx receiver a) (\<lambda>_. native cx)) (\<lambda>cx.
     ebind (idx_get (db_accounts cx) receiver) (\<lambda>acc.
     if ao_code acc \<noteq> [] \<and>
        \<not> (act_account a = system_account_name \<and> act_name a = N ''setcode'' \<and> receiver = system_account_name)
     then ebind (check_producer_lists en cx receiver a) (\<lambda>_. te_wasm_apply en (ao_code_version acc) (ao_code acc) cx)
     else Inr cx))))"

definition next_auth_sequences ::
  "'k apply_context \<Rightarrow> permission_level list \<Rightarrow> ('k apply_context \<times> (account_name, u64) index) result" where
  "next_auth_sequences cx auths =
    efold (\<lambda>st auth. ebind (next_auth_sequence (fst st) (fst auth)) (\<lambda>r. Inr (fst r, idx_put (fst auth) (snd r) (snd st))))
      (cx, []) auths"

definition exec_one :: "'k::linorder trx_env \<Rightarrow> 'k apply_context \<Rightarrow> ('k apply_context \<times> action_receipt) result" where
  "exec_one en cx =
    (let a = ac_act cx; receiver = ac_receiver cx in
     ebind (run_handlers en cx) (\<lambda>cx.
     let (cx, global_sequence) = next_global_sequence cx in
     ebind (next_recv_sequence cx receiver) (\<lambda>(cx, recv_sequence).
     ebind (idx_get (db_sequences cx) (act_account a)) (\<lambda>account_sequence.
     ebind (next_auth_sequences cx (act_authorization a)) (\<lambda>(cx, auth_sequence).
     Inr (cx\<lparr>ac_account_ram_deltas := []\<rparr>,
       \<lparr>ar_receiver = receiver, ar_act_digest = te_hash_action en a, ar_global_sequence = global_sequence,
        ar_recv_sequence = recv_sequence, ar_auth_sequence = auth_sequence,
        ar_code_sequence = ucast (as_code_sequence account_sequence),
        ar_abi_sequence = ucast (as_abi_sequence account_sequence)\<rparr>))))))"

text \<open>The loop over the notified accounts, whose list grows while it runs; its counter has 32 bits.\<close>

partial_function (option) notify_loop ::
  "'k::linorder trx_env \<Rightarrow> u32 \<Rightarrow> 'k apply_context \<Rightarrow> action_receipt list \<Rightarrow>
   ('k apply_context \<times> action_receipt list) result option" where
  "notify_loop en i cx rs =
    (if unat i < length (ac_notified cx) then
       case exec_one en (cx\<lparr>ac_receiver := ac_notified cx ! unat i\<rparr>) of
         Inl e \<Rightarrow> Some (Inl e)
       | Inr r \<Rightarrow> notify_loop en (i + 1) (fst r) (rs @ [snd r])
     else Some (Inr (cx, rs)))"

declare notify_loop.simps [code]

definition exec_notified ::
  "'k::linorder trx_env \<Rightarrow> 'k apply_context \<Rightarrow> action_receipt list \<Rightarrow>
   ('k apply_context \<times> action_receipt list) result option" where
  "exec_notified en cx rs =
    (case exec_one en (cx\<lparr>ac_notified := ac_notified cx @ [ac_receiver cx]\<rparr>) of
       Inl e \<Rightarrow> Some (Inl e)
     | Inr r \<Rightarrow> notify_loop en 1 (fst r) (rs @ [snd r]))"

text \<open>\<^verbatim>\<open>exec\<close> and \<^verbatim>\<open>dispatch_action\<close>, which call each other for inline actions.  The depth
  never exceeds the 16 bits of the configured maximum.\<close>

function dispatch_action ::
  "'k::linorder trx_env \<Rightarrow> bool \<Rightarrow> u32 \<Rightarrow> account_name \<Rightarrow> 'k transaction_context \<times> action_receipt list \<Rightarrow> action \<Rightarrow>
   ('k transaction_context \<times> action_receipt list) result option" where
  "dispatch_action en context_free recurse_depth receiver st a =
    obind (exec_notified en (new_apply_context (fst st) a recurse_depth context_free receiver) (snd st)) (\<lambda>(cx, rs).
    if (ac_cfa_inline_actions cx \<noteq> [] \<or> ac_inline_actions cx \<noteq> [])
       \<and> \<not> recurse_depth < ucast (max_inline_action_depth (db_config cx))
    then Some (Inl transaction_exception)
    else
      obind (ofold (\<lambda>st b. dispatch_action en True (recurse_depth + 1) (act_account b) st b)
        (transaction_context.truncate cx, rs) (ac_cfa_inline_actions cx)) (\<lambda>st.
      ofold (\<lambda>st b. dispatch_action en False (recurse_depth + 1) (act_account b) st b) st (ac_inline_actions cx)))"
  by pat_completeness auto

lemma depth_decreases:
  fixes d :: u32 and m :: u16
  assumes "d < ucast m"
  shows "65536 - unat (d + 1) < 65536 - unat d"
proof -
  have "unat d < unat m" using assms by (simp add: word_less_nat_alt unat_ucast)
  moreover have "unat m < 65536" using unsigned_less [of m] by simp
  ultimately have "unat d < 65535" by simp
  then have "unat (d + 1) = unat d + 1" by (simp add: unat_word_ariths)
  with \<open>unat d < 65535\<close> show ?thesis by simp
qed

termination dispatch_action
  by (relation "measure (\<lambda>(en, cf, d, r, st, a). 65536 - unat d)") (auto intro: depth_decreases)

declare dispatch_action.simps [simp del]

section \<open>The transaction\<close>

definition schedule_transaction :: "'k trx_env \<Rightarrow> 'k transaction_context \<Rightarrow> 'k transaction_context result" where
  "schedule_transaction en tc =
    (let trx = tc_trx tc; cfg = db_config tc in
     ebind (if th_delay_sec trx = 0
            then add_net_usage (en_view en) (tc_limits tc) (ucast (base_per_transaction_net_usage cfg) + 32)
            else Inr (tc_limits tc)) (\<lambda>l.
     let tc = tc\<lparr>tc_limits := l\<rparr>; published = ad_pending_block_time (db_auth tc); delay_until = published + tc_delay tc;
         gto = \<lparr>gt_sender = 0, gt_sender_id = transaction_id_to_sender_id (tc_id tc),
                gt_payer = first_authorizor (tx_actions trx), gt_delay_until = delay_until,
                gt_expiration = delay_until + uint (deferred_trx_expiration_window cfg) * 1000000,
                gt_published = published, gt_packed_trx = en_pack_transaction en trx\<rparr>;
         trx_size = of_nat (length (gt_packed_trx gto)) :: u32 in
     if find_by_sender_id (db_auth tc) (gt_sender gto) (gt_sender_id gto) \<noteq> None then Inl uniqueness_violation
     else ebind (idx_create (tc_id tc) gto (ad_generated (db_auth tc))) (\<lambda>t.
       trx_add_ram_usage (set_generated t tc) (gt_payer gto) (sint (generated_transaction_object_size + ucast trx_size)))))"

definition trx_exec ::
  "'k::linorder trx_env \<Rightarrow> 'k transaction_context \<Rightarrow> ('k transaction_context \<times> action_receipt list) result option" where
  "trx_exec en tc =
    (if \<not> tc_is_initialized tc then Some (Inl transaction_exception)
     else
       obind (if tc_apply_context_free tc
              then ofold (\<lambda>st a. dispatch_action en True 0 (act_account a) st a) (tc, []) (tx_context_free_actions (tc_trx tc))
              else Some (Inr (tc, []))) (\<lambda>st.
       if tc_delay tc = 0
       then ofold (\<lambda>st a. dispatch_action en False 0 (act_account a) st a) st (tx_actions (tc_trx tc))
       else Some (ebind (schedule_transaction en (fst st)) (\<lambda>tc. Inr (tc, snd st)))))"

text \<open>The permissions an input transaction used, and the limits at its end.\<close>

definition touch_permission :: "'k auth_db \<Rightarrow> permission_level \<Rightarrow> 'k auth_db result" where
  "touch_permission adb auth = ebind (get_permission adb auth) (\<lambda>p. update_permission_usage adb (snd p))"

definition final_limits :: "bandwidth \<Rightarrow> trx_limits \<Rightarrow> trx_limits" where
  "final_limits bw l =
    (let (account_net_limit, account_cpu_limit, greylisted_net, greylisted_cpu) = bw;
         l = l\<lparr>tl_net_limit_due_to_greylist := tl_net_limit_due_to_greylist l \<or> greylisted_net,
               tl_cpu_limit_due_to_greylist := tl_cpu_limit_due_to_greylist l \<or> greylisted_cpu\<rparr>;
         l = (if word_of_int account_net_limit \<le> tl_net_limit l
              then l\<lparr>tl_net_limit := word_of_int account_net_limit, tl_net_limit_due_to_block := False\<rparr> else l);
         l = (if account_cpu_limit \<le> tl_objective_duration_limit l
              then l\<lparr>tl_objective_duration_limit := account_cpu_limit, tl_billing_timer_exception_code := tx_cpu_code\<rparr> else l);
         l = l\<lparr>tl_net_usage := (tl_net_usage l + 7) div 8 * 8\<rparr>
     in l\<lparr>tl_eager_net_limit := tl_net_limit l\<rparr>)"

definition trx_finalize :: "'k trx_env \<Rightarrow> microseconds \<Rightarrow> 'k transaction_context \<Rightarrow> 'k transaction_context result" where
  "trx_finalize en now tc =
    SNAX_ASSERT (tc_is_initialized tc) transaction_exception (
    let cv = en_view en; cfg = db_config tc in
    ebind (if tc_is_input tc
           then efold touch_permission (db_auth tc) (concat (map act_authorization (tx_actions (tc_trx tc))))
           else Inr (db_auth tc)) (\<lambda>adb.
    let tc = tc\<lparr>db_auth := adb\<rparr> in
    ebind (efold (\<lambda>_ a. verify_account_ram_usage (db_rl tc) a) () (tc_validate_ram_usage tc)) (\<lambda>_.
    ebind (max_bandwidth_billed_accounts_can_pay en tc False) (\<lambda>bw.
    let l = final_limits bw (tc_limits tc) in
    ebind (check_net_usage cv l) (\<lambda>_.
    let l = fst (update_billed_cpu_time cfg l now) in
    ebind (validate_cpu_usage_to_bill cv cfg l (tl_billed_cpu_time_us l) True) (\<lambda>_.
    ebind (add_transaction_usage (te_cbrt_mul en) (db_rl tc) (tc_bill_to_accounts tc)
        (word_of_int (tl_billed_cpu_time_us l)) (tl_net_usage l) (current_slot tc)) (\<lambda>rl.
    Inr (tc\<lparr>tc_limits := l, db_rl := rl\<rparr>))))))))"

section \<open>Limits of a transaction\<close>

declare afford.simps [simp del]

text \<open>Whether the elastic limits are in force for an account.\<close>

definition elastic_for :: "'k trx_env \<Rightarrow> bool \<Rightarrow> account_name \<Rightarrow> bool" where
  "elastic_for en fe a \<longleftrightarrow> fe \<or> \<not> (is_producing_block (en_view en) \<and> is_resource_greylisted (cv_conf (en_view en)) a)"

lemma afford_Inr:
  assumes "afford en rl fe (n, c, gn, gc) a = Inr (m, d, gm, gd)"
  obtains nl cl where "get_account_net_limit (te_cbrt_mul en) rl a (elastic_for en fe a) = Inr nl"
    "get_account_cpu_limit (te_cbrt_mul en) rl a (elastic_for en fe a) = Inr cl"
    "m = (if 0 \<le> nl then min n nl else n)" "d = (if 0 \<le> cl then min c cl else c)"
proof -
  obtain nl where nl: "get_account_net_limit (te_cbrt_mul en) rl a (elastic_for en fe a) = Inr nl"
    using assms unfolding afford.simps Let_def elastic_for_def ebind_eq_Inr_iff by blast
  obtain cl where cl: "get_account_cpu_limit (te_cbrt_mul en) rl a (elastic_for en fe a) = Inr cl"
    using assms unfolding afford.simps Let_def elastic_for_def ebind_eq_Inr_iff split_beta by blast
  from assms have "m = (if 0 \<le> nl then min n nl else n)" "d = (if 0 \<le> cl then min c cl else c)"
    unfolding afford.simps Let_def elastic_for_def [symmetric] nl cl ebind_Inr by (auto split: if_splits)
  with that nl cl show thesis by blast
qed

lemma efold_afford_le:
  assumes "efold (afford en rl fe) (n, c, gn, gc) as = Inr (n', c', gn', gc')"
  shows "n' \<le> n \<and> c' \<le> c \<and> (0 \<le> n \<longrightarrow> 0 \<le> n') \<and> (0 \<le> c \<longrightarrow> 0 \<le> c')"
  using assms
proof (induction as arbitrary: n c gn gc)
  case (Cons a as)
  then obtain m d gm gd where s: "afford en rl fe (n, c, gn, gc) a = Inr (m, d, gm, gd)"
    "efold (afford en rl fe) (m, d, gm, gd) as = Inr (n', c', gn', gc')" by auto
  have "m \<le> n" "d \<le> c" "0 \<le> n \<longrightarrow> 0 \<le> m" "0 \<le> c \<longrightarrow> 0 \<le> d"
    by (rule afford_Inr [OF s(1)], simp)+
  with Cons(1) [OF s(2)] show ?case by auto
qed simp

text \<open>The bandwidth is one that each billed account can pay, by the limits in force for it.\<close>

definition can_pay :: "'k trx_env \<Rightarrow> rl_db \<Rightarrow> bool \<Rightarrow> account_name \<Rightarrow> int \<Rightarrow> int \<Rightarrow> bool" where
  "can_pay en rl fe a net cpu \<longleftrightarrow>
    (\<exists>n c. get_account_net_limit (te_cbrt_mul en) rl a (elastic_for en fe a) = Inr n \<and>
      get_account_cpu_limit (te_cbrt_mul en) rl a (elastic_for en fe a) = Inr c \<and>
      (0 \<le> n \<longrightarrow> net \<le> n) \<and> (0 \<le> c \<longrightarrow> cpu \<le> c))"

lemma can_pay_mono: "can_pay en rl fe a net cpu \<Longrightarrow> net' \<le> net \<Longrightarrow> cpu' \<le> cpu \<Longrightarrow> can_pay en rl fe a net' cpu'"
  unfolding can_pay_def by (meson order_trans)

lemma afford_can_pay:
  assumes "afford en rl fe (n, c, gn, gc) a = Inr (n', c', gn', gc')"
  shows "can_pay en rl fe a n' c'"
  by (rule afford_Inr [OF assms]) (simp add: can_pay_def)

lemma efold_afford_can_pay:
  assumes "efold (afford en rl fe) (n, c, gn, gc) as = Inr (n', c', gn', gc')"
  shows "\<forall>a\<in>set as. can_pay en rl fe a n' c'"
  using assms
proof (induction as arbitrary: n c gn gc)
  case (Cons a as)
  then obtain m d gm gd where s: "afford en rl fe (n, c, gn, gc) a = Inr (m, d, gm, gd)"
    "efold (afford en rl fe) (m, d, gm, gd) as = Inr (n', c', gn', gc')" by auto
  have "n' \<le> m" "c' \<le> d" using efold_afford_le [OF s(2)] by simp_all
  with afford_can_pay [OF s(1)] have "can_pay en rl fe a n' c'" by (rule can_pay_mono)
  with Cons(1) [OF s(2)] show ?case by simp
qed simp

lemma bandwidth_can_pay:
  assumes "max_bandwidth_billed_accounts_can_pay en tc fe = Inr (n, c, gn, gc)"
  shows "\<forall>a\<in>set (tc_bill_to_accounts tc). can_pay en (db_rl tc) fe a n c" "0 \<le> n" "n \<le> large_number_no_overflow"
    "0 \<le> c" "c \<le> large_number_no_overflow"
  using efold_afford_can_pay [OF assms [unfolded max_bandwidth_billed_accounts_can_pay_def]]
    efold_afford_le [OF assms [unfolded max_bandwidth_billed_accounts_can_pay_def]]
  by (simp_all add: large_number_no_overflow_def)

lemma check_net_usage_Inr: "check_net_usage cv l = Inr () \<longleftrightarrow> skip_trx_checks cv \<or> tl_net_usage l \<le> tl_eager_net_limit l"
  by (auto simp: check_net_usage_def not_less)

lemma validate_cpu_Inr:
  "validate_cpu_usage_to_bill cv cfg l billed m = Inr () \<longleftrightarrow> skip_trx_checks cv \<or>
    ((m \<longrightarrow> uint (min_transaction_cpu_usage cfg) \<le> billed) \<and> billed \<le> tl_objective_duration_limit l)"
  by (auto simp: validate_cpu_usage_to_bill_def)

lemma uint_le_large: "0 \<le> n \<Longrightarrow> n \<le> large_number_no_overflow \<Longrightarrow> uint (word_of_int n :: u64) = n"
  by (simp add: large_number_no_overflow_def uint_word_of_int)

lemma add_transaction_usage_state:
  assumes "add_transaction_usage f db as cpu net slot = Inr db'"
  shows "pending_cpu_usage (rl_state db') = pending_cpu_usage (rl_state db) + cpu"
    "pending_net_usage (rl_state db') = pending_net_usage (rl_state db) + net"
proof -
  obtain d where d: "efold (bill_account f cpu net slot) db as = Inr d"
    and e: "rl_state db' = (rl_state d)\<lparr>pending_cpu_usage := pending_cpu_usage (rl_state d) + cpu,
       pending_net_usage := pending_net_usage (rl_state d) + net\<rparr>"
    using assms by (auto simp: add_transaction_usage_def Let_def)
  have "rl_state d = rl_state db"
    by (rule efold_invariant [where P = "\<lambda>x. rl_state x = rl_state db", OF d]) (auto simp: bill_account_def)
  with e show "pending_cpu_usage (rl_state db') = pending_cpu_usage (rl_state db) + cpu"
    "pending_net_usage (rl_state db') = pending_net_usage (rl_state db) + net" by simp_all
qed

text \<open>The limits at the end in terms of those before.\<close>

lemma final_limits_spec:
  assumes "0 \<le> n" "n \<le> large_number_no_overflow"
  shows "tl_net_limit (final_limits (n, c, gn, gc) l) = min (word_of_int n) (tl_net_limit l)"
    "tl_objective_duration_limit (final_limits (n, c, gn, gc) l) = min c (tl_objective_duration_limit l)"
    "tl_eager_net_limit (final_limits (n, c, gn, gc) l) = tl_net_limit (final_limits (n, c, gn, gc) l)"
    "tl_net_usage (final_limits (n, c, gn, gc) l) = (tl_net_usage l + 7) div 8 * 8"
    "tl_explicit_billed_cpu_time (final_limits (n, c, gn, gc) l) = tl_explicit_billed_cpu_time l"
    "tl_billed_cpu_time_us (final_limits (n, c, gn, gc) l) = tl_billed_cpu_time_us l"
    "tl_pseudo_start (final_limits (n, c, gn, gc) l) = tl_pseudo_start l"
  by (simp_all add: final_limits_def Let_def min_def)

lemma rounded_mod: "(u div 8 * 8) mod 8 = 0" for u :: u64
proof -
  have d: "unat (u div 8) = unat u div 8" by (simp add: unat_div)
  have "unat u < 2 ^ 64" using unsigned_less [of u] by simp
  then have "unat u div 8 * 8 < 2 ^ 64" using div_times_less_eq_dividend [of "unat u" 8] by linarith
  then have m: "unat (u div 8 * 8) = unat u div 8 * 8" using d by (simp add: unat_word_ariths)
  show ?thesis by (simp add: word_unat_eq_iff unat_mod m)
qed

text \<open>A transaction that is finalized stays within its limits.  The network usage it is billed is its usage
  rounded up to whole words, not above the limit of the transaction; the processor time is at least
  the minimum and not above the time limit; every billed account can pay both, by the limits in
  force for it; and exactly this usage is added to the pending usage of the block.\<close>

lemma finalize_outcome:
  assumes "\<not> skip_trx_checks (en_view en)" "trx_finalize en now tc = Inr tc'"
  shows "tl_net_usage (tc_limits tc') = (tl_net_usage (tc_limits tc) + 7) div 8 * 8 \<and>
    tl_net_usage (tc_limits tc') \<le> tl_net_limit (tc_limits tc) \<and>
    uint (min_transaction_cpu_usage (db_config tc)) \<le> tl_billed_cpu_time_us (tc_limits tc') \<and>
    tl_billed_cpu_time_us (tc_limits tc') \<le> tl_objective_duration_limit (tc_limits tc) \<and>
    (\<forall>a\<in>set (tc_bill_to_accounts tc).
      can_pay en (db_rl tc) False a (uint (tl_net_usage (tc_limits tc'))) (tl_billed_cpu_time_us (tc_limits tc'))) \<and>
    pending_net_usage (rl_state (db_rl tc')) = pending_net_usage (rl_state (db_rl tc)) + tl_net_usage (tc_limits tc') \<and>
    pending_cpu_usage (rl_state (db_rl tc')) =
      pending_cpu_usage (rl_state (db_rl tc)) + word_of_int (tl_billed_cpu_time_us (tc_limits tc'))"
proof -
  obtain adb bw l' rl where
    bw: "max_bandwidth_billed_accounts_can_pay en (tc\<lparr>db_auth := adb\<rparr>) False = Inr bw"
    and net: "check_net_usage (en_view en) (final_limits bw (tc_limits tc)) = Inr ()"
    and l': "l' = fst (update_billed_cpu_time (db_config tc) (final_limits bw (tc_limits tc)) now)"
    and cpu: "validate_cpu_usage_to_bill (en_view en) (db_config tc) l' (tl_billed_cpu_time_us l') True = Inr ()"
    and rl: "add_transaction_usage (te_cbrt_mul en) (db_rl tc) (tc_bill_to_accounts tc)
      (word_of_int (tl_billed_cpu_time_us l')) (tl_net_usage l') (current_slot (tc\<lparr>db_auth := adb\<rparr>)) = Inr rl"
    and tc': "tc' = tc\<lparr>db_auth := adb, tc_limits := l', db_rl := rl\<rparr>"
    using assms(2) unfolding trx_finalize_def Let_def by auto
  obtain n c gn gc where b: "bw = (n, c, gn, gc)" by (cases bw)
  note p = bandwidth_can_pay [OF bw [unfolded b]]
  note f = final_limits_spec [OF p(2,3), of c gn gc "tc_limits tc", folded b]
  let ?l = "final_limits bw (tc_limits tc)"
  have u: "tl_net_usage l' = tl_net_usage ?l" "tl_objective_duration_limit l' = tl_objective_duration_limit ?l"
    unfolding l' by (simp_all add: update_billed_cpu_time_def Let_def)
  have "tl_net_usage l' \<le> min (word_of_int n) (tl_net_limit (tc_limits tc))"
    using net assms(1) unfolding check_net_usage_Inr u f(3) f(1) by simp
  then have nu: "tl_net_usage l' \<le> word_of_int n" "tl_net_usage l' \<le> tl_net_limit (tc_limits tc)" by simp_all
  have un: "uint (tl_net_usage l') \<le> n"
    using nu(1) uint_le_large [OF p(2,3)] by (simp add: word_le_def)
  have cb: "uint (min_transaction_cpu_usage (db_config tc)) \<le> tl_billed_cpu_time_us l'"
    "tl_billed_cpu_time_us l' \<le> c" "tl_billed_cpu_time_us l' \<le> tl_objective_duration_limit (tc_limits tc)"
    using cpu assms(1) unfolding validate_cpu_Inr u f(2) by simp_all
  have pay: "\<forall>a\<in>set (tc_bill_to_accounts tc). can_pay en (db_rl tc) False a (uint (tl_net_usage l')) (tl_billed_cpu_time_us l')"
    using p(1) by (auto intro: can_pay_mono [OF _ un cb(2)])
  from add_transaction_usage_state [OF rl] nu(2) cb(1,3) pay u(1) f(4) show ?thesis unfolding tc' by simp
qed

lemma rounded_down: "u div 8 * 8 \<le> u" for u :: u64
proof -
  have d: "unat (u div 8) = unat u div 8" by (simp add: unat_div)
  have "unat u < 2 ^ 64" using unsigned_less [of u] by simp
  then have "unat u div 8 * 8 < 2 ^ 64" using div_times_less_eq_dividend [of "unat u" 8] by linarith
  then have "unat (u div 8 * 8) = unat u div 8 * 8" using d by (simp add: unat_word_ariths)
  then show ?thesis by (simp add: word_le_nat_alt)
qed

lemma set_set_insert [simp]: "set (set_insert x xs) = insert x (set xs)"
  by (auto simp: set_insert_def set_insort_key)

lemma set_record_auths: "set (foldl (\<lambda>s auth. set_insert (fst auth) s) as us) = set as \<union> fst ` set us"
  by (induction us arbitrary: as) auto

lemma set_record_billed_accounts:
  "set (record_billed_accounts as acts) = set as \<union> (\<Union>a\<in>set acts. fst ` set (act_authorization a))"
  unfolding record_billed_accounts_def by (induction acts arbitrary: as) (auto simp: set_record_auths)

text \<open>The time a transaction is allowed in advance.\<close>

definition time_allowed :: "rl_db \<Rightarrow> chain_config \<Rightarrow> transaction \<Rightarrow> microseconds" where
  "time_allowed rl cfg trx =
    (let m = min (uint (max_transaction_cpu_usage cfg)) (sint (get_block_cpu_limit rl))
     in if th_max_cpu_usage_ms trx > 0 then min (uint (th_max_cpu_usage_ms trx) * 1000) m else m)"

definition net_allowed :: "rl_db \<Rightarrow> chain_config \<Rightarrow> transaction \<Rightarrow> u64" where
  "net_allowed rl cfg trx =
    (let m = min (ucast (max_transaction_net_usage cfg)) (get_block_net_limit rl)
     in if th_max_net_usage_words trx > 0 then min (ucast (th_max_net_usage_words trx) * 8) m else m)"

lemma words_positive: "0 < ucast w * (8 :: u64) \<longleftrightarrow> 0 < w" for w :: u32
proof -
  have "unat w < 2 ^ 32" using unsigned_less [of w] by simp
  then have "unat (ucast w * (8 :: u64)) = unat w * 8" by (simp add: unat_word_ariths unat_ucast)
  then show ?thesis by (simp add: word_less_nat_alt)
qed

lemma lower_net_to_maximum_spec:
  "tl_net_limit (lower_net_to_maximum cfg l) = min (ucast (max_transaction_net_usage cfg)) (tl_net_limit l)"
  "tl_objective_duration_limit (lower_net_to_maximum cfg l) = tl_objective_duration_limit l"
  "tl_net_usage (lower_net_to_maximum cfg l) = tl_net_usage l" "tl_start (lower_net_to_maximum cfg l) = tl_start l"
  by (simp_all add: lower_net_to_maximum_def min_def)

lemma lower_cpu_to_spec:
  "tl_net_limit (lower_cpu_to m l) = tl_net_limit l"
  "tl_objective_duration_limit (lower_cpu_to m l) = min m (tl_objective_duration_limit l)"
  "tl_net_usage (lower_cpu_to m l) = tl_net_usage l" "tl_start (lower_cpu_to m l) = tl_start l"
  by (simp_all add: lower_cpu_to_def min_def)

lemma lower_net_to_header_spec:
  "tl_net_limit (lower_net_to_header trx l) =
    (if th_max_net_usage_words trx > 0 then min (ucast (th_max_net_usage_words trx) * 8) (tl_net_limit l) else tl_net_limit l)"
  "tl_objective_duration_limit (lower_net_to_header trx l) = tl_objective_duration_limit l"
  "tl_net_usage (lower_net_to_header trx l) = tl_net_usage l" "tl_start (lower_net_to_header trx l) = tl_start l"
  by (simp_all add: lower_net_to_header_def Let_def words_positive min_def)

lemma objective_limits_spec:
  "tl_net_limit (objective_limits rl cfg trx l) = net_allowed rl cfg trx"
  "tl_objective_duration_limit (objective_limits rl cfg trx l) = time_allowed rl cfg trx"
  "tl_net_usage (objective_limits rl cfg trx l) = tl_net_usage l"
  "tl_start (objective_limits rl cfg trx l) = tl_start l"
  by (simp_all add: objective_limits_def Let_def lower_net_to_maximum_spec lower_cpu_to_spec lower_net_to_header_spec
    net_allowed_def time_allowed_def)

lemma eager_limits_spec:
  "tl_net_limit (eager_limits cfg (n, c, gn, gc) l) = tl_net_limit l"
  "tl_objective_duration_limit (eager_limits cfg (n, c, gn, gc) l) = tl_objective_duration_limit l"
  "tl_net_usage (eager_limits cfg (n, c, gn, gc) l) = tl_net_usage l"
  "tl_eager_net_limit (eager_limits cfg (n, c, gn, gc) l) =
      min (tl_net_limit l) (word_of_int (n + uint (net_usage_leeway cfg))) div 8 * 8"
proof -
  define m where "m = min (tl_net_limit l) (word_of_int (n + uint (net_usage_leeway cfg)))"
  have "m \<le> tl_net_limit l" by (simp add: m_def)
  then have "\<not> m < tl_net_limit l \<Longrightarrow> tl_net_limit l = m" by simp
  moreover have "min (tl_net_limit l) (word_of_int n + ucast (net_usage_leeway cfg)) = m" by (simp add: m_def)
  ultimately show "tl_eager_net_limit (eager_limits cfg (n, c, gn, gc) l) =
      min (tl_net_limit l) (word_of_int (n + uint (net_usage_leeway cfg))) div 8 * 8"
    by (cases "m < tl_net_limit l") (simp_all add: eager_limits_def Let_def)
qed (simp_all add: eager_limits_def Let_def)

text \<open>The limits of a transaction.  When a transaction is initialized, its network limit is the least of what the
  block has left, the configured maximum and what its header asks for, and so is its time limit;
  the accounts to be billed are those that authorize an action.  The usage known in advance is within
  an eager limit in whole words, which is within the network limit and, up to the configured leeway, what each
  billed account can pay.\<close>

lemma init_outcome:
  assumes "\<not> skip_trx_checks (en_view en)" "trx_init en clock tc u = Inr tc'"
  shows "tl_net_limit (tc_limits tc') = net_allowed (db_rl tc) (db_config tc) (tc_trx tc) \<and>
    tl_objective_duration_limit (tc_limits tc') = time_allowed (db_rl tc) (db_config tc) (tc_trx tc) \<and>
    set (tc_bill_to_accounts tc') = set (tc_bill_to_accounts tc) \<union> (\<Union>a\<in>set (tx_actions (tc_trx tc)). fst ` set (act_authorization a)) \<and>
    tl_net_usage (tc_limits tc') = tl_net_usage (tc_limits tc) + u \<and>
    (0 < u \<longrightarrow> tl_net_usage (tc_limits tc') \<le> tl_eager_net_limit (tc_limits tc')) \<and>
    tl_eager_net_limit (tc_limits tc') mod 8 = 0 \<and> tl_eager_net_limit (tc_limits tc') \<le> tl_net_limit (tc_limits tc') \<and>
    (\<forall>a\<in>set (tc_bill_to_accounts tc'). can_pay en (db_rl tc') False a
      (uint (tl_eager_net_limit (tc_limits tc')) - uint (net_usage_leeway (db_config tc))) 0)"
proof -
  let ?l = "objective_limits (db_rl tc) (db_config tc) (tc_trx tc) (tc_limits tc)"
  let ?as = "record_billed_accounts (tc_bill_to_accounts tc) (tx_actions (tc_trx tc))"
  obtain rl bw l' where
    bw: "max_bandwidth_billed_accounts_can_pay en (tc\<lparr>tc_bill_to_accounts := ?as, db_rl := rl\<rparr>) False = Inr bw"
    and l': "(if u > 0 then add_net_usage (en_view en) (eager_limits (db_config tc) bw ?l) u
       else Inr (eager_limits (db_config tc) bw ?l)) = Inr l'"
    and tc': "tc' = tc\<lparr>tc_bill_to_accounts := ?as, db_rl := rl, tc_limits := l', tc_is_initialized := True\<rparr>"
    using assms(2) unfolding trx_init_def Let_def by auto
  obtain n c gn gc where b: "bw = (n, c, gn, gc)" by (cases bw)
  note p = bandwidth_can_pay [OF bw [unfolded b]]
  let ?e = "eager_limits (db_config tc) bw ?l"
  note e = eager_limits_spec [of "db_config tc" n c gn gc ?l, folded b]
  have l: "l' = ?e\<lparr>tl_net_usage := tl_net_usage ?e + u\<rparr>" and chk: "0 < u \<longrightarrow> check_net_usage (en_view en) l' = Inr ()"
    using l' by (auto simp: add_net_usage_def Let_def word_gt_0 split: if_splits)
  have le: "0 < u \<longrightarrow> tl_net_usage l' \<le> tl_eager_net_limit l'" using chk assms(1) by (simp add: check_net_usage_Inr)
  define x where "x = n + uint (net_usage_leeway (db_config tc))"
  let ?m = "min (tl_net_limit ?l) (word_of_int x)"
  have eager: "tl_eager_net_limit l' = ?m div 8 * 8" unfolding l x_def using e(4) by simp
  have below: "tl_eager_net_limit l' \<le> ?m" unfolding eager by (rule rounded_down)
  have "uint (net_usage_leeway (db_config tc)) < 2 ^ 32" using uint_lt2p [of "net_usage_leeway (db_config tc)"] by simp
  then have "0 \<le> x" "x < 2 ^ 64" using p(2,3) by (simp_all add: x_def large_number_no_overflow_def)
  then have "uint (word_of_int x :: u64) = x" by (simp add: uint_word_of_int)
  moreover have "tl_eager_net_limit l' \<le> word_of_int x" by (rule order_trans [OF below]) simp
  ultimately have "uint (tl_eager_net_limit l') \<le> x" by (simp add: word_le_def)
  then have un: "uint (tl_eager_net_limit l') - uint (net_usage_leeway (db_config tc)) \<le> n" by (simp add: x_def)
  have pay: "\<forall>a\<in>set ?as. can_pay en rl False a (uint (tl_eager_net_limit l') - uint (net_usage_leeway (db_config tc))) 0"
    using p(1) by (auto intro: can_pay_mono [OF _ un p(4)])
  have "tl_net_limit l' = tl_net_limit ?l" "tl_objective_duration_limit l' = tl_objective_duration_limit ?l"
    "tl_net_usage l' = tl_net_usage ?l + u" unfolding l using e(1-3) by simp_all
  then show ?thesis
    using le below eager rounded_mod [of ?m] pay
    unfolding tc' by (simp add: objective_limits_spec set_record_billed_accounts)
qed

end
