(* ===== verification/Transaction_Runs.thy ===== *)
theory Transaction_Runs
  imports Transaction_Context Ram_Accounting
begin

text \<open>
  Runs of a transaction through its context: what the execution of actions keeps, the order of the
  receipts, that the execution ends, the limits over a whole run, the billing timer, and the record
  of the transactions that were seen.
\<close>

section \<open>What the execution of actions keeps\<close>

text \<open>The fields of a transaction, and those of a context, that no native handler touches.\<close>

definition trx_view :: "('k, 'a) transaction_context_scheme \<Rightarrow>
    (digest_type, u32) index \<times> transaction \<times> account_name list \<times> bool \<times> u64 \<times> microseconds" where
  "trx_view tc = (db_transactions tc, tc_trx tc, tc_bill_to_accounts tc, tc_is_initialized tc,
     tl_net_limit (tc_limits tc), tl_objective_duration_limit (tc_limits tc))"

definition exec_view :: "('k, 'a) apply_context_scheme \<Rightarrow>
    u64 \<times> ((digest_type, u32) index \<times> transaction \<times> account_name list \<times> bool \<times> u64 \<times> microseconds) \<times> account_name list" where
  "exec_view cx = (db_global_action_sequence cx, trx_view cx, ac_notified cx)"

named_theorems viewed

lemma view_updates [simp]:
  "exec_view (cx\<lparr>db_auth := a\<rparr>) = exec_view cx" "exec_view (cx\<lparr>db_accounts := t\<rparr>) = exec_view cx"
  "exec_view (cx\<lparr>db_sequences := s\<rparr>) = exec_view cx" "exec_view (cx\<lparr>db_rl := r\<rparr>) = exec_view cx"
  "exec_view (cx\<lparr>tc_validate_ram_usage := v\<rparr>) = exec_view cx"
  by (simp_all add: exec_view_def trx_view_def)

lemma view_context [simp]:
  "exec_view (x\<lparr>ac_used_authorizations := u\<rparr>) = exec_view x" "exec_view (x\<lparr>ac_account_ram_deltas := d\<rparr>) = exec_view x"
  "exec_view (x\<lparr>ac_privileged := p\<rparr>) = exec_view x" "exec_view (x\<lparr>ac_receiver := n\<rparr>) = exec_view x"
  "exec_view (with_auth ad x) = exec_view x"
  by (simp_all add: exec_view_def trx_view_def with_auth_def)

lemma view_set_generated [simp]: "exec_view (set_generated t cx) = exec_view cx"
  by (simp add: set_generated_def)

lemma view_add_ram [viewed]: "add_ram_usage cx a d = Inr cx' \<Longrightarrow> exec_view cx' = exec_view cx"
  by (auto simp: add_ram_usage_def trx_add_ram_usage_def)

lemma view_authorization [viewed]:
  "mark_authorization P cx = Inr cx' \<Longrightarrow> exec_view cx' = exec_view cx"
  "require_authorization cx n = Inr cx' \<Longrightarrow> exec_view cx' = exec_view cx"
  "require_authorization_permission cx n p = Inr cx' \<Longrightarrow> exec_view cx' = exec_view cx"
  "require_contract_owner cx n = Inr cx' \<Longrightarrow> exec_view cx' = exec_view cx"
  by (auto simp: mark_authorization_def require_authorization_def require_authorization_permission_def
    require_contract_owner_def split: option.splits if_splits)

lemma view_create_account [viewed]: "create_account en cx c = Inr cx' \<Longrightarrow> exec_view cx' = exec_view cx"
  unfolding create_account_def Let_def by (auto split: prod.splits)

lemma view_update_account [viewed]: "update_account cx n f g s s' = Inr cx' \<Longrightarrow> exec_view cx' = exec_view cx"
  unfolding update_account_def Let_def by (auto dest!: viewed split: if_splits)

lemma view_store_permission [viewed]: "store_permission en cx u p i = Inr cx' \<Longrightarrow> exec_view cx' = exec_view cx"
  unfolding store_permission_def Let_def by (auto dest!: viewed split: option.splits prod.splits)

lemma view_store_link [viewed]: "store_link cx k r = Inr cx' \<Longrightarrow> exec_view cx' = exec_view cx"
  unfolding store_link_def by (auto dest!: viewed split: option.splits)

lemma view_cancel [viewed]: "cancel_deferred_transaction cx i s = Inr (cx', b) \<Longrightarrow> exec_view cx' = exec_view cx"
  unfolding cancel_deferred_transaction_def by (auto dest!: viewed split: option.splits prod.splits)

lemma view_newaccount: "apply_snax_newaccount en cx = Inr cx' \<Longrightarrow> exec_view cx' = exec_view cx"
  unfolding apply_snax_newaccount_def Let_def by (auto dest!: viewed)

lemma view_setcode: "apply_snax_setcode en cx = Inr cx' \<Longrightarrow> exec_view cx' = exec_view cx"
  unfolding apply_snax_setcode_def Let_def by (auto dest!: viewed simp del: view_updates view_context)

lemma view_setabi: "apply_snax_setabi en cx = Inr cx' \<Longrightarrow> exec_view cx' = exec_view cx"
  unfolding apply_snax_setabi_def Let_def by (auto dest!: viewed)

lemma view_updateauth: "apply_snax_updateauth en cx = Inr cx' \<Longrightarrow> exec_view cx' = exec_view cx"
  unfolding apply_snax_updateauth_def by (auto dest!: viewed split del: if_split)

lemma view_deleteauth: "apply_snax_deleteauth en cx = Inr cx' \<Longrightarrow> exec_view cx' = exec_view cx"
  unfolding apply_snax_deleteauth_def Let_def by (auto dest!: viewed split: prod.splits)

lemma view_linkauth: "apply_snax_linkauth en cx = Inr cx' \<Longrightarrow> exec_view cx' = exec_view cx"
  unfolding apply_snax_linkauth_def by (auto dest!: viewed)

lemma view_unlinkauth: "apply_snax_unlinkauth en cx = Inr cx' \<Longrightarrow> exec_view cx' = exec_view cx"
  unfolding apply_snax_unlinkauth_def Let_def by (auto dest!: viewed)

lemma view_canceldelay: "apply_snax_canceldelay en cx = Inr cx' \<Longrightarrow> exec_view cx' = exec_view cx"
  unfolding apply_snax_canceldelay_def by (auto dest!: viewed)

lemmas view_handlers = view_newaccount view_setcode view_setabi view_updateauth view_deleteauth view_linkauth
  view_unlinkauth view_canceldelay

lemma view_native:
  assumes "find_apply_handler en r s a = Some h" "h cx = Inr cx'"
  shows "exec_view cx' = exec_view cx"
proof -
  have "h \<in> snd ` set (apply_handlers en)"
    using assms(1) by (auto simp: find_apply_handler_def split: if_splits dest: map_of_SomeD intro: rev_image_eqI)
  with assms(2) show ?thesis by (auto simp: apply_handlers_def dest: view_handlers)
qed


section \<open>Executed actions\<close>

text \<open>What is relied on of the contracts: they reach the state through the intrinsics alone, which offer no
  access to these fields, and \<^verbatim>\<open>require_recipient\<close>, which notifies an account once.\<close>

definition contracts_confined :: "'k trx_env \<Rightarrow> bool" where
  "contracts_confined en \<longleftrightarrow>
    (\<forall>v c cx cx'. te_wasm_apply en v c cx = Inr cx' \<longrightarrow>
      db_global_action_sequence cx' = db_global_action_sequence cx \<and> trx_view cx' = trx_view cx \<and>
      (distinct (ac_notified cx) \<longrightarrow> distinct (ac_notified cx')))"

text \<open>That contracts notify no other accounts than these.\<close>

definition recipients_within :: "'k trx_env \<Rightarrow> account_name set \<Rightarrow> bool" where
  "recipients_within en S \<longleftrightarrow>
    (\<forall>v c cx cx'. te_wasm_apply en v c cx = Inr cx' \<longrightarrow> set (ac_notified cx') \<subseteq> set (ac_notified cx) \<union> S)"

definition quiet :: "('k, 'a) apply_context_scheme \<Rightarrow> ('k, 'b) apply_context_scheme \<Rightarrow> bool" where
  "quiet cx cx' \<longleftrightarrow> trx_view cx' = trx_view cx \<and> (distinct (ac_notified cx) \<longrightarrow> distinct (ac_notified cx'))"

lemma run_handlers_cases:
  assumes "run_handlers en cx = Inr cx'"
  obtains cy where "exec_view cy = exec_view cx" "cx' = cy \<or> (\<exists>v c. te_wasm_apply en v c cy = Inr cx')"
proof -
  obtain acc :: account_object and cy where n: "(case find_apply_handler (chain_env.truncate en) (ac_receiver cx) (act_account (ac_act cx)) (act_name (ac_act cx)) of
         None \<Rightarrow> Inr (cx\<lparr>ac_privileged := ao_privileged acc\<rparr>)
       | Some native \<Rightarrow> ebind (check_producer_lists en (cx\<lparr>ac_privileged := ao_privileged acc\<rparr>) (ac_receiver cx) (ac_act cx))
           (\<lambda>_. native (cx\<lparr>ac_privileged := ao_privileged acc\<rparr>))) = Inr cy"
    and w: "cx' = cy \<or> (\<exists>v c. te_wasm_apply en v c cy = Inr cx')"
    using assms(1) unfolding run_handlers_def Let_def fc_rethrow_simps ebind_eq_Inr_iff
    by (elim exE conjE) (rule that, assumption, auto split: if_splits)
  have "exec_view cy = exec_view (cx\<lparr>ac_privileged := ao_privileged acc\<rparr>)"
    using n by (auto split: option.splits dest: view_native)
  then have "exec_view cy = exec_view cx" by simp
  from that [OF this w] show thesis .
qed

lemma run_handlers_quiet:
  assumes "run_handlers en cx = Inr cx'" "contracts_confined en"
  shows "db_global_action_sequence cx' = db_global_action_sequence cx" "quiet cx cx'"
proof -
  obtain cy where cy: "exec_view cy = exec_view cx" and w: "cx' = cy \<or> (\<exists>v c. te_wasm_apply en v c cy = Inr cx')"
    by (rule run_handlers_cases [OF assms(1)])
  have "db_global_action_sequence cx' = db_global_action_sequence cy \<and> quiet cy cx'"
    using w assms(2) unfolding contracts_confined_def quiet_def by blast
  with cy show "db_global_action_sequence cx' = db_global_action_sequence cx" "quiet cx cx'"
    by (auto simp: exec_view_def quiet_def)
qed

lemma next_sequence_quiet:
  "next_recv_sequence cx n = Inr (cx', s) \<Longrightarrow> exec_view cx' = exec_view cx"
  "next_auth_sequence cx n = Inr (cx', s) \<Longrightarrow> exec_view cx' = exec_view cx"
  by (auto simp: next_recv_sequence_def next_auth_sequence_def Let_def)

lemma next_auth_sequences_quiet:
  assumes "next_auth_sequences cx auths = Inr (cx', s)"
  shows "exec_view cx' = exec_view cx"
proof -
  have "exec_view (fst (cx', s)) = exec_view cx"
    by (rule efold_invariant [where P = "\<lambda>st. exec_view (fst st) = exec_view cx", OF assms [unfolded next_auth_sequences_def]])
      (auto dest: next_sequence_quiet)
  then show ?thesis by simp
qed

lemma exec_one_handlers:
  assumes "exec_one en cx = Inr (cx', r)"
  obtains cy where "run_handlers en cx = Inr cy"
    "exec_view cx' = exec_view (cy\<lparr>db_global_action_sequence := db_global_action_sequence cy + 1\<rparr>)"
    "ar_global_sequence r = db_global_action_sequence cy + 1"
  using assms unfolding exec_one_def Let_def next_global_sequence_def
  by (auto dest!: next_sequence_quiet next_auth_sequences_quiet)

lemma exec_one_recipients:
  assumes "exec_one en cx = Inr (cx', r)" "recipients_within en S"
  shows "set (ac_notified cx') \<subseteq> set (ac_notified cx) \<union> S"
proof -
  obtain cy where cy: "run_handlers en cx = Inr cy"
    "exec_view cx' = exec_view (cy\<lparr>db_global_action_sequence := db_global_action_sequence cy + 1\<rparr>)"
    by (rule exec_one_handlers [OF assms(1)])
  obtain cz where cz: "exec_view cz = exec_view cx" "cy = cz \<or> (\<exists>v c. te_wasm_apply en v c cz = Inr cy)"
    by (rule run_handlers_cases [OF cy(1)])
  from cz(2) assms(2) have "set (ac_notified cy) \<subseteq> set (ac_notified cz) \<union> S" unfolding recipients_within_def by blast
  with cy(2) cz(1) show ?thesis by (simp add: exec_view_def)
qed

lemma exec_one_spec:
  assumes "exec_one en cx = Inr (cx', r)" "contracts_confined en"
  shows "quiet cx cx'" "db_global_action_sequence cx' = db_global_action_sequence cx + 1"
    "ar_global_sequence r = db_global_action_sequence cx + 1"
proof -
  obtain cy where cy: "run_handlers en cx = Inr cy"
    and v: "exec_view cx' = exec_view (cy\<lparr>db_global_action_sequence := db_global_action_sequence cy + 1\<rparr>)"
    and r: "ar_global_sequence r = db_global_action_sequence cy + 1"
    by (rule exec_one_handlers [OF assms(1)])
  note q = run_handlers_quiet [OF cy assms(2)]
  from v q r show "quiet cx cx'" "db_global_action_sequence cx' = db_global_action_sequence cx + 1"
    "ar_global_sequence r = db_global_action_sequence cx + 1"
    by (auto simp: exec_view_def quiet_def trx_view_def)
qed

section \<open>The order of receipts, and the end of the execution\<close>

text \<open>A run from one state to another that pushed these receipts.\<close>

definition run_ok :: "('k, 'a) transaction_context_scheme \<Rightarrow> ('k, 'b) transaction_context_scheme \<Rightarrow> action_receipt list \<Rightarrow> bool" where
  "run_ok tc0 tc rs \<longleftrightarrow> trx_view tc = trx_view tc0 \<and>
    db_global_action_sequence tc = db_global_action_sequence tc0 + of_nat (length rs) \<and>
    (\<forall>i<length rs. ar_global_sequence (rs ! i) = db_global_action_sequence tc0 + of_nat (i + 1))"

lemma run_ok_start: "run_ok tc tc []"
  by (simp add: run_ok_def)

lemma run_ok_step:
  assumes "run_ok tc0 cx rs" "exec_one en cx = Inr (cx', r)" "contracts_confined en"
  shows "run_ok tc0 cx' (rs @ [r])"
  using assms(1) exec_one_spec [OF assms(2,3)]
  by (auto simp: run_ok_def quiet_def nth_append less_Suc_eq algebra_simps)

lemma run_ok_context:
  "run_ok tc0 (x\<lparr>ac_receiver := n\<rparr>) rs = run_ok tc0 x rs" "run_ok tc0 (x\<lparr>ac_notified := ns\<rparr>) rs = run_ok tc0 x rs"
  "run_ok tc0 (new_apply_context tc a d cf n) rs = run_ok tc0 tc rs"
  "run_ok tc0 (transaction_context.truncate x) rs = run_ok tc0 x rs"
  by (simp_all add: run_ok_def trx_view_def new_apply_context_def transaction_context.defs)

lemma notify_loop_ok:
  assumes "notify_loop en i cx rs = Some y" "run_ok tc0 cx rs" "y = Inr (cx', rs')" "contracts_confined en"
  shows "run_ok tc0 cx' rs'"
  using assms
proof (induction rule: notify_loop.raw_induct [rotated, consumes 1, case_names loop])
  case (loop more en i cx rs y)
  show ?case
  proof (cases "unat i < length (ac_notified cx)")
    case True
    with loop(2) loop.prems(2) obtain cy r where e: "exec_one en (cx\<lparr>ac_receiver := ac_notified cx ! unat i\<rparr>) = Inr (cy, r)"
      and l: "more en (i + 1) cy (rs @ [r]) = Some y" by (auto split: sum.splits)
    have "run_ok tc0 cy (rs @ [r])" using run_ok_step [OF _ e loop.prems(3)] loop.prems(1) by (simp add: run_ok_context)
    from loop(1) [OF l this loop.prems(2,3)] show ?thesis .
  next
    case False
    with loop(2) loop.prems show ?thesis by simp
  qed
qed

lemma exec_notified_ok:
  assumes "exec_notified en cx rs = Some (Inr (cx', rs'))" "run_ok tc0 cx rs" "contracts_confined en"
  shows "run_ok tc0 cx' rs'"
proof -
  obtain cy r where e: "exec_one en (cx\<lparr>ac_notified := ac_notified cx @ [ac_receiver cx]\<rparr>) = Inr (cy, r)"
    and l: "notify_loop en 1 cy (rs @ [r]) = Some (Inr (cx', rs'))"
    using assms(1) unfolding exec_notified_def by (auto split: sum.splits)
  have "run_ok tc0 cy (rs @ [r])" using run_ok_step [OF _ e assms(3)] assms(2) by (simp add: run_ok_context)
  from notify_loop_ok [OF l this refl assms(3)] show ?thesis .
qed

abbreviation "pair_ok tc0 st \<equiv> run_ok tc0 (fst st) (snd st)"

lemma dispatch_action_ok:
  assumes "dispatch_action en cf d n st a = Some (Inr st')" "contracts_confined en" "pair_ok tc0 st"
  shows "pair_ok tc0 st'"
  using assms
proof (induction en cf d n st a arbitrary: st' rule: dispatch_action.induct)
  case (1 en cf d n st a)
  obtain p where n: "exec_notified en (new_apply_context (fst st) a d cf n) (snd st) = Some (Inr p)"
    and e: "(if (ac_cfa_inline_actions (fst p) \<noteq> [] \<or> ac_inline_actions (fst p) \<noteq> []) \<and> \<not> d < ucast (max_inline_action_depth (db_config (fst p)))
       then Some (Inl transaction_exception)
       else obind (ofold (\<lambda>st b. dispatch_action en True (d + 1) (act_account b) st b)
           (transaction_context.truncate (fst p), snd p) (ac_cfa_inline_actions (fst p))) (\<lambda>st.
         ofold (\<lambda>st b. dispatch_action en False (d + 1) (act_account b) st b) st (ac_inline_actions (fst p)))) = Some (Inr st')"
    using 1(3) unfolding dispatch_action.simps [of en cf d n st a] obind_eq_Inr_iff split_beta by blast
  obtain cx rs where p: "p = (cx, rs)" by (cases p)
  note n = n [unfolded p] and e = e [unfolded p fst_conv snd_conv]
  from e have c: "\<not> ((ac_cfa_inline_actions cx \<noteq> [] \<or> ac_inline_actions cx \<noteq> []) \<and> \<not> d < ucast (max_inline_action_depth (db_config cx)))"
    by (auto split: if_splits)
  from e obtain su where f: "ofold (\<lambda>st b. dispatch_action en True (d + 1) (act_account b) st b)
      (transaction_context.truncate cx, rs) (ac_cfa_inline_actions cx) = Some (Inr su)"
    and g: "ofold (\<lambda>st b. dispatch_action en False (d + 1) (act_account b) st b) su (ac_inline_actions cx) = Some (Inr st')"
    unfolding if_not_P [OF c] by auto
  have "run_ok tc0 cx rs" using exec_notified_ok [OF n _ 1(4)] 1(5) by (simp add: run_ok_context)
  then have "pair_ok tc0 (transaction_context.truncate cx, rs)" by (simp add: run_ok_context)
  then have "pair_ok tc0 su"
    by (rule ofold_invariant [OF f]) (use 1(1) [OF n refl c] 1(4) in blast)
  then show ?case
    by (rule ofold_invariant [OF g]) (use 1(2) [OF n refl c f] 1(4) in blast)
qed

lemma add_net_usage_view:
  "add_net_usage cv l u = Inr l' \<Longrightarrow>
    tl_net_limit l' = tl_net_limit l \<and> tl_objective_duration_limit l' = tl_objective_duration_limit l"
  by (auto simp: add_net_usage_def Let_def)

lemma trx_add_ram_usage_view:
  "trx_add_ram_usage tc a d = Inr tc' \<Longrightarrow>
    trx_view tc' = trx_view tc \<and> db_global_action_sequence tc' = db_global_action_sequence tc"
  by (auto simp: trx_add_ram_usage_def trx_view_def)

lemma guarded_ebind: "(if c then Inl e else ebind m f) = Inr y \<Longrightarrow> \<exists>x. f x = Inr y"
  by (auto split: if_split_asm)

lemma schedule_transaction_ok:
  assumes "schedule_transaction en tc = Inr tc'"
  shows "trx_view tc' = trx_view tc" "db_global_action_sequence tc' = db_global_action_sequence tc"
proof -
  obtain l t p d where
    l: "(if th_delay_sec (tc_trx tc) = 0
        then add_net_usage (en_view en) (tc_limits tc) (ucast (base_per_transaction_net_usage (db_config tc)) + 32)
        else Inr (tc_limits tc)) = Inr l"
    and r: "trx_add_ram_usage (set_generated t (tc\<lparr>tc_limits := l\<rparr>)) p d = Inr tc'"
    using assms unfolding schedule_transaction_def Let_def ebind_eq_Inr_iff
    by (elim exE conjE) (drule guarded_ebind, elim exE, rule that, assumption+)
  have "tl_net_limit l = tl_net_limit (tc_limits tc)" "tl_objective_duration_limit l = tl_objective_duration_limit (tc_limits tc)"
    using l add_net_usage_view by (auto split: if_split_asm)
  then have "trx_view (set_generated t (tc\<lparr>tc_limits := l\<rparr>)) = trx_view tc"
    by (simp add: trx_view_def set_generated_def)
  with trx_add_ram_usage_view [OF r] show "trx_view tc' = trx_view tc"
    "db_global_action_sequence tc' = db_global_action_sequence tc" by (simp_all add: set_generated_def)
qed

lemma dispatched_ok:
  assumes "ofold (\<lambda>st a. dispatch_action en cf d (act_account a) st a) st as = Some (Inr st')" "contracts_confined en"
    "pair_ok tc0 st"
  shows "pair_ok tc0 st'"
  by (rule ofold_invariant [where P = "pair_ok tc0", OF assms(1,3)]) (rule dispatch_action_ok [OF _ assms(2)])

lemma trx_exec_ok:
  assumes "trx_exec en tc = Some (Inr (tc', rs))" "contracts_confined en"
  shows "run_ok tc tc' rs"
proof -
  from assms(1) obtain st where c: "(if tc_apply_context_free tc
       then ofold (\<lambda>st a. dispatch_action en True 0 (act_account a) st a) (tc, []) (tx_context_free_actions (tc_trx tc))
       else Some (Inr (tc, []))) = Some (Inr st)"
    and a: "(if tc_delay tc = 0
       then ofold (\<lambda>st a. dispatch_action en False 0 (act_account a) st a) st (tx_actions (tc_trx tc))
       else Some (ebind (schedule_transaction en (fst st)) (\<lambda>tc. Inr (tc, snd st)))) = Some (Inr (tc', rs))"
    unfolding trx_exec_def by (auto split: if_split_asm)
  have start: "pair_ok tc (tc, [])" by (simp add: run_ok_start)
  have st: "pair_ok tc st"
  proof (cases "tc_apply_context_free tc")
    case True
    with c have "ofold (\<lambda>st a. dispatch_action en True 0 (act_account a) st a) (tc, []) (tx_context_free_actions (tc_trx tc)) = Some (Inr st)"
      by simp
    then show ?thesis by (rule dispatched_ok) (rule assms(2), rule start)
  qed (use c start in auto)
  show ?thesis
  proof (cases "tc_delay tc = 0")
    case True
    with a have "ofold (\<lambda>st a. dispatch_action en False 0 (act_account a) st a) st (tx_actions (tc_trx tc)) = Some (Inr (tc', rs))"
      by simp
    from dispatched_ok [OF this assms(2) st] show ?thesis by simp
  next
    case False
    with a obtain "schedule_transaction en (fst st) = Inr tc'" "rs = snd st" by auto
    with schedule_transaction_ok [of en "fst st" tc'] st show ?thesis by (simp add: run_ok_def)
  qed
qed

text \<open>The loop over the notified accounts ends, as no account is notified twice and the accounts that are
  notified are fewer than the values of its 32-bit counter.\<close>

lemma notify_loop_ends:
  assumes "contracts_confined en" "recipients_within en S" "S \<subseteq> T" "card T < 2 ^ 32"
    "distinct (ac_notified cx)" "set (ac_notified cx) \<subseteq> T"
  shows "notify_loop en i cx rs \<noteq> None"
  using assms(5,6)
proof (induction "2 ^ 32 - unat i" arbitrary: i cx rs rule: less_induct)
  case less
  show ?case
  proof (cases "unat i < length (ac_notified cx)")
    case False
    then show ?thesis by (subst notify_loop.simps) simp
  next
    case True
    show ?thesis
    proof (cases "exec_one en (cx\<lparr>ac_receiver := ac_notified cx ! unat i\<rparr>)")
      case (Inl e)
      then show ?thesis by (subst notify_loop.simps) simp
    next
      case (Inr r)
      obtain cy q where r: "r = (cy, q)" by (cases r)
      have d: "distinct (ac_notified cy)" using exec_one_spec(1) [OF Inr [unfolded r] assms(1)] less(2) by (simp add: quiet_def)
      have t: "set (ac_notified cy) \<subseteq> T" using exec_one_recipients [OF Inr [unfolded r] assms(2)] less(3) assms(3) by auto
      have "length (ac_notified cx) \<le> card T" using distinct_card [OF less(2)] card_mono [OF _ less(3)] by simp
      then have u: "unat (i + 1) = unat i + 1" using True assms(4) by (simp add: unat_word_ariths)
      have "2 ^ 32 - unat (i + 1) < 2 ^ 32 - unat i" using u True \<open>length (ac_notified cx) \<le> card T\<close> assms(4) by simp
      from less(1) [OF this d t] Inr r True show ?thesis by (subst notify_loop.simps) simp
    qed
  qed
qed

lemma exec_notified_ends:
  assumes "contracts_confined en" "recipients_within en S" "card S + 1 < 2 ^ 32" "ac_notified cx = []"
  shows "exec_notified en cx rs \<noteq> None"
proof (cases "exec_one en (cx\<lparr>ac_notified := ac_notified cx @ [ac_receiver cx]\<rparr>)")
  case (Inr r)
  obtain cy q where r: "r = (cy, q)" by (cases r)
  have d: "distinct (ac_notified cy)" "set (ac_notified cy) \<subseteq> insert (ac_receiver cx) S"
    using exec_one_spec(1) [OF Inr [unfolded r] assms(1)] exec_one_recipients [OF Inr [unfolded r] assms(2)] assms(4)
    by (simp_all add: quiet_def)
  have "card (insert (ac_receiver cx) S) < 2 ^ 32" using card_insert_le_m1 [of "card S + 1" S "ac_receiver cx"] assms(3) by simp
  from notify_loop_ends [OF assms(1,2) subset_insertI this d] Inr r show ?thesis by (simp add: exec_notified_def)
qed (simp add: exec_notified_def)

lemma obind_ends:
  assumes "m \<noteq> None" "\<And>x. m = Some (Inr x) \<Longrightarrow> f x \<noteq> None"
  shows "obind m f \<noteq> None"
  using assms by (auto simp: obind_def split: option.splits sum.splits)

lemma ofold_ends:
  assumes "\<And>s x. x \<in> set xs \<Longrightarrow> f s x \<noteq> None"
  shows "ofold f s xs \<noteq> None"
  using assms
proof (induction xs arbitrary: s)
  case (Cons x xs)
  have "ofold f t xs \<noteq> None" for t by (rule Cons(1)) (simp add: Cons(2))
  moreover have "f s x \<noteq> None" by (rule Cons(2)) simp
  ultimately show ?case unfolding ofold.simps by (intro obind_ends)
qed simp

lemma ends_if: "(\<not> c \<Longrightarrow> m \<noteq> None) \<Longrightarrow> (if c then Some x else m) \<noteq> None"
  by simp

lemma dispatch_action_ends:
  "contracts_confined en \<Longrightarrow> recipients_within en S \<Longrightarrow> card S + 1 < 2 ^ 32 \<Longrightarrow> dispatch_action en cf d n st a \<noteq> None"
proof (induction en cf d n st a rule: dispatch_action.induct)
  case (1 en cf d n st a)
  have start: "exec_notified en (new_apply_context (fst st) a d cf n) (snd st) \<noteq> None"
    by (rule exec_notified_ends [OF 1(3-5)]) (simp add: new_apply_context_def transaction_context.defs)
  show ?case
    unfolding dispatch_action.simps [of en cf d n st a]
  proof (rule obind_ends [OF start])
    fix x assume x: "exec_notified en (new_apply_context (fst st) a d cf n) (snd st) = Some (Inr x)"
    obtain cx rs where p: "x = (cx, rs)" by (cases x)
    note IH = 1(1) [OF x p [symmetric] _ _ 1(3-5)] 1(2) [OF x p [symmetric] _ _ _ 1(3-5)]
    show "(case x of (cx, rs) \<Rightarrow>
      if (ac_cfa_inline_actions cx \<noteq> [] \<or> ac_inline_actions cx \<noteq> []) \<and> \<not> d < ucast (max_inline_action_depth (db_config cx))
      then Some (Inl transaction_exception)
      else obind (ofold (\<lambda>st b. dispatch_action en True (d + 1) (act_account b) st b)
          (transaction_context.truncate cx, rs) (ac_cfa_inline_actions cx)) (\<lambda>st.
        ofold (\<lambda>st b. dispatch_action en False (d + 1) (act_account b) st b) st (ac_inline_actions cx))) \<noteq> None"
      unfolding p case_prod_conv by (rule ends_if) (intro obind_ends ofold_ends IH)
  qed
qed

text \<open>C7. The execution of a transaction ends, whatever its actions, notifications and inline actions are, as long as the contracts
  notify accounts among fewer than \<open>2 ^ 32 - 1\<close> (the counter of the loop over the notified accounts has 32 bits): with an
  error, or with a receipt for each executed action.  The receipts are numbered consecutively by the global
  sequence of actions, in the order in which they were executed, and the sequence has advanced by their number.\<close>

theorem execution_ends_in_order:
  assumes "contracts_confined en" "recipients_within en S" "card S + 1 < 2 ^ 32"
  shows "\<exists>r. trx_exec en tc = Some r \<and>
    (\<forall>tc' rs. r = Inr (tc', rs) \<longrightarrow>
      db_global_action_sequence tc' = db_global_action_sequence tc + of_nat (length rs) \<and>
      (\<forall>i<length rs. ar_global_sequence (rs ! i) = db_global_action_sequence tc + of_nat (i + 1)))"
proof -
  have "trx_exec en tc \<noteq> None"
    unfolding trx_exec_def
    by (rule ends_if, rule obind_ends)
      (auto simp del: not_None_eq split: if_split intro!: ofold_ends dispatch_action_ends [OF assms])
  then show ?thesis using trx_exec_ok [OF _ assms(1)] by (auto simp: run_ok_def)
qed

section \<open>A whole run\<close>

lemma init_for_input_trx_Inr:
  assumes "init_for_input_trx en clock tc m p skip = Inr tc'"
  obtains u tc1 where
    "trx_init en clock (tc\<lparr>tc_published := ad_pending_block_time (db_auth tc), tc_is_input := True\<rparr>) u = Inr tc1"
    "(if skip then Inr tc1 else record_transaction tc1 (tc_id tc1) (th_expiration (tc_trx tc))) = Inr tc'"
  using assms unfolding init_for_input_trx_def Let_def ebind_eq_Inr_iff by (elim exE conjE) (rule that, assumption, simp split: if_split_asm)

lemma record_transaction_Inr:
  "record_transaction tc i e = Inr tc' \<longleftrightarrow>
    idx_find (db_transactions tc) i = None \<and> tc' = tc\<lparr>db_transactions := idx_put i e (db_transactions tc)\<rparr>"
  by (auto simp: record_transaction_def idx_create_def split: option.splits sum.splits)

text \<open>C6. An input transaction that is initialized, executed and finalized stays within its limits, when the checks of
  transactions are not skipped (they are when replayed blocks or, in light validation, signed blocks are applied).  The network usage
  it is billed is a whole number of words and at most the least of what its block had left, the configured maximum
  and what its header allows, and so is the processor time, which is at least the minimum; every
  account that authorizes one of its actions can pay both; and exactly this usage is added to the
  pending usage of the block.\<close>

theorem transaction_within_limits:
  assumes "\<not> skip_trx_checks (en_view en)" "contracts_confined en"
    and "init_for_input_trx en clock tc m p skip = Inr tc1" "trx_exec en tc1 = Some (Inr (tc2, rs))"
    and "trx_finalize en now tc2 = Inr tc3"
  shows "tl_net_usage (tc_limits tc3) mod 8 = 0 \<and>
    tl_net_usage (tc_limits tc3) \<le> net_allowed (db_rl tc) (db_config tc) (tc_trx tc) \<and>
    uint (min_transaction_cpu_usage (db_config tc2)) \<le> tl_billed_cpu_time_us (tc_limits tc3) \<and>
    tl_billed_cpu_time_us (tc_limits tc3) \<le> time_allowed (db_rl tc) (db_config tc) (tc_trx tc) \<and>
    (\<forall>a\<in>set (tx_actions (tc_trx tc)). \<forall>auth\<in>set (act_authorization a).
      can_pay en (db_rl tc2) False (fst auth) (uint (tl_net_usage (tc_limits tc3))) (tl_billed_cpu_time_us (tc_limits tc3))) \<and>
    pending_net_usage (rl_state (db_rl tc3)) = pending_net_usage (rl_state (db_rl tc2)) + tl_net_usage (tc_limits tc3) \<and>
    pending_cpu_usage (rl_state (db_rl tc3)) =
      pending_cpu_usage (rl_state (db_rl tc2)) + word_of_int (tl_billed_cpu_time_us (tc_limits tc3))"
proof -
  obtain u tc0 where
    i: "trx_init en clock (tc\<lparr>tc_published := ad_pending_block_time (db_auth tc), tc_is_input := True\<rparr>) u = Inr tc0"
    and r: "(if skip then Inr tc0 else record_transaction tc0 (tc_id tc0) (th_expiration (tc_trx tc))) = Inr tc1"
    by (rule init_for_input_trx_Inr [OF assms(3)])
  note o = init_outcome [OF assms(1) i]
  have tc1: "tc_limits tc1 = tc_limits tc0" "tc_bill_to_accounts tc1 = tc_bill_to_accounts tc0"
    using r by (auto simp: record_transaction_Inr split: if_splits)
  have "trx_view tc2 = trx_view tc1" using trx_exec_ok [OF assms(4,2)] by (simp add: run_ok_def)
  then have v: "tl_net_limit (tc_limits tc2) = tl_net_limit (tc_limits tc1)"
    "tl_objective_duration_limit (tc_limits tc2) = tl_objective_duration_limit (tc_limits tc1)"
    "tc_bill_to_accounts tc2 = tc_bill_to_accounts tc1" by (simp_all add: trx_view_def)
  have lims: "tl_net_limit (tc_limits tc2) = net_allowed (db_rl tc) (db_config tc) (tc_trx tc)"
    "tl_objective_duration_limit (tc_limits tc2) = time_allowed (db_rl tc) (db_config tc) (tc_trx tc)"
    unfolding v(1,2) tc1 using o by simp_all
  have billed: "fst auth \<in> set (tc_bill_to_accounts tc2)" if "a \<in> set (tx_actions (tc_trx tc))" "auth \<in> set (act_authorization a)" for a auth
    unfolding v(3) tc1 using o that by auto
  note f = finalize_outcome [OF assms(1,5), unfolded lims]
  have "tl_net_usage (tc_limits tc3) mod 8 = 0" unfolding conjunct1 [OF f] by (rule rounded_mod)
  with conjunct2 [OF f] billed show ?thesis by blast
qed

text \<open>C40. Time on a paused billing timer is not billed.  When the timer of a transaction is paused and resumed later, the
  time billed is that before the pause and that after it, or the minimum; the transaction then runs out of time exactly
  when this time exceeds its duration limit or the clock passes its deadline.  While the timer is
  paused the only failure is that of the deadline, and pausing it again changes nothing.\<close>

theorem billing_pause_free:
  assumes "\<not> tl_explicit_billed_cpu_time l" "tl_pseudo_start l \<noteq> 0"
  shows "tl_billed_cpu_time_us (fst (update_billed_cpu_time cfg (resume_billing_timer (pause_billing_timer l t1) t2) t3)) =
      max ((t1 - tl_pseudo_start l) + (t3 - t2)) (uint (min_transaction_cpu_usage cfg)) \<and>
    (checktime (resume_billing_timer (pause_billing_timer l t1) t2) (True, t3) = Inr () \<longleftrightarrow>
      (t1 - tl_pseudo_start l) + (t3 - t2) \<le> tl_billing_timer_duration_limit l \<and> t3 \<le> tl_deadline l) \<and>
    checktime (pause_billing_timer l t1) r \<in> {Inr (), Inl deadline_exception} \<and>
    pause_billing_timer (pause_billing_timer l t1) t2 = pause_billing_timer l t1"
  using assms
  by (auto simp: update_billed_cpu_time_def resume_billing_timer_def pause_billing_timer_def checktime_def Let_def algebra_simps)

section \<open>A transaction with a notification\<close>

definition demo_trx_env :: "nat trx_env" where
  "demo_trx_env = chain_env.extend demo_env
     \<lparr>te_cbrt_mul = (\<lambda>_ _. 0), te_block_summaries = [(0, zero_digest)],
      te_wasm_apply = (\<lambda>_ _ cx. Inr (require_recipient cx 5)), te_hash_action = (\<lambda>_. zero_digest)\<rparr>"

definition demo_trx :: transaction where
  "demo_trx = \<lparr>th_expiration = 30, th_ref_block_num = 0, th_ref_block_prefix = 0, th_max_net_usage_words = 0,
     th_max_cpu_usage_ms = 0, th_delay_sec = 0, tx_context_free_actions = [],
     tx_actions = [\<lparr>act_account = 7, act_name = 8, act_authorization = [(5, active_name)], act_data = []\<rparr>],
     tx_transaction_extensions = []\<rparr>"

definition demo_trx_db :: "nat chain_db" where
  "demo_trx_db = chain_db.truncate demo_context
     \<lparr>db_accounts := [(5, new_account_object), (7, new_account_object\<lparr>ao_code := [1]\<rparr>)],
      db_rl := (db_rl demo_context)\<lparr>rl_limits := [((False, 5), new_resource_limits), ((False, 7), new_resource_limits)]\<rparr>\<rparr>"

definition demo_fresh :: "nat transaction_context" where
  "demo_fresh = projr (new_transaction_context demo_trx_db demo_trx zero_digest 100)"

definition demo_ready :: "nat transaction_context" where
  "demo_ready = projr (init_for_input_trx demo_trx_env (False, 100) demo_fresh 120 10 False)"

definition demo_ran :: "nat transaction_context \<times> action_receipt list" where
  "demo_ran = projr (the (trx_exec demo_trx_env demo_ready))"

definition demo_billed :: "nat transaction_context" where
  "demo_billed = projr (trx_finalize demo_trx_env 1100 (fst demo_ran))"

lemma demo_confined: "contracts_confined demo_trx_env"
  by (auto simp: contracts_confined_def demo_trx_env_def chain_env.defs require_recipient_def has_recipient_def trx_view_def)

lemma demo_stages:
  "init_for_input_trx demo_trx_env (False, 100) demo_fresh 120 10 False = Inr demo_ready"
  "trx_exec demo_trx_env demo_ready = Some (Inr (fst demo_ran, snd demo_ran))"
  "trx_finalize demo_trx_env 1100 (fst demo_ran) = Inr demo_billed"
proof -
  have "\<not> isl (init_for_input_trx demo_trx_env (False, 100) demo_fresh 120 10 False)" by code_simp
  then show "init_for_input_trx demo_trx_env (False, 100) demo_fresh 120 10 False = Inr demo_ready" by (simp add: demo_ready_def)
  have "case trx_exec demo_trx_env demo_ready of Some (Inr p) \<Rightarrow> True | _ \<Rightarrow> False" by code_simp
  then show "trx_exec demo_trx_env demo_ready = Some (Inr (fst demo_ran, snd demo_ran))"
    by (auto simp: demo_ran_def split: option.splits sum.splits)
  have "\<not> isl (trx_finalize demo_trx_env 1100 (fst demo_ran))" by code_simp
  then show "trx_finalize demo_trx_env 1100 (fst demo_ran) = Inr demo_billed" by (simp add: demo_billed_def)
qed

theorem transaction_within_limits_witness:
  "tl_billed_cpu_time_us (tc_limits demo_billed) \<le> time_allowed (db_rl demo_fresh) (db_config demo_fresh) demo_trx"
proof -
  have "\<not> skip_trx_checks (en_view demo_trx_env)" "tc_trx demo_fresh = demo_trx" by code_simp+
  from transaction_within_limits [OF this(1) demo_confined demo_stages] this(2) show ?thesis by simp
qed

lemma demo_recipients: "recipients_within demo_trx_env {5}"
  by (auto simp: recipients_within_def demo_trx_env_def chain_env.defs require_recipient_def split: if_splits)

theorem execution_ends_in_order_witness: "\<exists>r. trx_exec demo_trx_env demo_ready = Some r"
  using execution_ends_in_order [OF demo_confined demo_recipients, of demo_ready] by auto

theorem billing_pause_free_witness:
  "tl_billed_cpu_time_us (fst (update_billed_cpu_time initial_configuration
     (resume_billing_timer (pause_billing_timer (new_trx_limits 100) 600) 5000) 5400)) = 900"
proof -
  have "\<not> tl_explicit_billed_cpu_time (new_trx_limits 100)" "tl_pseudo_start (new_trx_limits 100) \<noteq> 0"
    "tl_pseudo_start (new_trx_limits 100) = 100" by (simp_all add: new_trx_limits_def)
  with billing_pause_free [OF this(1,2), of initial_configuration 600 5000 5400] show ?thesis
    by (simp add: initial_configuration_def)
qed

end
