(* ===== verification/Spec2Isabelle.thy ===== *)
theory Spec2Isabelle
  imports Resource_Limits Merkle Authority Names Permissions Chain_Policy Chain_State
    Apply_Context Native_Actions Ram_Accounting Contract_Tables Deferred Assets Token Block_Header_State Fork_Database Fork_Chains
    Packed_Transactions Transaction_Context Transaction_Runs
begin

text \<open>
  A verification of the chain library of the snax node and of its token contract.

  \<^bold>\<open>The program.\<close>  A node keeps a database of accounts, permissions, resource limits and contract
  tables.  A transaction is a list of actions with declared permissions.  The authorization manager
  decides whether the provided keys and permissions justify the declared ones; each action then runs
  in an apply context, as a native handler or as a contract that reaches the database through
  intrinsics; memory is billed to payers, and network and processor time to the limits of accounts.
  Blocks are chained by headers, whose state says who may produce next and which block is irreversible.

  \<^bold>\<open>Conventions.\<close>  Unsigned integers are words of their width and wrap; a signed 64-bit integer is an
  \<^verbatim>\<open>int\<close> with the wrap-around written out by \<^verbatim>\<open>wrap_i64\<close>.  A function that may throw
  returns \<^verbatim>\<open>exception + 'a\<close>, with the name of the exception of the source; reading a dangling
  pointer, or another operation C++ leaves undefined, is the error \<^verbatim>\<open>undefined_behaviour\<close>.  State
  is passed explicitly; an object behind a pointer is a row of a table named by its key.  Functions of
  libraries that are not part of the sources (hashing, key recovery, packing, text conversion, the cube
  root) are arguments, collected in records, and what is assumed of them is a hypothesis of the theorem.

  \<^bold>\<open>The theories.\<close>
  \<^item> \<^verbatim>\<open>Prelude\<close>, \<^verbatim>\<open>Object_Index\<close>: types, exceptions and shared lemmas; the unique ordered index
    behind every table, as the locale \<^verbatim>\<open>keyed_store\<close> and its interpretation \<^verbatim>\<open>index\<close>.
  \<^item> \<^verbatim>\<open>Names\<close> (\<^verbatim>\<open>name.hpp\<close>, \<^verbatim>\<open>name.cpp\<close>): names as 64-bit numbers; the round trip of
    printing and parsing, and exactly which strings are accepted.
  \<^item> \<^verbatim>\<open>Merkle\<close> (\<^verbatim>\<open>merkle.cpp\<close>, \<^verbatim>\<open>incremental_merkle.hpp\<close>): the incremental tree computes the
    root of the plain one; the depth computation is the least sufficient one.
  \<^item> \<^verbatim>\<open>Resource_Limits\<close> (\<^verbatim>\<open>resource_limits.cpp\<close>): the usage average, elastic limits, pending
    limits; totals are the sums over accounts, and pending limits are all applied unless their sum exceeds 64 bits.
  \<^item> \<^verbatim>\<open>Authority\<close>, \<^verbatim>\<open>Permissions\<close> (\<^verbatim>\<open>authority_checker.hpp\<close>,
    \<^verbatim>\<open>authorization_manager.cpp\<close>): the checker grants only what keys justify; an accepted transaction
    declares permissions of sufficient rank; the walk up the permissions ends.
  \<^item> \<^verbatim>\<open>Chain_Policy\<close> (\<^verbatim>\<open>chain_config.cpp\<close>, \<^verbatim>\<open>block_timestamp.hpp\<close>, \<^verbatim>\<open>transaction.cpp\<close>, parts
    of \<^verbatim>\<open>controller.cpp\<close>): configuration, block time, reference blocks, account lists.
  \<^item> \<^verbatim>\<open>Chain_State\<close>, \<^verbatim>\<open>Apply_Context\<close>, \<^verbatim>\<open>Native_Actions\<close> (\<^verbatim>\<open>apply_context.cpp\<close>,
    \<^verbatim>\<open>snax_contract.cpp\<close>): the database, the context of an action with its iterators and
    billing, and the native handlers; their lemmas are in \<^verbatim>\<open>Ram_Accounting\<close> (memory of native
    actions is billed exactly, the permission tree stays a tree), \<^verbatim>\<open>Contract_Tables\<close> (the primary table
    operations, with all they return, refine abstract tables, no iterator dangles but in one place, memory is billed exactly; the
    locale \<^verbatim>\<open>handle_cache\<close> is the contract of the iterator cache, interpreted as
    \<^verbatim>\<open>handles\<close>) and \<^verbatim>\<open>Deferred\<close> (deferred transactions).
  \<^item> \<^verbatim>\<open>Packed_Transactions\<close> (\<^verbatim>\<open>transaction.cpp\<close>): packing and unpacking are inverse within the
    limit on decompression; the cache of recovered keys agrees with recovery as long as the signed digest is the same, and
    only then.
  \<^item> \<^verbatim>\<open>Transaction_Context\<close> (\<^verbatim>\<open>transaction_context.cpp\<close>, \<^verbatim>\<open>exec\<close> of \<^verbatim>\<open>apply_context.cpp\<close>):
    the limits of a transaction, its billing, and the tree of its actions.  \<^verbatim>\<open>Transaction_Runs\<close>: what the
    execution of actions keeps; it ends, its receipts are numbered in order, a transaction that is finalized stays within
    the limits it started with, and paused time is not billed.  Contracts are a parameter, of which the
    theorems assume that they reach these fields only through the intrinsics; the limits hold where the checks of transactions are
    not skipped.
  \<^item> \<^verbatim>\<open>Assets\<close> (\<^verbatim>\<open>symbol.hpp\<close>, \<^verbatim>\<open>asset.cpp\<close>): printing and parsing of assets are inverse.
  \<^item> \<^verbatim>\<open>Token\<close> (\<^verbatim>\<open>snax.token\<close>, \<^verbatim>\<open>snaxlib\<close>): the token contract; its rows are well typed,
    supplies are the sums of balances, transfers and issues do exactly what they should.
  \<^item> \<^verbatim>\<open>Block_Header_State\<close> (\<^verbatim>\<open>block_header.cpp\<close>, \<^verbatim>\<open>block_header_state.cpp\<close>): chains of accepted
    headers as an inductive relation; numbers, links and irreversibility.
  \<^item> \<^verbatim>\<open>Fork_Database\<close>, \<^verbatim>\<open>Fork_Chains\<close> (\<^verbatim>\<open>fork_database.cpp\<close>, \<^verbatim>\<open>block_state.cpp\<close>): the
    tree of candidate blocks over the header states.  The ordered indices of the container satisfy the
    locale \<^verbatim>\<open>weak_order\<close>, interpreted for the three keys; the head is best, removal takes exactly a
    subtree, BFT irreversibility spreads to exactly the descendants.  Histories of calls are an inductive
    relation; in all of them the blocks stay connected, so that (in this theory) the branches between
    any two known blocks are found; one of them ends in pruning that goes on at an erased block.  The handlers of the
    signal for irreversible blocks are not run.

  \<^bold>\<open>Bounds.\<close>  No loop is cut short by fuel that the source does not have: the walks that follow
  pointers are options, with \<^verbatim>\<open>None\<close> for a walk that does not end, and are proved to end on
  well-formed tables; depth limits are those of the configuration.  Chains of headers are assumed to stay
  below the last 32-bit block number.  The recursion of inline actions ends by the configured depth, and the loop over
  notified accounts, whose counter has 32 bits, because none is notified twice and contracts are assumed to notify accounts among fewer than
  \<open>2 ^ 32 - 1\<close>.  The packed size of a deferred transaction is charged by its lower 32 bits; the theorem on its memory assumes that it is
  not longer.  Other counters and positions of 32 bits (the queue of removed blocks, iterators of contracts) are unbounded in the
  model, which agrees with the code while there are fewer than \<open>2 ^ 31 - 1\<close> of them.

  \<^bold>\<open>Not modelled.\<close>  The controller's application of blocks and transactions, which drives the undo sessions
  of the database library, and with it \<^verbatim>\<open>squash\<close> and \<^verbatim>\<open>undo\<close> of a transaction context;
  the deadline timer, a signal handler, whose flag is an argument; traces other than receipts; secondary
  indices of contract tables; the wasm runtimes, validation and injection; the ABI serializer; the block
  log and snapshots (files); plugins and programs (input and output); the system contract (floating-point
  arithmetic of a library outside the sources) and the other contracts.
\<close>

section \<open>Forks of a node\<close>

text \<open>C10. Between any two blocks that a node knows, the branches are found.  In every fork database that
  starts with the genesis block and grows by received, produced, confirmed and rejected blocks, with
  pruning below the last irreversible block, the search from two known blocks ends without an
  error: it follows previous links from each of them down to two blocks of one number with the same previous block.
  The branches share no block, unless one of the two blocks builds on the other and ends both.\<close>

theorem fork_branches_found:
  assumes "\<And>n. he_endian_reverse_u32 en (he_endian_reverse_u32 en n) = n" "he_endian_reverse_u32 en 0 = 0"
    and "fork_history en db" "get_block db i = Some b" "get_block db j = Some c"
  shows "\<exists>us u vs v. fetch_branch_from db i j = Some (Inr (us @ [u], vs @ [v])) \<and>
    linked db b us u \<and> linked db c vs v \<and> prev_of u = prev_of v \<and> bs_block_num u = bs_block_num v \<and>
    (u = v \<longrightarrow> us = [] \<or> vs = []) \<and> set us \<inter> set (vs @ [v]) = {} \<and> set vs \<inter> set (us @ [u]) = {}"
  using forks_fetch [OF history_forks [OF assms(3,1,2)] assms(4,5)] .

theorem fork_branches_found_witness:
  "\<exists>db i j us u vs v. fork_history fork_demo_env db \<and> fetch_branch_from db i j = Some (Inr (us @ [u], vs @ [v])) \<and>
    prev_of u = prev_of v \<and> set us \<inter> set (vs @ [v]) = {} \<and> i \<noteq> j"
proof -
  obtain db i j b c where db: "fork_demo = Inr db" and k: "get_block db i = Some b" "get_block db j = Some c" "i \<noteq> j"
    by (rule fork_demo_runs)
  from fork_branches_found [OF fork_demo_reverse fork_demo_history [OF db] k(1,2)] fork_demo_history [OF db] k(3)
  show ?thesis by blast
qed

end
